(* ===== verification/Prelude.thy ===== *)
theory Prelude
  imports Main "HOL-Library.Word" "HOL-Library.List_Lexorder" "HOL-Library.Monad_Syntax"
    "HOL-Library.Multiset"
begin

text \<open>
  Shared vocabulary of the development: the machine integers of Go as words, byte slices as
  lists of bytes, the little- and big-endian codecs of \<^verbatim>\<open>encoding/binary\<close>, the \<^verbatim>\<open>copy\<close>
  and reslicing primitives, \<^verbatim>\<open>sort.Slice\<close>, and the error values of the engine.

  Conventions used by every other theory:
  \<^item> a Go function that may panic, block forever on a latch or loop forever returns
    an \<open>option\<close>; \<open>None\<close> means that the call does not return;
  \<^item> a Go result \<open>(T, error)\<close> is a value of \<open>goerr + 'a\<close>, with \<open>Inl\<close> for a non-nil error;
  \<^item> a slice is modelled by its contents, so reslicing beyond its length (possible in Go up to
    the hidden capacity, and only reached on malformed cells) counts as a panic.
\<close>

section \<open>Machine integers, bytes and errors\<close>

type_synonym byte = "8 word"
type_synonym u8 = "8 word"
type_synonym u16 = "16 word"
type_synonym u32 = "32 word"
type_synonym u64 = "64 word"
type_synonym bytes = "byte list"

text \<open>The error values of the storage engine, one constructor per error the code creates.\<close>

datatype goerr =
    ErrPageType u8                 \<comment> \<open>Cant perform Insert/Get on page type\<close>
  | ErrPageFull                    \<comment> \<open>page full\<close>
  | ErrInvalidSlot                 \<comment> \<open>invalid slot id\<close>
  | ErrPageDataSize                \<comment> \<open>page data size is invalid\<close>
  | ErrEOF                         \<comment> \<open>io.EOF and io.ErrUnexpectedEOF\<close>
  | ErrClosed                      \<comment> \<open>os.ErrClosed: operation on a closed file\<close>
  | ErrNegativeOffset              \<comment> \<open>os: negative offset\<close>
  | ErrPoolFull                    \<comment> \<open>buffer pool is full and all pages are pinned\<close>
  | ErrNotInPool u32               \<comment> \<open>page is not in buffer pool\<close>
  | ErrPinZero u32                 \<comment> \<open>page pin count is already 0\<close>
  | ErrLogTooSmall                 \<comment> \<open>log record too small\<close>
  | ErrLogSize                     \<comment> \<open>log record size mismatch\<close>
  | ErrLogChecksum                 \<comment> \<open>log record checksum mismatch (torn log detected)\<close>
  | ErrLogCorruptSize              \<comment> \<open>corrupted log record size\<close>
  | ErrKeyNotFound                 \<comment> \<open>key not found\<close>
  | ErrKeyDeleted                  \<comment> \<open>key not found (deleted)\<close>
  | ErrChildZero                   \<comment> \<open>database corrupted: child pointer is 0\<close>
  | ErrConflictRunning bytes u64   \<comment> \<open>write-write conflict: locked by an active transaction\<close>
  | ErrConflictNewer bytes u64     \<comment> \<open>write-write conflict: modified by a newer transaction\<close>
  | ErrWrap string goerr           \<comment> \<open>fmt.Errorf with the verb w\<close>

named_theorems blit_simps \<open>reading a byte list after a copy into it\<close>
named_theorems codec_simps \<open>decoding what the fixed-width codecs encoded\<close>
named_theorems page_simps \<open>header fields of a page after an update of another field\<close>

section \<open>Byte slices\<close>

text \<open>\<open>sub xs a n\<close> is the n bytes at offset a; \<open>goslice\<close> is Go's \<^verbatim>\<open>xs[a:b]\<close> with its panic.\<close>

definition sub :: "'a list \<Rightarrow> nat \<Rightarrow> nat \<Rightarrow> 'a list" where
  "sub xs a n = take n (drop a xs)"

definition goslice :: "'a list \<Rightarrow> nat \<Rightarrow> nat \<Rightarrow> 'a list option" where
  "goslice xs a b = (if a \<le> b \<and> b \<le> length xs then Some (sub xs a (b - a)) else None)"

text \<open>\<open>blit xs off bs\<close> is the slice after Go's \<^verbatim>\<open>copy(xs[off:], bs)\<close>.\<close>

definition blit :: "'a list \<Rightarrow> nat \<Rightarrow> 'a list \<Rightarrow> 'a list" where
  "blit xs off bs = take off xs @ take (length xs - off) bs @ drop (off + length bs) xs"

lemma length_sub [simp]: "length (sub xs a n) = min n (length xs - a)"
  by (simp add: sub_def min.commute)

lemma nth_sub: "i < n \<Longrightarrow> a + i < length xs \<Longrightarrow> sub xs a n ! i = xs ! (a + i)"
  by (simp add: sub_def)

lemma sub_0_all [simp]: "sub xs 0 (length xs) = xs"
  by (simp add: sub_def)

lemma goslice_Some [simp]: "a \<le> b \<Longrightarrow> b \<le> length xs \<Longrightarrow> goslice xs a b = Some (sub xs a (b - a))"
  by (simp add: goslice_def)

lemma goslice_None: "goslice xs a b = None \<longleftrightarrow> \<not> (a \<le> b \<and> b \<le> length xs)"
  by (simp add: goslice_def)

lemma sub_sub: "i + m \<le> n \<Longrightarrow> sub (sub xs a n) i m = sub xs (a + i) m"
  by (simp add: sub_def drop_take take_take min_def add.commute)

lemma sub_append: "sub (xs @ ys) a n =
    (if a + n \<le> length xs then sub xs a n
     else if length xs \<le> a then sub ys (a - length xs) n
     else sub xs a (length xs - a) @ sub ys 0 (a + n - length xs))"
  by (auto simp: sub_def add.commute)

lemma sub_append_left [simp]: "a + n \<le> length xs \<Longrightarrow> sub (xs @ ys) a n = sub xs a n"
  by (simp add: sub_append)

lemma sub_append_right [simp]: "length xs \<le> a \<Longrightarrow> sub (xs @ ys) a n = sub ys (a - length xs) n"
  by (cases "n = 0") (auto simp: sub_def)

lemma length_blit [simp, blit_simps]: "length (blit xs off bs) = length xs"
  by (simp add: blit_def min_def)

lemma nth_blit:
  assumes "i < length xs"
  shows "blit xs off bs ! i = (if off \<le> i \<and> i < off + length bs then bs ! (i - off) else xs ! i)"
  using assms by (auto simp: blit_def nth_append min_def)

lemma sub_blit_same [simp, blit_simps]:
  assumes "off + length bs \<le> length xs" "n = length bs"
  shows "sub (blit xs off bs) off n = bs"
  using assms by (intro nth_equalityI) (auto simp: nth_sub nth_blit)

lemma sub_blit_other [blit_simps]:
  assumes "a + n \<le> off \<or> off + length bs \<le> a"
  shows "sub (blit xs off bs) a n = sub xs a n"
  using assms by (intro nth_equalityI) (auto simp: nth_sub nth_blit)

lemma nth_blit_other [blit_simps]:
  "i < length xs \<Longrightarrow> i < off \<or> off + length bs \<le> i \<Longrightarrow> blit xs off bs ! i = xs ! i"
  by (auto simp: nth_blit)

lemma nth_blit_singleton [simp]: "off < length xs \<Longrightarrow> blit xs off [b] ! off = b"
  by (simp add: nth_blit)

lemma blit_idem [blit_simps]:
  "length bs = length cs \<Longrightarrow> blit (blit xs off bs) off cs = blit xs off cs"
  by (intro nth_equalityI) (auto simp: nth_blit)

lemma blit_self [blit_simps]: "off + n \<le> length xs \<Longrightarrow> blit xs off (sub xs off n) = xs"
  by (intro nth_equalityI) (auto simp: nth_blit nth_sub)

lemma blit_commute:
  "off + length bs \<le> off' \<or> off' + length cs \<le> off \<Longrightarrow>
   blit (blit xs off bs) off' cs = blit (blit xs off' cs) off bs"
  by (intro nth_equalityI) (auto simp: nth_blit)

lemma sub_list_update:
  "sub (xs[i := v]) a n = (if a \<le> i \<and> i < a + n then (sub xs a n)[i - a := v] else sub xs a n)"
proof (cases "a \<le> i")
  case True
  then have "sub (xs[i := v]) a n = (sub xs a n)[i - a := v]"
    by (simp add: sub_def drop_update_swap take_update_swap)
  then show ?thesis using True by (auto simp: list_update_beyond)
next
  case False
  then show ?thesis by (simp add: sub_def)
qed

text \<open>Filling a fresh buffer from left to right, as the serialisers do.\<close>

lemma blit_fresh_0: "length bs \<le> n \<Longrightarrow> blit (replicate n z) 0 bs = bs @ replicate (n - length bs) z"
  by (simp add: blit_def)

lemma blit_fresh:
  "off = length as \<Longrightarrow> length bs \<le> n \<Longrightarrow>
   blit (as @ replicate n z) off bs = (as @ bs) @ replicate (n - length bs) z"
  by (simp add: blit_def)

fun blits :: "'a list \<Rightarrow> nat \<Rightarrow> 'a list list \<Rightarrow> 'a list" where
  "blits buf off [] = buf"
| "blits buf off (x # xs) = blits (blit buf off x) (off + length x) xs"

lemma blits_fresh:
  "length (concat xss) \<le> n \<Longrightarrow> off = length as \<Longrightarrow>
   blits (as @ replicate n z) off xss = as @ concat xss @ replicate (n - length (concat xss)) z"
proof (induction xss arbitrary: n off as)
  case Nil
  then show ?case by simp
next
  case (Cons x xss)
  have "blit (as @ replicate n z) off x = (as @ x) @ replicate (n - length x) z"
    by (rule blit_fresh) (use Cons.prems in auto)
  then show ?case
    using Cons.IH [of "n - length x" "off + length x" "as @ x"] Cons.prems by simp
qed

lemma blits_fresh_0:
  "length (concat xss) \<le> n \<Longrightarrow>
   blits (replicate n z) 0 xss = concat xss @ replicate (n - length (concat xss)) z"
  using blits_fresh [of xss n 0 "[]"] by simp

section \<open>The fixed-width codecs of encoding/binary\<close>

text \<open>The n low base-256 digits of a number, least significant first, and their value.\<close>

fun le_bytes :: "nat \<Rightarrow> nat \<Rightarrow> bytes" where
  "le_bytes 0 v = []"
| "le_bytes (Suc n) v = of_nat (v mod 256) # le_bytes n (v div 256)"

fun le_nat :: "bytes \<Rightarrow> nat" where
  "le_nat [] = 0"
| "le_nat (b # bs) = unat b + 256 * le_nat bs"

definition PutUint16 :: "u16 \<Rightarrow> bytes" where "PutUint16 v = le_bytes 2 (unat v)"
definition PutUint32 :: "u32 \<Rightarrow> bytes" where "PutUint32 v = le_bytes 4 (unat v)"
definition PutUint64 :: "u64 \<Rightarrow> bytes" where "PutUint64 v = le_bytes 8 (unat v)"
definition BigPutUint64 :: "u64 \<Rightarrow> bytes" where "BigPutUint64 v = rev (le_bytes 8 (unat v))"

definition Uint16 :: "bytes \<Rightarrow> u16" where "Uint16 bs = of_nat (le_nat bs)"
definition Uint32 :: "bytes \<Rightarrow> u32" where "Uint32 bs = of_nat (le_nat bs)"
definition Uint64 :: "bytes \<Rightarrow> u64" where "Uint64 bs = of_nat (le_nat bs)"
definition BigUint64 :: "bytes \<Rightarrow> u64" where "BigUint64 bs = of_nat (le_nat (rev bs))"

lemma unat_lt_len: "unat (w :: 'a::len word) < 2 ^ LENGTH('a)"
  by (rule unsigned_less)

lemma length_le_bytes [simp]: "length (le_bytes n v) = n"
  by (induction n arbitrary: v) auto

lemma le_nat_le_bytes: "le_nat (le_bytes n v) = v mod 256 ^ n"
proof (induction n arbitrary: v)
  case 0
  then show ?case by simp
next
  case (Suc n)
  have "unat (of_nat (v mod 256) :: byte) = v mod 256"
    by (simp add: unat_of_nat)
  then show ?case
    using Suc by (simp add: mod_mult2_eq)
qed

lemma le_nat_bound: "le_nat bs < 256 ^ length bs"
proof (induction bs)
  case Nil
  then show ?case by simp
next
  case (Cons b bs)
  have "unat b < 256" using unat_lt_len [of b] by simp
  then have "unat b + 256 * le_nat bs < 256 + 256 * le_nat bs" by simp
  also have "\<dots> \<le> 256 * 256 ^ length bs"
    using Cons.IH by (metis Suc_leI mult_Suc_right mult_le_mono2)
  finally show ?case by simp
qed

lemma le_bytes_le_nat [simp]: "le_bytes (length bs) (le_nat bs) = bs"
proof (induction bs)
  case Nil
  then show ?case by simp
next
  case (Cons b bs)
  have "unat b < 256" using unat_lt_len [of b] by simp
  then show ?case using Cons.IH by simp
qed

lemma length_PutUint [simp]:
  "length (PutUint16 a) = 2" "length (PutUint32 b) = 4" "length (PutUint64 c) = 8"
  "length (BigPutUint64 c) = 8"
  by (simp_all add: PutUint16_def PutUint32_def PutUint64_def BigPutUint64_def)

lemma Uint16_Put [simp, codec_simps]: "Uint16 (PutUint16 v) = v"
  using unat_lt_len [of v] by (simp add: Uint16_def PutUint16_def le_nat_le_bytes)

lemma Uint32_Put [simp, codec_simps]: "Uint32 (PutUint32 v) = v"
  using unat_lt_len [of v] by (simp add: Uint32_def PutUint32_def le_nat_le_bytes)

lemma Uint64_Put [simp, codec_simps]: "Uint64 (PutUint64 v) = v"
  using unat_lt_len [of v] by (simp add: Uint64_def PutUint64_def le_nat_le_bytes)

lemma BigUint64_Put [simp, codec_simps]: "BigUint64 (BigPutUint64 v) = v"
  using unat_lt_len [of v] by (simp add: BigUint64_def BigPutUint64_def le_nat_le_bytes)

lemma unat_of_nat_16 [simp]: "n < 65536 \<Longrightarrow> unat (of_nat n :: u16) = n"
  by (simp add: unat_of_nat)

lemma unat_of_nat_32 [simp]: "n < 4294967296 \<Longrightarrow> unat (of_nat n :: u32) = n"
  by (simp add: unat_of_nat)

lemma unat_of_nat_64 [simp]: "n < 18446744073709551616 \<Longrightarrow> unat (of_nat n :: u64) = n"
  by (simp add: unat_of_nat)

lemma Put32_Uint32: "length bs = 4 \<Longrightarrow> PutUint32 (Uint32 bs) = bs"
  using le_nat_bound [of bs] le_bytes_le_nat [of bs]
  by (simp add: PutUint32_def Uint32_def del: le_bytes_le_nat)

lemma Put64_Uint64: "length bs = 8 \<Longrightarrow> PutUint64 (Uint64 bs) = bs"
  using le_nat_bound [of bs] le_bytes_le_nat [of bs]
  by (simp add: PutUint64_def Uint64_def del: le_bytes_le_nat)

lemma Uint32_update:
  assumes "length bs = 4" "i < 4" "bs ! i \<noteq> v"
  shows "Uint32 (bs[i := v]) \<noteq> Uint32 bs"
proof
  assume "Uint32 (bs[i := v]) = Uint32 bs"
  then have "bs[i := v] = bs" using assms Put32_Uint32 by (metis length_list_update)
  then show False using assms by (metis nth_list_update_eq)
qed

lemma PutUint16_inject [simp]: "PutUint16 a = PutUint16 b \<longleftrightarrow> a = b"
  by (metis Uint16_Put)

lemma PutUint32_inject [simp]: "PutUint32 a = PutUint32 b \<longleftrightarrow> a = b"
  by (metis Uint32_Put)

lemma PutUint64_inject [simp]: "PutUint64 a = PutUint64 b \<longleftrightarrow> a = b"
  by (metis Uint64_Put)

section \<open>bytes.Compare\<close>

text \<open>Byte slices are compared lexicographically, a proper prefix first: the order that
  \<^verbatim>\<open>HOL-Library.List_Lexorder\<close> gives to lists of words.\<close>

definition Compare :: "bytes \<Rightarrow> bytes \<Rightarrow> int" where
  "Compare a b = (if a = b then 0 else if a < b then - 1 else 1)"

lemma Compare_simps [simp]:
  "Compare a b \<le> 0 \<longleftrightarrow> a \<le> b" "Compare a b < 0 \<longleftrightarrow> a < b" "0 < Compare a b \<longleftrightarrow> b < a"
  "Compare a b = 0 \<longleftrightarrow> a = b"
  by (auto simp: Compare_def)

section \<open>sort.Slice\<close>

text \<open>Insertion sort with the caller's comparison, as \<^verbatim>\<open>sort.Slice\<close> runs it on short slices:
  each element moves left past the elements it is less than. On longer slices Go switches to a
  different algorithm; \<open>sortSlice_unique\<close> below shows that with distinct keys every sorted
  permutation is the same list.\<close>

fun rins :: "('a \<Rightarrow> 'a \<Rightarrow> bool) \<Rightarrow> 'a \<Rightarrow> 'a list \<Rightarrow> 'a list" where
  "rins lt x [] = [x]"
| "rins lt x (y # ys) = (if lt x y then y # rins lt x ys else x # y # ys)"

definition sortSlice :: "('a \<Rightarrow> 'a \<Rightarrow> bool) \<Rightarrow> 'a list \<Rightarrow> 'a list" where
  "sortSlice lt xs = rev (fold (rins lt) xs [])"

lemma mset_rins [simp]: "mset (rins lt x ys) = add_mset x (mset ys)"
  by (induction ys) auto

lemma mset_fold_rins: "mset (fold (rins lt) xs acc) = mset xs + mset acc"
  by (induction xs arbitrary: acc) auto

lemma mset_sortSlice [simp]: "mset (sortSlice lt xs) = mset xs"
  by (simp add: sortSlice_def mset_fold_rins)

lemma set_sortSlice [simp]: "set (sortSlice lt xs) = set xs"
  by (metis mset_sortSlice set_mset_mset)

lemma length_sortSlice [simp]: "length (sortSlice lt xs) = length xs"
  by (metis mset_sortSlice size_mset)

lemma sorted_rins:
  fixes f :: "'a \<Rightarrow> 'k::linorder"
  assumes "\<And>a b. a \<in> insert x (set ys) \<Longrightarrow> b \<in> insert x (set ys) \<Longrightarrow> f a < f b \<Longrightarrow> lt a b"
    and "\<And>a b. a \<in> insert x (set ys) \<Longrightarrow> b \<in> insert x (set ys) \<Longrightarrow> lt a b \<Longrightarrow> f a \<le> f b"
    and "sorted_wrt (\<lambda>a b. f b \<le> f a) ys"
  shows "sorted_wrt (\<lambda>a b. f b \<le> f a) (rins lt x ys)"
  using assms
proof (induction ys)
  case Nil
  then show ?case by simp
next
  case (Cons y ys)
  have set_rins: "set (rins lt x ys) = insert x (set ys)"
    by (metis mset_rins set_mset_add_mset_insert set_mset_mset)
  show ?case
  proof (cases "lt x y")
    case True
    moreover have "f x \<le> f y" using Cons.prems(2) True by simp
    moreover have "sorted_wrt (\<lambda>a b. f b \<le> f a) (rins lt x ys)"
      by (rule Cons.IH) (use Cons.prems in auto)
    ultimately show ?thesis using Cons.prems(3) by (auto simp: set_rins)
  next
    case False
    then have "\<not> f x < f y" using Cons.prems(1) by auto
    then have "f y \<le> f x" by simp
    then show ?thesis using False Cons.prems(3) by (auto intro: order_trans)
  qed
qed

lemma sorted_sortSlice_gen:
  fixes f :: "'a \<Rightarrow> 'k::linorder"
  assumes lt: "\<And>a b. a \<in> set xs \<Longrightarrow> b \<in> set xs \<Longrightarrow> f a < f b \<Longrightarrow> lt a b"
    and le: "\<And>a b. a \<in> set xs \<Longrightarrow> b \<in> set xs \<Longrightarrow> lt a b \<Longrightarrow> f a \<le> f b"
  shows "sorted (map f (sortSlice lt xs))"
proof -
  have "sorted_wrt (\<lambda>a b. f b \<le> f a) (fold (rins lt) ys acc)"
    if "sorted_wrt (\<lambda>a b. f b \<le> f a) acc" "set ys \<union> set acc \<subseteq> set xs" for ys acc
    using that
  proof (induction ys arbitrary: acc)
    case Nil
    then show ?case by simp
  next
    case (Cons y ys)
    have sub: "insert y (set acc) \<subseteq> set xs" using Cons.prems(2) by auto
    have "sorted_wrt (\<lambda>a b. f b \<le> f a) (rins lt y acc)"
      by (rule sorted_rins [OF _ _ Cons.prems(1)])
        (simp_all add: lt le subsetD [OF sub])
    moreover have "set (rins lt y acc) = insert y (set acc)"
      by (metis mset_rins set_mset_add_mset_insert set_mset_mset)
    ultimately show ?case using Cons.IH Cons.prems(2) by simp
  qed
  then have "sorted_wrt (\<lambda>a b. f b \<le> f a) (fold (rins lt) xs [])" by simp
  then show ?thesis
    by (simp add: sortSlice_def sorted_map sorted_wrt_rev)
qed

lemma sorted_sortSlice:
  fixes f :: "'a \<Rightarrow> 'k::linorder"
  shows "sorted (map f (sortSlice (\<lambda>a b. f a < f b) xs))"
  by (rule sorted_sortSlice_gen) auto

text \<open>With distinct keys the sorted permutation is unique, whatever algorithm computes it.\<close>

lemma sortSlice_unique:
  fixes f :: "'a \<Rightarrow> 'k::linorder"
  assumes "mset ys = mset xs" "sorted (map f ys)" "distinct (map f xs)"
  shows "sortSlice (\<lambda>a b. f a < f b) xs = ys"
proof -
  have inj: "inj_on f (set xs)" using assms(3) by (simp add: distinct_map)
  let ?s = "sortSlice (\<lambda>a b. f a < f b) xs"
  have m: "mset (map f ?s) = mset (map f ys)"
    using assms(1) by simp
  have "sort (map f ys) = map f ?s"
    by (rule properties_for_sort [OF m sorted_sortSlice])
  moreover have "sort (map f ys) = map f ys"
    using assms(2) by (rule sorted_sort_id)
  ultimately have "map f ?s = map f ys" by simp
  moreover have "set ys = set xs" by (rule mset_eq_setD [OF assms(1)])
  ultimately show ?thesis
    using inj by (intro map_inj_on [where f = f]) simp_all
qed

lemma sortSlice_sorted:
  fixes f :: "'a \<Rightarrow> 'k::linorder"
  assumes "sorted (map f xs)" "distinct (map f xs)"
  shows "sortSlice (\<lambda>a b. f a < f b) xs = xs"
  using sortSlice_unique [of xs xs f] assms by simp

section \<open>Range loops\<close>

text \<open>\<open>each f s xs\<close> is the loop \<^verbatim>\<open>for _, x := range xs { s.f(x) }\<close> that ignores what each call
  returns and keeps its effect on the receiver.\<close>

fun each :: "('s \<Rightarrow> 'x \<Rightarrow> ('r \<times> 's) option) \<Rightarrow> 's \<Rightarrow> 'x list \<Rightarrow> 's option" where
  "each f s [] = Some s"
| "each f s (x # xs) = do { (_, s) \<leftarrow> f s x; each f s xs }"

lemma each_append: "each f s (xs @ ys) = Option.bind (each f s xs) (\<lambda>s. each f s ys)"
  by (induction xs arbitrary: s) (auto split: Option.bind_splits)

section \<open>16-bit arithmetic without wrap-around\<close>

lemma unat_plus_16: "unat a + unat b < 65536 \<Longrightarrow> unat (a + b :: u16) = unat a + unat b"
  by (simp add: unat_word_ariths)

lemma unat_minus_16: "unat b \<le> unat a \<Longrightarrow> unat (a - b :: u16) = unat a - unat b"
  by (simp add: unat_sub word_le_nat_alt)

lemma unat_times_4_16: "4 * unat a < 65536 \<Longrightarrow> unat (a * 4 :: u16) = 4 * unat a"
  by (simp add: unat_word_ariths mult.commute)

section \<open>Generic list and option facts\<close>

lemma those_eq_Some [simp]: "those (map (\<lambda>x. Some (f x)) xs) = Some (map f xs)"
  by (induction xs) auto

lemma those_map_Some:
  "(\<And>x. x \<in> set xs \<Longrightarrow> g x = Some (f x)) \<Longrightarrow> those (map g xs) = Some (map f xs)"
  by (induction xs) auto

lemma those_None: "x \<in> set xs \<Longrightarrow> g x = None \<Longrightarrow> those (map g xs) = None"
  by (induction xs) (auto split: option.splits)

lemma length_those: "those xs = Some ys \<Longrightarrow> length ys = length xs"
  by (induction xs arbitrary: ys) (auto split: option.splits)

lemma map_nth_upt_append: "map (\<lambda>i. (xs @ ys) ! i) [0..<length xs] = xs"
  by (intro nth_equalityI) (auto simp: nth_append)

end
