(* ===== verification/Cell.thy ===== *)
theory Cell
  imports Prelude
begin

unbundle bit_operations_syntax

text \<open>
  The cells of \<^verbatim>\<open>internal/storage/cell.go\<close>: \<open>KeyCell\<close> (routing cells of internal nodes) and
  \<open>KVCell\<close> (leaf cells), with their byte layouts. Lengths are written in 16 bits and the decoder
  adds them in 16 bits, so both codecs are modelled with the wrap-around; \<open>None\<close> is the panic of
  an out-of-range slice. The locale \<open>byte_codec\<close> is the contract the pages, the tree and the log
  rely on, and it is interpreted here for both cells.
\<close>

section \<open>Data\<close>

record KeyCell =
  kcKey :: bytes
  ChildPageID :: u32

record KVCell =
  Key :: bytes
  Value :: bytes
  Flag :: u8

definition KEY_DELETED_FLAG :: u8 where "KEY_DELETED_FLAG = push_bit 1 1"
definition KEY_OVERFLOW_FLAG :: u8 where "KEY_OVERFLOW_FLAG = push_bit 2 1"

section \<open>Operations\<close>

definition KeyCell_Size :: "KeyCell \<Rightarrow> nat" where
  "KeyCell_Size k = 4 + 2 + length (kcKey k)"

definition KeyCell_Serialize :: "KeyCell \<Rightarrow> bytes" where
  "KeyCell_Serialize k =
     (let buf = replicate (KeyCell_Size k) 0;
          buf = blit buf 0 (PutUint32 (ChildPageID k));
          buf = blit buf 4 (PutUint16 (of_nat (length (kcKey k))))
      in blit buf 6 (kcKey k))"

definition DeserializeKeyCell :: "bytes \<Rightarrow> KeyCell option" where
  "DeserializeKeyCell data = do {
     b0 \<leftarrow> goslice data 0 4;
     b1 \<leftarrow> goslice data 4 6;
     let keyLen = Uint16 b1;
     key \<leftarrow> goslice data 6 (unat (6 + keyLen));
     Some \<lparr>kcKey = key, ChildPageID = Uint32 b0\<rparr>
   }"

definition KVCell_Size :: "KVCell \<Rightarrow> nat" where
  "KVCell_Size k = 1 + 2 + 2 + length (Key k) + length (Value k)"

definition KVCell_Serialize :: "KVCell \<Rightarrow> bytes" where
  "KVCell_Serialize k =
     (let buf = replicate (KVCell_Size k) 0;
          buf = blit buf 0 [Flag k];
          buf = blit buf 1 (PutUint16 (of_nat (length (Key k))));
          buf = blit buf 3 (PutUint16 (of_nat (length (Value k))));
          buf = blit buf 5 (Key k)
      in blit buf (5 + length (Key k)) (Value k))"

definition DeserializeKVCell :: "bytes \<Rightarrow> KVCell option" where
  "DeserializeKVCell data = do {
     flag \<leftarrow> (if 0 < length data then Some (data ! 0) else None);
     b1 \<leftarrow> goslice data 1 3;
     b3 \<leftarrow> goslice data 3 5;
     let keyLen = Uint16 b1;
     let valLen = Uint16 b3;
     key \<leftarrow> goslice data 5 (unat (5 + keyLen));
     val \<leftarrow> goslice data (unat (5 + keyLen)) (unat (5 + keyLen + valLen));
     Some \<lparr>Key = key, Value = val, Flag = flag\<rparr>
   }"

definition NewKeyCell :: "u32 \<Rightarrow> bytes \<Rightarrow> KeyCell" where
  "NewKeyCell pageID key = \<lparr>kcKey = key, ChildPageID = pageID\<rparr>"

definition NewKVCell :: "u8 \<Rightarrow> bytes \<Rightarrow> bytes \<Rightarrow> KVCell" where
  "NewKVCell flag key value = \<lparr>Key = key, Value = value, Flag = flag\<rparr>"

definition IsDeleted :: "KVCell \<Rightarrow> bool" where
  "IsDeleted k \<longleftrightarrow> Flag k AND KEY_DELETED_FLAG \<noteq> 0"

definition SetDeleted :: "KVCell \<Rightarrow> KVCell" where
  "SetDeleted k = k\<lparr>Flag := Flag k OR KEY_DELETED_FLAG\<rparr>"

definition IsOverflow :: "KVCell \<Rightarrow> bool" where
  "IsOverflow k \<longleftrightarrow> Flag k AND KEY_OVERFLOW_FLAG \<noteq> 0"

definition SetOverflow :: "KVCell \<Rightarrow> KVCell" where
  "SetOverflow k = k\<lparr>Flag := Flag k OR KEY_OVERFLOW_FLAG\<rparr>"

section \<open>The codec contract\<close>

text \<open>What a client may assume of a serialised form: decoding inverts encoding on the values
  that respect the format's limits, and the encoded length is the declared size.\<close>

locale byte_codec =
  fixes enc :: "'c \<Rightarrow> bytes"
    and dec :: "bytes \<Rightarrow> 'c option"
    and size_of :: "'c \<Rightarrow> nat"
    and fits :: "'c \<Rightarrow> bool"
  assumes dec_enc: "fits c \<Longrightarrow> dec (enc c) = Some c"
    and length_enc: "length (enc c) = size_of c"
begin

lemma enc_inject: "fits c \<Longrightarrow> fits d \<Longrightarrow> enc c = enc d \<longleftrightarrow> c = d"
  by (metis dec_enc option.inject)

lemma dec_all: "(\<And>c. c \<in> set cs \<Longrightarrow> fits c) \<Longrightarrow> those (map dec (map enc cs)) = Some cs"
  by (induction cs) (auto simp: dec_enc)

lemma distinct_enc: "(\<And>c. c \<in> set cs \<Longrightarrow> fits c) \<Longrightarrow> distinct (map enc cs) \<longleftrightarrow> distinct cs"
  by (auto simp: distinct_map inj_on_def enc_inject)

end

section \<open>Layout lemmas\<close>

lemma KeyCell_Serialize_layout:
  "KeyCell_Serialize k =
     PutUint32 (ChildPageID k) @ PutUint16 (of_nat (length (kcKey k))) @ kcKey k"
  using blits_fresh_0 [of "[PutUint32 (ChildPageID k), PutUint16 (of_nat (length (kcKey k))), kcKey k]"
    "KeyCell_Size k" 0]
  by (simp add: KeyCell_Serialize_def KeyCell_Size_def Let_def del: replicate_Suc)

lemma KVCell_Serialize_layout:
  "KVCell_Serialize k =
     Flag k # PutUint16 (of_nat (length (Key k))) @ PutUint16 (of_nat (length (Value k)))
       @ Key k @ Value k"
  using blits_fresh_0 [of "[[Flag k], PutUint16 (of_nat (length (Key k))),
    PutUint16 (of_nat (length (Value k))), Key k, Value k]" "KVCell_Size k" 0]
  by (simp add: KVCell_Serialize_def KVCell_Size_def Let_def eval_nat_numeral del: replicate_Suc)

lemma length_KeyCell_Serialize [simp]: "length (KeyCell_Serialize k) = KeyCell_Size k"
  by (simp add: KeyCell_Serialize_layout KeyCell_Size_def)

lemma length_KVCell_Serialize [simp]: "length (KVCell_Serialize k) = KVCell_Size k"
  by (simp add: KVCell_Serialize_layout KVCell_Size_def)

lemma sub_Cons_Suc: "0 < a \<Longrightarrow> sub (x # xs) a n = sub xs (a - 1) n"
  by (cases a) (simp_all add: sub_def)

lemma sub_prefix [simp]: "n = length xs \<Longrightarrow> sub (xs @ ys) 0 n = xs"
  by (simp add: sub_def)

lemma sub_whole [simp]: "n = length xs \<Longrightarrow> sub xs 0 n = xs"
  by simp

lemma unat_plus_const_16:
  "n + m < 65536 \<Longrightarrow> unat (of_nat n + of_nat m :: u16) = n + m"
  by (metis of_nat_add unat_of_nat_16)

lemma unat_6_plus: "n < 65530 \<Longrightarrow> unat (6 + of_nat n :: u16) = 6 + n"
  using unat_plus_const_16 [of 6 n] by simp

lemma unat_5_plus: "n < 65531 \<Longrightarrow> unat (5 + of_nat n :: u16) = 5 + n"
  using unat_plus_const_16 [of 5 n] by simp

lemma unat_5_plus_plus: "n + m < 65531 \<Longrightarrow> unat (5 + of_nat n + of_nat m :: u16) = 5 + n + m"
  using unat_plus_const_16 [of "5 + n" m] by simp

text \<open>The largest cells the 16-bit length arithmetic of the decoders handles.\<close>

definition key_cell_fits :: "KeyCell \<Rightarrow> bool" where
  "key_cell_fits k \<longleftrightarrow> length (kcKey k) < 65530"

definition kv_cell_fits :: "KVCell \<Rightarrow> bool" where
  "kv_cell_fits k \<longleftrightarrow> length (Key k) + length (Value k) < 65531"

interpretation key_cell: byte_codec KeyCell_Serialize DeserializeKeyCell KeyCell_Size key_cell_fits
proof unfold_locales
  fix c assume "key_cell_fits c"
  then have "length (kcKey c) < 65530" by (simp add: key_cell_fits_def)
  then show "DeserializeKeyCell (KeyCell_Serialize c) = Some c"
    by (simp add: DeserializeKeyCell_def KeyCell_Serialize_layout unat_6_plus)
next
  fix c show "length (KeyCell_Serialize c) = KeyCell_Size c" by simp
qed

interpretation kv_cell: byte_codec KVCell_Serialize DeserializeKVCell KVCell_Size kv_cell_fits
proof unfold_locales
  fix c assume "kv_cell_fits c"
  then have "length (Key c) + length (Value c) < 65531" by (simp add: kv_cell_fits_def)
  then show "DeserializeKVCell (KVCell_Serialize c) = Some c"
    by (simp add: DeserializeKVCell_def KVCell_Serialize_layout sub_Cons_Suc
        unat_5_plus unat_5_plus_plus)
next
  fix c show "length (KVCell_Serialize c) = KVCell_Size c" by simp
qed

section \<open>Flags\<close>

lemma flag_values: "KEY_DELETED_FLAG = 2" "KEY_OVERFLOW_FLAG = 4"
  by (simp_all add: KEY_DELETED_FLAG_def KEY_OVERFLOW_FLAG_def)

lemma IsDeleted_bit: "IsDeleted k \<longleftrightarrow> bit (Flag k) 1"
  using and_exp_eq_0_iff_not_bit [of "Flag k" 1] by (simp add: IsDeleted_def flag_values)

lemma IsOverflow_bit: "IsOverflow k \<longleftrightarrow> bit (Flag k) 2"
  using and_exp_eq_0_iff_not_bit [of "Flag k" 2] by (simp add: IsOverflow_def flag_values)

end
