(* ===== verification/Checksum.thy ===== *)
theory Checksum
  imports Prelude
begin

unbundle bit_operations_syntax

text \<open>
  The CRC-32 of \<^verbatim>\<open>hash/crc32\<close> with the IEEE polynomial, as \<^verbatim>\<open>ChecksumIEEE\<close> computes it with
  its 256-entry table. The page header and the log records carry it. Besides being executable,
  the definition is strong enough to show what the engine relies on: a change confined to one
  byte always changes the checksum.
\<close>

definition crc_poly :: u32 where
  "crc_poly = 0xEDB88320"

definition crc_bit :: "u32 \<Rightarrow> u32" where
  "crc_bit c = (if bit c 0 then drop_bit 1 c XOR crc_poly else drop_bit 1 c)"

definition crc_tab :: "byte \<Rightarrow> u32" where
  "crc_tab b = (crc_bit ^^ 8) (ucast b)"

definition crc_step :: "u32 \<Rightarrow> byte \<Rightarrow> u32" where
  "crc_step c v = crc_tab (ucast c XOR v) XOR drop_bit 8 c"

definition ChecksumIEEE :: "bytes \<Rightarrow> u32" where
  "ChecksumIEEE bs = NOT (foldl crc_step (NOT 0) bs)"

section \<open>The table step is eight single-bit steps\<close>

lemma crc_bit_xor: "crc_bit (a XOR b) = crc_bit a XOR crc_bit b"
proof (rule bit_eqI)
  fix n assume "possible_bit TYPE(u32) n"
  show "bit (crc_bit (a XOR b)) n = bit (crc_bit a XOR crc_bit b) n"
    by (auto simp: crc_bit_def bit_simps)
qed

lemma crc_bits_xor: "(crc_bit ^^ k) (a XOR b) = (crc_bit ^^ k) a XOR (crc_bit ^^ k) b"
  by (induction k) (simp_all add: crc_bit_xor)

lemma crc_bits_low_zero: "(\<And>i. i < k \<Longrightarrow> \<not> bit y i) \<Longrightarrow> (crc_bit ^^ k) y = drop_bit k y"
proof (induction k)
  case 0
  then show ?case by simp
next
  case (Suc k)
  then have "(crc_bit ^^ k) y = drop_bit k y" by simp
  moreover have "\<not> bit (drop_bit k y) 0" using Suc.prems by (simp add: bit_simps)
  ultimately have "crc_bit ((crc_bit ^^ k) y) = drop_bit 1 (drop_bit k y)"
    by (simp add: crc_bit_def [of "drop_bit k y"])
  then show ?case by simp
qed

lemma crc_step_bits: "crc_step c v = (crc_bit ^^ 8) (c XOR ucast v)"
proof -
  let ?lo = "ucast (ucast c XOR v :: byte) :: u32"
  let ?hi = "c AND NOT (mask 8)"
  have split: "c XOR ucast v = ?lo XOR ?hi"
    by (rule bit_eqI) (auto simp: bit_simps)
  have "(crc_bit ^^ 8) ?hi = drop_bit 8 ?hi"
    by (rule crc_bits_low_zero) (simp add: bit_simps)
  also have "\<dots> = drop_bit 8 c"
    by (rule bit_eqI) (auto simp: bit_simps dest: bit_imp_le_length)
  finally show ?thesis
    by (simp add: crc_step_def crc_tab_def split crc_bits_xor)
qed

section \<open>Injectivity\<close>

lemma crc_bit_top: "bit (crc_bit c) 31 = bit c 0"
proof -
  have "bit crc_poly 31" by (simp add: crc_poly_def)
  moreover have "\<not> bit (drop_bit 1 c) 31"
    using bit_imp_le_length [of c 32] by (auto simp: bit_simps)
  ultimately show ?thesis by (simp add: crc_bit_def bit_simps)
qed

lemma crc_bit_inj: "crc_bit a = crc_bit b \<Longrightarrow> a = b"
proof -
  assume eq: "crc_bit a = crc_bit b"
  then have low: "bit a 0 = bit b 0" by (metis crc_bit_top)
  have "drop_bit 1 a = drop_bit 1 b"
  proof (cases "bit a 0")
    case True
    then have "drop_bit 1 a XOR crc_poly = drop_bit 1 b XOR crc_poly"
      using eq low by (simp add: crc_bit_def)
    then have "(drop_bit 1 a XOR crc_poly) XOR crc_poly = (drop_bit 1 b XOR crc_poly) XOR crc_poly"
      by (rule arg_cong)
    then show ?thesis by (simp add: xor.assoc)
  next
    case False
    then show ?thesis using eq low by (simp add: crc_bit_def)
  qed
  then have "bit a (Suc n) = bit b (Suc n)" for n
    by (metis One_nat_def bit_drop_bit_eq comp_def plus_1_eq_Suc)
  then show "a = b"
    using low by (intro bit_eqI) (metis not0_implies_Suc)
qed

lemma crc_bits_inj: "(crc_bit ^^ k) a = (crc_bit ^^ k) b \<Longrightarrow> a = b"
  by (induction k) (auto dest: crc_bit_inj)

lemma crc_step_inj_state: "crc_step c v = crc_step d v \<Longrightarrow> c = d"
proof -
  assume "crc_step c v = crc_step d v"
  then have "c XOR ucast v = d XOR ucast v"
    by (simp add: crc_step_bits) (rule crc_bits_inj)
  then have "(c XOR ucast v) XOR ucast v = (d XOR ucast v) XOR ucast v"
    by (rule arg_cong)
  then show "c = d" by (simp add: xor.assoc)
qed

lemma crc_step_inj_byte: "crc_step c v = crc_step c w \<Longrightarrow> v = w"
proof -
  assume "crc_step c v = crc_step c w"
  then have "c XOR ucast v = c XOR ucast w"
    by (simp add: crc_step_bits) (rule crc_bits_inj)
  then have "c XOR (c XOR ucast v) = c XOR (c XOR ucast w)"
    by (rule arg_cong)
  then have "(ucast v :: u32) = ucast w" by (simp flip: xor.assoc)
  moreover have "ucast (ucast x :: u32) = x" for x :: byte
    by (rule bit_eqI) (simp add: bit_simps)
  ultimately show "v = w" by metis
qed

lemma foldl_crc_inj: "foldl crc_step c bs = foldl crc_step d bs \<Longrightarrow> c = d"
  by (induction bs arbitrary: c d) (auto dest: crc_step_inj_state)

text \<open>A message and a copy that differs in exactly one byte never have the same checksum.\<close>

lemma ChecksumIEEE_one_byte:
  assumes "ChecksumIEEE (xs @ v # ys) = ChecksumIEEE (xs @ w # ys)"
  shows "v = w"
proof -
  have "foldl crc_step (NOT 0) (xs @ v # ys) = foldl crc_step (NOT 0) (xs @ w # ys)"
    using assms by (simp add: ChecksumIEEE_def)
  then have "crc_step (foldl crc_step (NOT 0) xs) v = crc_step (foldl crc_step (NOT 0) xs) w"
    by (simp add: foldl_crc_inj)
  then show ?thesis by (rule crc_step_inj_byte)
qed

lemma ChecksumIEEE_update:
  assumes "i < length bs" "bs ! i \<noteq> v"
  shows "ChecksumIEEE (bs[i := v]) \<noteq> ChecksumIEEE bs"
proof
  assume eq: "ChecksumIEEE (bs[i := v]) = ChecksumIEEE bs"
  have "bs = take i bs @ bs ! i # drop (Suc i) bs"
    using assms(1) by (rule id_take_nth_drop)
  moreover have "bs[i := v] = take i bs @ v # drop (Suc i) bs"
    using assms(1) by (rule upd_conv_take_nth_drop)
  ultimately have "v = bs ! i" using eq by (metis ChecksumIEEE_one_byte)
  then show False using assms(2) by simp
qed

end
