(* ===== verification/Page.thy ===== *)
theory Page
  imports Cell Checksum
begin

text \<open>
  The slotted page of \<^verbatim>\<open>internal/storage/page.go\<close>. A page is its 4096 raw bytes; every header
  accessor reads or writes the bytes at the offset the source gives it. \<open>Page_Insert\<close> and
  \<open>Page_Get\<close> keep the 16-bit arithmetic of the source, and \<open>None\<close> is the panic of a slice
  expression out of range.

  The refinement: \<open>page_cells\<close> reads a page as the list of its cells, \<open>wf_slotted\<close> is the
  invariant of a page built by \<open>Init\<close> and \<open>Insert\<close>, and the locale \<open>cell_page\<close> states what the
  tree relies on: an insert appends the cell when it fits and changes nothing when it does not.
\<close>

section \<open>Constants\<close>

type_synonym page = bytes

abbreviation (input) PageSize :: "'a::numeral" where "PageSize \<equiv> 4096"
abbreviation (input) HeaderSize :: "'a::numeral" where "HeaderSize \<equiv> 32"
abbreviation (input) SlotSize :: "'a::numeral" where "SlotSize \<equiv> 4"
definition Magic :: u32 where "Magic = 0xDAB0BA55"

abbreviation (input) magicOffset :: nat where "magicOffset \<equiv> 0"
abbreviation (input) checksumOffset :: nat where "checksumOffset \<equiv> 4"
abbreviation (input) pageIDOffset :: nat where "pageIDOffset \<equiv> 8"
abbreviation (input) lsnOffset :: nat where "lsnOffset \<equiv> 12"
abbreviation (input) pageTypeOffset :: nat where "pageTypeOffset \<equiv> 20"
abbreviation (input) slotCountOffset :: nat where "slotCountOffset \<equiv> 21"
abbreviation (input) freeSpaceOffset :: nat where "freeSpaceOffset \<equiv> 23"

abbreviation (input) PageTypeMeta :: u8 where "PageTypeMeta \<equiv> 0"
abbreviation (input) PageTypeLeaf :: u8 where "PageTypeLeaf \<equiv> 1"
abbreviation (input) PageTypeInternal :: u8 where "PageTypeInternal \<equiv> 2"
abbreviation (input) PageTypeOverflow :: u8 where "PageTypeOverflow \<equiv> 3"
abbreviation (input) PageTypeFree :: u8 where "PageTypeFree \<equiv> 4"
abbreviation (input) MetaPageID :: u32 where "MetaPageID \<equiv> 0"

section \<open>Header accessors\<close>

definition VerifyMagic :: "page \<Rightarrow> bool" where
  "VerifyMagic p \<longleftrightarrow> Uint32 (sub p magicOffset 4) = Magic"

definition SetChecksum :: "page \<Rightarrow> page" where
  "SetChecksum p =
     (let p = blit p checksumOffset (PutUint32 0);
          s = ChecksumIEEE p
      in blit p checksumOffset (PutUint32 s))"

definition VerifyChecksum :: "page \<Rightarrow> bool \<times> page" where
  "VerifyChecksum p =
     (let stored = Uint32 (sub p checksumOffset 4);
          p = blit p checksumOffset (PutUint32 0);
          actual = ChecksumIEEE p;
          p = blit p checksumOffset (PutUint32 stored)
      in (stored = actual, p))"

definition GetPageID :: "page \<Rightarrow> u32" where
  "GetPageID p = Uint32 (sub p pageIDOffset 4)"

definition SetPageID :: "page \<Rightarrow> u32 \<Rightarrow> page" where
  "SetPageID p i = blit p pageIDOffset (PutUint32 i)"

definition GetLSN :: "page \<Rightarrow> u64" where
  "GetLSN p = Uint64 (sub p lsnOffset 8)"

definition SetLSN :: "page \<Rightarrow> u64 \<Rightarrow> page" where
  "SetLSN p lsn = blit p lsnOffset (PutUint64 lsn)"

definition GetPageType :: "page \<Rightarrow> u8" where
  "GetPageType p = p ! pageTypeOffset"

definition SetPageType :: "page \<Rightarrow> u8 \<Rightarrow> page" where
  "SetPageType p t = blit p pageTypeOffset [t]"

definition getSlotCount :: "page \<Rightarrow> u16" where
  "getSlotCount p = Uint16 (sub p slotCountOffset 2)"

definition setSlotCount :: "page \<Rightarrow> u16 \<Rightarrow> page" where
  "setSlotCount p n = blit p slotCountOffset (PutUint16 n)"

definition getFreeSpaceOffset :: "page \<Rightarrow> u16" where
  "getFreeSpaceOffset p = Uint16 (sub p freeSpaceOffset 2)"

definition setFreeSpaceOffset :: "page \<Rightarrow> u16 \<Rightarrow> page" where
  "setFreeSpaceOffset p off = blit p freeSpaceOffset (PutUint16 off)"

definition Page_Init :: "page \<Rightarrow> u8 \<Rightarrow> page" where
  "Page_Init p mode =
     (let p = blit p magicOffset (PutUint32 Magic);
          p = setFreeSpaceOffset p PageSize;
          p = setSlotCount p 0;
          p = SetLSN p 0
      in SetPageType p mode)"

definition NewPage :: "u8 \<Rightarrow> page" where
  "NewPage mode = Page_Init (replicate PageSize 0) mode"

section \<open>Data operations\<close>

definition Page_Insert :: "page \<Rightarrow> bytes \<Rightarrow> ((goerr + u16) \<times> page) option" where
  "Page_Insert p cellData =
     (if GetPageType p \<noteq> PageTypeInternal \<and> GetPageType p \<noteq> PageTypeLeaf
      then Some (Inl (ErrPageType (GetPageType p)), p)
      else
        let slotCount = getSlotCount p;
            freeOffset = getFreeSpaceOffset p;
            cellSize = (of_nat (length cellData) :: u16);
            neededSpace = cellSize + SlotSize;
            directoryEnd = HeaderSize + slotCount * SlotSize
        in if directoryEnd + neededSpace > freeOffset then Some (Inl ErrPageFull, p)
        else do {
          let newFreeOffset = freeOffset - cellSize;
          window \<leftarrow> goslice p (unat newFreeOffset) (unat freeOffset);
          let p = blit p (unat newFreeOffset) (take (length window) cellData);
          let p = setFreeSpaceOffset p newFreeOffset;
          let slotEntryOffset = HeaderSize + slotCount * SlotSize;
          _ \<leftarrow> goslice p (unat slotEntryOffset) (unat (slotEntryOffset + 2));
          let p = blit p (unat slotEntryOffset) (PutUint16 newFreeOffset);
          _ \<leftarrow> goslice p (unat (slotEntryOffset + 2)) (unat (slotEntryOffset + 4));
          let p = blit p (unat (slotEntryOffset + 2)) (PutUint16 cellSize);
          let newSlotID = slotCount;
          Some (Inr newSlotID, setSlotCount p (slotCount + 1))
        })"

definition Page_Get :: "page \<Rightarrow> u16 \<Rightarrow> (goerr + bytes) option" where
  "Page_Get p slotID =
     (if GetPageType p \<noteq> PageTypeInternal \<and> GetPageType p \<noteq> PageTypeLeaf
      then Some (Inl (ErrPageType (GetPageType p)))
      else
        let slotCount = getSlotCount p
        in if slotID \<ge> slotCount then Some (Inl ErrInvalidSlot)
        else do {
          let slotEntryOffset = HeaderSize + slotID * SlotSize;
          o1 \<leftarrow> goslice p (unat slotEntryOffset) (unat (slotEntryOffset + 2));
          o2 \<leftarrow> goslice p (unat (slotEntryOffset + 2)) (unat (slotEntryOffset + 4));
          let cellOffset = Uint16 o1;
          let cellSize = Uint16 o2;
          cell \<leftarrow> goslice p (unat cellOffset) (unat (cellOffset + cellSize));
          Some (Inr cell)
        })"

section \<open>Overflow, meta and free pages\<close>

abbreviation (input) overflowNextPageOffset :: nat where "overflowNextPageOffset \<equiv> 32"
abbreviation (input) overflowDataOffset :: nat where "overflowDataOffset \<equiv> 36"
abbreviation (input) MaxOverflowDataSize :: "'a::numeral" where "MaxOverflowDataSize \<equiv> 4060"
abbreviation (input) metaRootPageOffset :: nat where "metaRootPageOffset \<equiv> 32"
abbreviation (input) metaFirstFreePageOffset :: nat where "metaFirstFreePageOffset \<equiv> 36"
abbreviation (input) freeNextPageOffset :: nat where "freeNextPageOffset \<equiv> 32"

definition GetNextOverflowPageID :: "page \<Rightarrow> u32" where
  "GetNextOverflowPageID p = Uint32 (sub p overflowNextPageOffset 4)"

definition SetNextOverflowPageID :: "page \<Rightarrow> u32 \<Rightarrow> page" where
  "SetNextOverflowPageID p i = blit p overflowNextPageOffset (PutUint32 i)"

definition WriteOverflowData :: "page \<Rightarrow> bytes \<Rightarrow> page" where
  "WriteOverflowData p d = blit p overflowDataOffset d"

definition ReadOverflowData :: "page \<Rightarrow> u32 \<Rightarrow> bytes" where
  "ReadOverflowData p n =
     (let n = (if n > MaxOverflowDataSize then MaxOverflowDataSize else n)
      in sub p overflowDataOffset (unat n))"

definition GetRootPageID :: "page \<Rightarrow> u32" where
  "GetRootPageID p = Uint32 (sub p metaRootPageOffset 4)"

definition SetRootPageID :: "page \<Rightarrow> u32 \<Rightarrow> page" where
  "SetRootPageID p i = blit p metaRootPageOffset (PutUint32 i)"

definition GetFirstFreePageID :: "page \<Rightarrow> u32" where
  "GetFirstFreePageID p = Uint32 (sub p metaFirstFreePageOffset 4)"

definition SetFirstFreePageID :: "page \<Rightarrow> u32 \<Rightarrow> page" where
  "SetFirstFreePageID p i = blit p metaFirstFreePageOffset (PutUint32 i)"

definition GetNextFreePageID :: "page \<Rightarrow> u32" where
  "GetNextFreePageID p = Uint32 (sub p freeNextPageOffset 4)"

definition SetNextFreePageID :: "page \<Rightarrow> u32 \<Rightarrow> page" where
  "SetNextFreePageID p i = blit p freeNextPageOffset (PutUint32 i)"

lemmas page_getters = GetPageID_def GetLSN_def GetPageType_def getSlotCount_def
  getFreeSpaceOffset_def GetNextOverflowPageID_def GetRootPageID_def GetFirstFreePageID_def
  GetNextFreePageID_def VerifyMagic_def

lemmas page_setters = SetPageID_def SetLSN_def SetPageType_def setSlotCount_def
  setFreeSpaceOffset_def SetNextOverflowPageID_def WriteOverflowData_def SetRootPageID_def
  SetFirstFreePageID_def SetNextFreePageID_def

section \<open>Header lemmas\<close>

lemma length_page_setters [simp]:
  "length (SetPageID p a) = length p" "length (SetLSN p b) = length p"
  "length (SetPageType p c) = length p" "length (setSlotCount p d) = length p"
  "length (setFreeSpaceOffset p d) = length p" "length (SetNextOverflowPageID p a) = length p"
  "length (WriteOverflowData p ds) = length p" "length (SetRootPageID p a) = length p"
  "length (SetFirstFreePageID p a) = length p" "length (SetNextFreePageID p a) = length p"
  "length (Page_Init p c) = length p" "length (NewPage c) = PageSize"
  by (simp_all add: page_setters Page_Init_def NewPage_def Let_def)

lemma page_set_same [page_simps]:
  assumes "length p = PageSize"
  shows "GetPageID (SetPageID p a) = a" "GetLSN (SetLSN p b) = b"
    "GetPageType (SetPageType p c) = c" "getSlotCount (setSlotCount p d) = d"
    "getFreeSpaceOffset (setFreeSpaceOffset p d) = d"
    "GetNextOverflowPageID (SetNextOverflowPageID p a) = a"
    "GetRootPageID (SetRootPageID p a) = a" "GetFirstFreePageID (SetFirstFreePageID p a) = a"
    "GetNextFreePageID (SetNextFreePageID p a) = a"
  using assms by (simp_all add: page_getters page_setters)

lemma Page_Init_fields [page_simps]:
  assumes "length p = PageSize"
  shows "GetPageType (Page_Init p m) = m" "GetLSN (Page_Init p m) = 0"
    "getSlotCount (Page_Init p m) = 0" "getFreeSpaceOffset (Page_Init p m) = PageSize"
    "GetPageID (Page_Init p m) = GetPageID p" "VerifyMagic (Page_Init p m)"
    "GetNextOverflowPageID (Page_Init p m) = GetNextOverflowPageID p"
    "GetFirstFreePageID (Page_Init p m) = GetFirstFreePageID p"
    "GetNextFreePageID (Page_Init p m) = GetNextFreePageID p"
  using assms
  by (simp_all add: Page_Init_def page_getters page_setters Let_def sub_blit_other nth_blit_other)

section \<open>A page as a list of cells\<close>

definition slot_off :: "page \<Rightarrow> nat \<Rightarrow> nat" where
  "slot_off p i = unat (Uint16 (sub p (HeaderSize + SlotSize * i) 2))"

definition slot_len :: "page \<Rightarrow> nat \<Rightarrow> nat" where
  "slot_len p i = unat (Uint16 (sub p (HeaderSize + SlotSize * i + 2) 2))"

definition page_cells :: "page \<Rightarrow> bytes list" where
  "page_cells p = map (\<lambda>i. sub p (slot_off p i) (slot_len p i)) [0..<unat (getSlotCount p)]"

definition space_used :: "bytes list \<Rightarrow> nat" where
  "space_used cs = HeaderSize + sum_list (map (\<lambda>c. SlotSize + length c) cs)"

definition is_slotted :: "page \<Rightarrow> bool" where
  "is_slotted p \<longleftrightarrow> GetPageType p = PageTypeInternal \<or> GetPageType p = PageTypeLeaf"

definition wf_slotted :: "page \<Rightarrow> bool" where
  "wf_slotted p \<longleftrightarrow>
     length p = PageSize \<and> is_slotted p \<and>
     unat (getFreeSpaceOffset p) \<le> PageSize \<and>
     HeaderSize + SlotSize * unat (getSlotCount p) \<le> unat (getFreeSpaceOffset p) \<and>
     (\<forall>i < unat (getSlotCount p). unat (getFreeSpaceOffset p) \<le> slot_off p i \<and>
        slot_off p i + slot_len p i \<le> PageSize) \<and>
     unat (getFreeSpaceOffset p) + sum_list (map length (page_cells p)) = PageSize"

lemma length_page_cells [simp]: "length (page_cells p) = unat (getSlotCount p)"
  by (simp add: page_cells_def)

lemma nth_page_cells: "i < unat (getSlotCount p) \<Longrightarrow> page_cells p ! i = sub p (slot_off p i) (slot_len p i)"
  by (simp add: page_cells_def)

lemma space_used_simps [simp]:
  "space_used [] = HeaderSize"
  "space_used (c # cs) = SlotSize + length c + space_used cs"
  "space_used (cs @ ds) + HeaderSize = space_used cs + space_used ds"
  by (simp_all add: space_used_def)

lemma space_used_snoc: "space_used (cs @ [c]) = space_used cs + SlotSize + length c"
  by (simp add: space_used_def)

lemma space_used_eq: "space_used cs = HeaderSize + SlotSize * length cs + sum_list (map length cs)"
  by (induction cs) (auto simp: space_used_def)

lemma space_used_mset: "mset cs = mset ds \<Longrightarrow> space_used cs = space_used ds"
  by (simp add: space_used_def flip: sum_mset_sum_list)

lemma wf_slotted_used:
  "wf_slotted p \<Longrightarrow> space_used (page_cells p) =
     HeaderSize + SlotSize * unat (getSlotCount p) + (PageSize - unat (getFreeSpaceOffset p))"
  by (auto simp: space_used_eq wf_slotted_def)

lemma wf_slotted_fits: "wf_slotted p \<Longrightarrow> space_used (page_cells p) \<le> PageSize"
  by (auto simp: wf_slotted_used) (auto simp: wf_slotted_def)

lemma wf_Page_Init:
  assumes "length p = PageSize" "m = PageTypeInternal \<or> m = PageTypeLeaf"
  shows "wf_slotted (Page_Init p m)" "page_cells (Page_Init p m) = []"
  using assms
  by (auto simp: wf_slotted_def is_slotted_def page_cells_def Page_Init_fields)

lemma Page_Get_cell:
  assumes "wf_slotted p" "i < unat (getSlotCount p)"
  shows "Page_Get p (of_nat i) = Some (Inr (page_cells p ! i))"
proof -
  let ?n = "unat (getSlotCount p)"
  have len: "length p = 4096" and ty: "is_slotted p"
    and dir: "32 + 4 * ?n \<le> 4096"
    and b: "slot_off p i + slot_len p i \<le> 4096"
    using assms by (auto simp: wf_slotted_def)
  have i: "i < 1016" using assms(2) dir by simp
  define w where "w = (HeaderSize + of_nat i * SlotSize :: u16)"
  have ui: "unat (of_nat i :: u16) = i" using i by simp
  have e0: "unat w = 32 + 4 * i"
    using i by (simp add: w_def unat_plus_16 unat_times_4_16)
  have e2: "unat (w + 2) = 32 + 4 * i + 2" and e4: "unat (w + 4) = 32 + 4 * i + 4"
    using e0 i by (simp_all add: unat_plus_16)
  have lt: "\<not> getSlotCount p \<le> of_nat i"
    using assms(2) ui by (simp add: word_le_nat_alt)
  have bound: "32 + 4 * i + 4 \<le> 4096" using i by simp
  have o1: "goslice p (32 + 4 * i) (32 + 4 * i + 2) = Some (sub p (32 + 4 * i) 2)"
    and o2: "goslice p (32 + 4 * i + 2) (32 + 4 * i + 4) = Some (sub p (32 + 4 * i + 2) 2)"
    using bound len by simp_all
  let ?off = "Uint16 (sub p (32 + 4 * i) 2)" and ?sz = "Uint16 (sub p (32 + 4 * i + 2) 2)"
  have s: "unat ?off = slot_off p i" "unat ?sz = slot_len p i"
    by (simp_all add: slot_off_def slot_len_def)
  have sum: "unat (?off + ?sz) = slot_off p i + slot_len p i"
    using b s by (subst unat_plus_16) simp_all
  have cell: "goslice p (unat ?off) (unat (?off + ?sz)) = Some (page_cells p ! i)"
    using b len sum s assms(2) by (simp add: nth_page_cells)
  show ?thesis
    using ty lt cell o1 o2
    by (simp add: Page_Get_def Let_def is_slotted_def e0 e2 e4 flip: w_def)
qed

text \<open>The page that a successful insert leaves, with the offsets read as numbers.\<close>

definition page_with_cell :: "page \<Rightarrow> bytes \<Rightarrow> page" where
  "page_with_cell p c =
     (let n = unat (getSlotCount p); off = unat (getFreeSpaceOffset p) - length c;
          p = blit p off c;
          p = setFreeSpaceOffset p (of_nat off);
          p = blit p (HeaderSize + SlotSize * n) (PutUint16 (of_nat off));
          p = blit p (HeaderSize + SlotSize * n + 2) (PutUint16 (of_nat (length c)))
      in setSlotCount p (of_nat (Suc n)))"

definition page_header :: "page \<Rightarrow> u8 \<times> u32 \<times> u64" where
  "page_header p = (GetPageType p, GetPageID p, GetLSN p)"

lemma length_page_with_cell [simp]: "length (page_with_cell p c) = length p"
  by (simp add: page_with_cell_def Let_def)

lemma page_with_cell_fields:
  assumes "wf_slotted p" "space_used (page_cells p @ [c]) \<le> PageSize"
  shows "getSlotCount (page_with_cell p c) = of_nat (Suc (unat (getSlotCount p)))"
    and "getFreeSpaceOffset (page_with_cell p c) = of_nat (unat (getFreeSpaceOffset p) - length c)"
    and "page_header (page_with_cell p c) = page_header p"
    and "i < unat (getSlotCount p) \<Longrightarrow> slot_off (page_with_cell p c) i = slot_off p i"
    and "i < unat (getSlotCount p) \<Longrightarrow> slot_len (page_with_cell p c) i = slot_len p i"
    and "i < unat (getSlotCount p) \<Longrightarrow>
      sub (page_with_cell p c) (slot_off p i) (slot_len p i) = sub p (slot_off p i) (slot_len p i)"
    and "slot_off (page_with_cell p c) (unat (getSlotCount p)) = unat (getFreeSpaceOffset p) - length c"
    and "slot_len (page_with_cell p c) (unat (getSlotCount p)) = length c"
    and "sub (page_with_cell p c) (unat (getFreeSpaceOffset p) - length c) (length c) = c"
proof -
  let ?n = "unat (getSlotCount p)" and ?f = "unat (getFreeSpaceOffset p)"
  have len: "length p = 4096" and f: "?f \<le> 4096" and dir: "32 + 4 * ?n + 4 + length c \<le> ?f"
    and offs: "\<And>i. i < ?n \<Longrightarrow> ?f \<le> slot_off p i \<and> slot_off p i + slot_len p i \<le> 4096"
    using assms by (auto simp: wf_slotted_def wf_slotted_used space_used_snoc)
  note defs = page_with_cell_def Let_def page_setters page_getters page_header_def
    slot_off_def slot_len_def
  show "getSlotCount (page_with_cell p c) = of_nat (Suc ?n)"
    using len by (simp add: defs)
  show "getFreeSpaceOffset (page_with_cell p c) = of_nat (?f - length c)"
    using len dir f by (simp add: defs sub_blit_other)
  show "page_header (page_with_cell p c) = page_header p"
    using len dir f by (simp add: defs sub_blit_other nth_blit_other)
  show "slot_off (page_with_cell p c) i = slot_off p i" if "i < ?n"
    using len dir f that by (simp add: defs sub_blit_other)
  show "slot_len (page_with_cell p c) i = slot_len p i" if "i < ?n"
    using len dir f that by (simp add: defs sub_blit_other)
  show "sub (page_with_cell p c) (slot_off p i) (slot_len p i) = sub p (slot_off p i) (slot_len p i)"
    if "i < ?n"
    using len dir f offs [OF that] by (simp add: page_with_cell_def Let_def page_setters sub_blit_other)
  show "slot_off (page_with_cell p c) ?n = ?f - length c"
    using len dir f by (simp add: defs sub_blit_other del: of_nat_diff)
  show "slot_len (page_with_cell p c) ?n = length c"
    using len dir f by (simp add: defs sub_blit_other)
  show "sub (page_with_cell p c) (?f - length c) (length c) = c"
    using len dir f by (simp add: page_with_cell_def Let_def page_setters sub_blit_other)
qed

lemma page_with_cell_wf:
  assumes "wf_slotted p" "space_used (page_cells p @ [c]) \<le> PageSize"
  shows "page_cells (page_with_cell p c) = page_cells p @ [c]" "wf_slotted (page_with_cell p c)"
proof -
  let ?n = "unat (getSlotCount p)" and ?f = "unat (getFreeSpaceOffset p)"
  have wf: "length p = 4096" "?f \<le> 4096" "32 + 4 * ?n + 4 + length c \<le> ?f" "is_slotted p"
    "?f + sum_list (map length (page_cells p)) = 4096"
    and offs: "\<And>i. i < ?n \<Longrightarrow> ?f \<le> slot_off p i \<and> slot_off p i + slot_len p i \<le> 4096"
    using assms by (auto simp: wf_slotted_def wf_slotted_used space_used_snoc)
  note fs = page_with_cell_fields [OF assms]
  have n': "unat (getSlotCount (page_with_cell p c)) = Suc ?n"
    using wf fs(1) by (simp del: of_nat_Suc)
  have f': "unat (getFreeSpaceOffset (page_with_cell p c)) = ?f - length c"
    using wf fs(2) by (simp del: of_nat_diff)
  show cells: "page_cells (page_with_cell p c) = page_cells p @ [c]"
    unfolding page_cells_def n' by (simp add: fs(4-9))
  have "is_slotted (page_with_cell p c)"
    using wf(4) fs(3) by (simp add: is_slotted_def page_header_def)
  moreover have "?f - length c \<le> slot_off (page_with_cell p c) i \<and>
      slot_off (page_with_cell p c) i + slot_len (page_with_cell p c) i \<le> 4096" if "i < Suc ?n" for i
    using that offs [of i] wf fs(4,5) [of i] fs(7,8) by (cases "i = ?n") auto
  ultimately show "wf_slotted (page_with_cell p c)"
    using wf by (auto simp: wf_slotted_def n' f' cells)
qed

lemma Page_Insert_fits:
  assumes "wf_slotted p" "space_used (page_cells p @ [c]) \<le> PageSize"
  shows "Page_Insert p c = Some (Inr (getSlotCount p), page_with_cell p c)"
proof -
  let ?n = "unat (getSlotCount p)" and ?f = "unat (getFreeSpaceOffset p)"
  have wf: "length p = 4096" "?f \<le> 4096" "32 + 4 * ?n + 4 + length c \<le> ?f" "is_slotted p"
    using assms by (auto simp: wf_slotted_def wf_slotted_used space_used_snoc)
  define w where "w = (HeaderSize + getSlotCount p * SlotSize :: u16)"
  define sz where "sz = (of_nat (length c) :: u16)"
  have w: "unat w = 32 + 4 * ?n"
    using wf by (simp add: w_def unat_plus_16 unat_times_4_16)
  have w2: "unat (w + 2) = 32 + 4 * ?n + 2" and w4: "unat (w + 4) = 32 + 4 * ?n + 4"
    using w wf by (simp_all add: unat_plus_16)
  have sz: "unat sz = length c" using wf by (simp add: sz_def)
  have sz4: "unat (sz + 4) = length c + 4"
    using sz wf by (simp add: unat_plus_16)
  have "unat (w + (sz + 4)) = 32 + 4 * ?n + (length c + 4)"
    using w sz4 wf by (simp add: unat_plus_16)
  then have guard: "\<not> w + (sz + 4) > getFreeSpaceOffset p"
    using wf by (simp add: word_less_nat_alt)
  have off: "unat (getFreeSpaceOffset p - sz) = ?f - length c"
    using sz wf by (simp add: unat_minus_16)
  have "Page_Insert p c = Some (Inr (getSlotCount p),
      setSlotCount (blit (blit (setFreeSpaceOffset (blit p (?f - length c) c)
        (getFreeSpaceOffset p - sz)) (32 + 4 * ?n) (PutUint16 (getFreeSpaceOffset p - sz)))
        (32 + 4 * ?n + 2) (PutUint16 sz)) (getSlotCount p + 1))"
    using wf guard unfolding Page_Insert_def Let_def w_def [symmetric] sz_def [symmetric]
    by (simp add: is_slotted_def w w2 w4 off)
  moreover have "getFreeSpaceOffset p - sz = of_nat (?f - length c)"
    and "getSlotCount p + 1 = of_nat (Suc ?n)"
    using wf by (simp_all add: sz_def)
  ultimately show ?thesis by (simp only: page_with_cell_def Let_def sz_def)
qed

text \<open>The sizes for which the 16-bit guard of \<open>Insert\<close> does not wrap.\<close>

abbreviation (input) max_cell :: nat where "max_cell \<equiv> 61435"

lemma Page_Insert_full:
  assumes "wf_slotted p" "space_used (page_cells p @ [c]) > PageSize" "length c \<le> max_cell"
  shows "Page_Insert p c = Some (Inl ErrPageFull, p)"
proof -
  let ?n = "unat (getSlotCount p)" and ?f = "unat (getFreeSpaceOffset p)"
  have wf: "?f \<le> 4096" "32 + 4 * ?n \<le> ?f" "32 + 4 * ?n + 4 + length c > ?f" "is_slotted p"
    using assms by (auto simp: wf_slotted_def wf_slotted_used space_used_snoc)
  define w where "w = (HeaderSize + getSlotCount p * SlotSize :: u16)"
  define sz where "sz = (of_nat (length c) :: u16)"
  have w: "unat w = 32 + 4 * ?n"
    using wf by (simp add: w_def unat_plus_16 unat_times_4_16)
  have "unat (sz + 4) = length c + 4"
    using assms(3) by (simp add: sz_def unat_plus_16)
  then have "unat (w + (sz + 4)) = 32 + 4 * ?n + (length c + 4)"
    using w wf assms(3) by (simp add: unat_plus_16)
  then have "w + (sz + 4) > getFreeSpaceOffset p"
    using wf by (simp add: word_less_nat_alt)
  then show ?thesis
    using wf(4) unfolding Page_Insert_def Let_def w_def [symmetric] sz_def [symmetric]
    by (simp add: is_slotted_def)
qed

section \<open>The contract of a cell page\<close>

text \<open>What the tree relies on when it rebuilds a page: a bounded container of cells that
  appends a cell when it fits and is unchanged, apart from the error it returns, when it does not.
  \<open>hdr\<close> is the part of the page that inserts leave alone.\<close>

fun kept :: "nat \<Rightarrow> bytes list \<Rightarrow> bytes list" where
  "kept free [] = []"
| "kept free (c # cs) =
     (if SlotSize + length c \<le> free then c # kept (free - (SlotSize + length c)) cs else kept free cs)"

locale cell_page =
  fixes ins :: "'p \<Rightarrow> bytes \<Rightarrow> ((goerr + u16) \<times> 'p) option"
    and cells :: "'p \<Rightarrow> bytes list"
    and inv :: "'p \<Rightarrow> bool"
    and hdr :: "'p \<Rightarrow> 'h"
    and cap :: nat
    and lim :: nat
  assumes inv_cap: "inv p \<Longrightarrow> space_used (cells p) \<le> cap"
    and ins_fits: "inv p \<Longrightarrow> space_used (cells p @ [c]) \<le> cap \<Longrightarrow>
      \<exists>i p'. ins p c = Some (Inr i, p') \<and> inv p' \<and> cells p' = cells p @ [c] \<and> hdr p' = hdr p"
    and ins_full: "inv p \<Longrightarrow> cap < space_used (cells p @ [c]) \<Longrightarrow> length c \<le> lim \<Longrightarrow>
      ins p c = Some (Inl ErrPageFull, p)"
begin

lemma each_ins_kept:
  assumes "inv p" "\<And>c. c \<in> set cs \<Longrightarrow> length c \<le> lim"
  shows "\<exists>p'. each ins p cs = Some p' \<and> inv p' \<and> hdr p' = hdr p \<and>
    cells p' = cells p @ kept (cap - space_used (cells p)) cs"
  using assms
proof (induction cs arbitrary: p)
  case Nil
  then show ?case by simp
next
  case (Cons c cs)
  show ?case
  proof (cases "space_used (cells p @ [c]) \<le> cap")
    case True
    then obtain i p' where p': "ins p c = Some (Inr i, p')" "inv p'" "cells p' = cells p @ [c]"
      "hdr p' = hdr p"
      using ins_fits Cons.prems(1) by blast
    then show ?thesis
      using Cons.IH [OF p'(2)] Cons.prems(2) True inv_cap [OF Cons.prems(1)]
      by (auto simp: space_used_snoc add.assoc)
  next
    case False
    then have "ins p c = Some (Inl ErrPageFull, p)"
      using ins_full Cons.prems by simp
    then show ?thesis
      using Cons.IH [OF Cons.prems(1)] Cons.prems(2) False inv_cap [OF Cons.prems(1)]
      by (auto simp: space_used_snoc)
  qed
qed

lemma each_ins_all:
  assumes "inv p" "space_used (cells p @ cs) \<le> cap"
  shows "\<exists>p'. each ins p cs = Some p' \<and> inv p' \<and> hdr p' = hdr p \<and> cells p' = cells p @ cs"
  using assms
proof (induction cs arbitrary: p)
  case Nil
  then show ?case by simp
next
  case (Cons c cs)
  have "space_used (cells p @ [c]) \<le> cap"
    using Cons.prems(2) by (simp add: space_used_eq)
  then obtain i p' where p': "ins p c = Some (Inr i, p')" "inv p'" "cells p' = cells p @ [c]"
    "hdr p' = hdr p"
    using ins_fits Cons.prems(1) by blast
  then show ?case using Cons.IH [OF p'(2)] Cons.prems(2) by simp
qed

end

interpretation slotted: cell_page Page_Insert page_cells wf_slotted page_header PageSize max_cell
proof unfold_locales
  fix p c
  assume "wf_slotted p" "space_used (page_cells p @ [c]) \<le> PageSize"
  then show "\<exists>i p'. Page_Insert p c = Some (Inr i, p') \<and> wf_slotted p' \<and>
      page_cells p' = page_cells p @ [c] \<and> page_header p' = page_header p"
    by (simp add: Page_Insert_fits page_with_cell_wf page_with_cell_fields(3))
qed (simp_all add: wf_slotted_fits Page_Insert_full)


section \<open>Properties of the page\<close>

text \<open>C33: Slotted-page refinement of Insert. On a page in its invariant a cell of at most 61435 bytes is appended to the page's
  cell list, in the slot the code returns, exactly when directory, existing cells and new cell
  fit in 4096 bytes; otherwise the result is the "page full" error and the page is unchanged.
  The invariant, the page type, the page id and the LSN are kept.\<close>

theorem Page_Insert_refines:
  assumes "wf_slotted p" "length c \<le> max_cell"
  shows "if space_used (page_cells p @ [c]) \<le> PageSize
    then \<exists>p'. Page_Insert p c = Some (Inr (getSlotCount p), p') \<and> wf_slotted p' \<and>
      page_cells p' = page_cells p @ [c] \<and> page_header p' = page_header p
    else Page_Insert p c = Some (Inl ErrPageFull, p)"
  using assms
  by (simp add: Page_Insert_fits page_with_cell_wf page_with_cell_fields(3) Page_Insert_full)

theorem Page_Insert_refines_witness:
  "wf_slotted (NewPage PageTypeLeaf) \<and>
   (\<exists>p'. Page_Insert (NewPage PageTypeLeaf) [1, 2] = Some (Inr 0, p') \<and> page_cells p' = [[1, 2]])"
proof -
  have wf: "wf_slotted (NewPage PageTypeLeaf)" "page_cells (NewPage PageTypeLeaf) = []"
    "getSlotCount (NewPage PageTypeLeaf) = 0"
    by (simp_all add: NewPage_def wf_Page_Init Page_Init_fields)
  show ?thesis
    using Page_Insert_refines [OF wf(1), of "[1, 2]"] wf by auto
qed

text \<open>Get returns the cell that Insert stored, for every valid slot, and the "invalid slot
  id" error for every other slot; it never panics on a page in its invariant.\<close>

lemma Page_Get_refines:
  assumes "wf_slotted p"
  shows "Page_Get p i = Some (if unat i < length (page_cells p) then Inr (page_cells p ! unat i)
    else Inl ErrInvalidSlot)"
proof (cases "unat i < length (page_cells p)")
  case True
  then show ?thesis using Page_Get_cell [OF assms, of "unat i"] by simp
next
  case False
  then have "getSlotCount p \<le> i" by (simp add: word_le_nat_alt)
  then show ?thesis
    using assms False by (simp add: Page_Get_def Let_def wf_slotted_def is_slotted_def)
qed

text \<open>C34: The checksum of a page. Verification accepts a page right after SetChecksum, always
  leaves the page as it was, and rejects the page after any change of a single byte outside the
  checksum field.\<close>

theorem page_checksum_detects:
  assumes "length p = PageSize" "i < PageSize" "i < checksumOffset \<or> checksumOffset + 4 \<le> i"
    and "v \<noteq> SetChecksum p ! i"
  shows "VerifyChecksum (SetChecksum p) = (True, SetChecksum p) \<and>
    VerifyChecksum ((SetChecksum p)[i := v]) = (False, (SetChecksum p)[i := v])"
proof -
  let ?z = "blit p checksumOffset (PutUint32 0)"
  let ?s = "SetChecksum p"
  have s: "?s = blit ?z checksumOffset (PutUint32 (ChecksumIEEE ?z))"
    by (simp add: SetChecksum_def Let_def)
  have stored: "sub ?s checksumOffset 4 = PutUint32 (ChecksumIEEE ?z)"
    using assms(1) by (simp add: s)
  have zero: "blit ?s checksumOffset (PutUint32 0) = ?z"
    by (simp add: s blit_idem)
  have ok: "VerifyChecksum ?s = (True, ?s)"
    using stored zero by (simp add: VerifyChecksum_def Let_def s blit_idem)
  have upd: "q[i := v] = blit q i [v]" if "length q = 4096" for q :: bytes
    using that assms(2) by (simp add: blit_def upd_conv_take_nth_drop)
  have len: "length ?s = 4096" using assms(1) by (simp add: s)
  have sub: "sub (?s[i := v]) checksumOffset 4 = PutUint32 (ChecksumIEEE ?z)"
    using assms(3) stored by (auto simp: upd [OF len] sub_blit_other)
  have "blit (blit ?s i [v]) checksumOffset (PutUint32 0) = blit (blit ?s 4 (PutUint32 0)) i [v]"
    using assms(3) by (intro blit_commute) auto
  then have "blit (?s[i := v]) checksumOffset (PutUint32 0) = blit ?z i [v]"
    by (simp add: upd [OF len] zero)
  then have z: "blit (?s[i := v]) checksumOffset (PutUint32 0) = ?z[i := v]"
    using upd [of ?z] assms(1) by simp
  have "?z ! i = ?s ! i"
    using assms(1,2,3) by (auto simp: s nth_blit_other)
  then have ne: "ChecksumIEEE (?z[i := v]) \<noteq> ChecksumIEEE ?z"
    using assms by (intro ChecksumIEEE_update) auto
  have undo: "blit (?z[i := v]) checksumOffset (PutUint32 (ChecksumIEEE ?z)) = ?s[i := v]"
    using z [symmetric] sub len
      blit_self [of checksumOffset 4 "?s[i := v]"] by (simp add: blit_idem)
  have "VerifyChecksum (?s[i := v]) = (False, ?s[i := v])"
    using ne sub z undo by (simp add: VerifyChecksum_def Let_def)
  then show ?thesis using ok by simp
qed

theorem page_checksum_detects_witness:
  "VerifyChecksum ((SetChecksum (NewPage PageTypeMeta))[100 := 1]) =
     (False, (SetChecksum (NewPage PageTypeMeta))[100 := 1])"
proof -
  have "SetChecksum (NewPage PageTypeMeta) ! 100 = 0"
    by (simp add: SetChecksum_def NewPage_def Page_Init_def page_setters Let_def nth_blit_other)
  then show ?thesis
    using page_checksum_detects [of "NewPage PageTypeMeta" 100 1] by simp
qed

text \<open>C40: The 16-bit size arithmetic of Insert wraps on very large cells. A cell of 65532 to 65535
  bytes passes the space check of any page with room for one empty cell, and the copy then
  slices the page out of range: the call panics instead of returning "page full".\<close>

theorem Page_Insert_huge_cell_panics:
  assumes "wf_slotted p" "65532 \<le> length c" "length c < 65536"
    and "space_used (page_cells p) + SlotSize \<le> PageSize"
  shows "Page_Insert p c = None"
proof -
  let ?n = "unat (getSlotCount p)" and ?f = "unat (getFreeSpaceOffset p)"
  have wf: "?f \<le> 4096" "32 + 4 * ?n + 4 \<le> ?f" "is_slotted p" "length p = 4096"
    using assms by (auto simp: wf_slotted_def wf_slotted_used)
  define w where "w = (HeaderSize + getSlotCount p * SlotSize :: u16)"
  define sz where "sz = (of_nat (length c) :: u16)"
  have w: "unat w = 32 + 4 * ?n"
    using wf by (simp add: w_def unat_plus_16 unat_times_4_16)
  have sz: "unat sz = length c" using assms(3) by (simp add: sz_def)
  have "unat (sz + 4) = (length c + 4) mod 65536"
    by (simp add: unat_word_ariths sz)
  also have "\<dots> = length c + 4 - 65536"
    using assms(2,3) by (simp add: mod_if)
  finally have "unat (w + (sz + 4)) = 32 + 4 * ?n + (length c + 4 - 65536)"
    using w wf assms(3) by (simp add: unat_plus_16)
  then have guard: "\<not> w + (sz + 4) > getFreeSpaceOffset p"
    using wf assms(3) by (simp add: word_less_nat_alt)
  have "unat (getFreeSpaceOffset p - sz) = ?f + 65536 - length c"
    using wf assms(2,3) sz by (simp add: unat_sub_if')
  then have "goslice p (unat (getFreeSpaceOffset p - sz)) ?f = None"
    using assms(3) by (auto simp: goslice_None)
  then show ?thesis
    using wf(3) guard unfolding Page_Insert_def Let_def w_def [symmetric] sz_def [symmetric]
    by (simp add: is_slotted_def)
qed

theorem Page_Insert_huge_cell_panics_witness:
  "Page_Insert (NewPage PageTypeLeaf) (replicate 65532 0) = None"
  by (rule Page_Insert_huge_cell_panics)
    (simp_all add: NewPage_def wf_Page_Init)

end
