(* ===== verification/Pager.thy ===== *)
theory Pager
  imports Page
begin

text \<open>
  The operating-system files the engine uses and the pager of \<^verbatim>\<open>internal/storage/pager.go\<close>.
  An open file is its byte contents; reading past the end is the EOF error, writing past the end
  fills the gap with zeros, and every operation on a closed file is the ErrClosed error. Device
  failures (a full disk, an I/O error) are not modelled.

  \<open>disk_page\<close> reads a file as an array of pages. The locale \<open>block_device\<close> is what the buffer
  manager relies on, and it is interpreted on \<open>WritePage\<close>.
\<close>

section \<open>Files\<close>

record osfile =
  fbytes :: bytes
  fopen :: bool

definition OpenFile :: "bytes option \<Rightarrow> osfile" where
  "OpenFile existing = \<lparr>fbytes = (case existing of None \<Rightarrow> [] | Some bs \<Rightarrow> bs), fopen = True\<rparr>"

definition CloseFile :: "osfile \<Rightarrow> (goerr + unit) \<times> osfile" where
  "CloseFile f = (if fopen f then (Inr (), f\<lparr>fopen := False\<rparr>) else (Inl ErrClosed, f))"

definition FileSize :: "osfile \<Rightarrow> goerr + nat" where
  "FileSize f = (if fopen f then Inr (length (fbytes f)) else Inl ErrClosed)"

definition ReadAt :: "osfile \<Rightarrow> nat \<Rightarrow> nat \<Rightarrow> goerr + bytes" where
  "ReadAt f n off =
     (if \<not> fopen f then Inl ErrClosed
      else if off + n \<le> length (fbytes f) then Inr (sub (fbytes f) off n)
      else Inl ErrEOF)"

definition WriteAt :: "osfile \<Rightarrow> bytes \<Rightarrow> nat \<Rightarrow> (goerr + unit) \<times> osfile" where
  "WriteAt f data off =
     (if \<not> fopen f then (Inl ErrClosed, f)
      else
        let old = fbytes f @ replicate (off + length data - length (fbytes f)) 0
        in (Inr (), f\<lparr>fbytes := blit old off data\<rparr>))"

definition AppendFile :: "osfile \<Rightarrow> bytes \<Rightarrow> (goerr + unit) \<times> osfile" where
  "AppendFile f data =
     (if fopen f then (Inr (), f\<lparr>fbytes := fbytes f @ data\<rparr>) else (Inl ErrClosed, f))"

section \<open>The pager\<close>

text \<open>The pager is the file it holds, so its operations are functions on \<open>osfile\<close>.\<close>

definition NewPager :: "bytes option \<Rightarrow> osfile" where
  "NewPager existing = OpenFile existing"

definition Pager_Close :: "osfile \<Rightarrow> (goerr + unit) \<times> osfile" where
  "Pager_Close x = CloseFile x"

definition WritePage :: "osfile \<Rightarrow> u32 \<Rightarrow> page \<Rightarrow> (goerr + unit) \<times> osfile" where
  "WritePage x pageID p =
     (if length p \<noteq> PageSize then (Inl ErrPageDataSize, x)
      else let offset = unat pageID * PageSize in WriteAt x p offset)"

definition ReadPage :: "osfile \<Rightarrow> u32 \<Rightarrow> page \<Rightarrow> goerr + page" where
  "ReadPage x pageID p =
     (if length p \<noteq> PageSize then Inl ErrPageDataSize
      else let offset = unat pageID * PageSize in ReadAt x PageSize offset)"

definition AllocatePage :: "osfile \<Rightarrow> u8 \<Rightarrow> (goerr + u32) \<times> osfile" where
  "AllocatePage x mode =
     (case FileSize x of
        Inl e \<Rightarrow> (Inl e, x)
      | Inr sz \<Rightarrow>
          let newPageID = (of_nat (sz div PageSize) :: u32);
              p = SetPageID (NewPage mode) newPageID
          in case WritePage x newPageID p of
               (Inl e, x) \<Rightarrow> (Inl e, x)
             | (Inr _, x) \<Rightarrow> (Inr newPageID, x))"

section \<open>The file as an array of pages\<close>

definition disk_page :: "osfile \<Rightarrow> u32 \<Rightarrow> page option" where
  "disk_page f i =
     (if unat i * PageSize + PageSize \<le> length (fbytes f)
      then Some (sub (fbytes f) (unat i * PageSize) PageSize) else None)"

definition page_count :: "osfile \<Rightarrow> nat" where
  "page_count f = length (fbytes f) div PageSize"

text \<open>A file the pager may append to: open, a whole number of pages, page ids not exhausted.\<close>

definition wf_disk :: "osfile \<Rightarrow> bool" where
  "wf_disk f \<longleftrightarrow> fopen f \<and> PageSize dvd length (fbytes f) \<and> page_count f < 2 ^ 32"

lemma disk_page_length: "disk_page f i = Some p \<Longrightarrow> length p = PageSize"
  by (auto simp: disk_page_def split: if_splits)

lemma disk_page_iff_count: "disk_page f i \<noteq> None \<longleftrightarrow> unat i < page_count f"
  by (auto simp: disk_page_def page_count_def less_eq_div_iff_mult_less_eq Suc_le_eq [symmetric]
      add.commute)

lemma ReadPage_disk:
  "fopen f \<Longrightarrow> length q = PageSize \<Longrightarrow>
   ReadPage f i q = (case disk_page f i of Some p \<Rightarrow> Inr p | None \<Rightarrow> Inl ErrEOF)"
  by (simp add: ReadPage_def ReadAt_def disk_page_def Let_def)

lemma ReadPage_Inr_iff:
  "fopen f \<Longrightarrow> length q = PageSize \<Longrightarrow> ReadPage f i q = Inr p \<longleftrightarrow> disk_page f i = Some p"
  by (auto simp: ReadPage_disk split: option.splits)

lemma WritePage_ok:
  assumes "fopen f" "length p = PageSize"
  shows "fst (WritePage f i p) = Inr ()" "fopen (snd (WritePage f i p))"
    "length (fbytes (snd (WritePage f i p))) = max (length (fbytes f)) (unat i * PageSize + PageSize)"
  using assms by (simp_all add: WritePage_def WriteAt_def Let_def)

lemma pages_apart: "i \<noteq> j \<Longrightarrow> i * (n::nat) + n \<le> j * n \<or> j * n + n \<le> i * n"
proof -
  assume "i \<noteq> j"
  then consider "Suc i \<le> j" | "Suc j \<le> i" by linarith
  then show ?thesis
    by cases (metis add.commute mult_Suc mult_le_mono1)+
qed

lemma disk_page_WritePage_same:
  assumes "fopen f" "length p = PageSize"
  shows "disk_page (snd (WritePage f i p)) i = Some p"
  using assms by (simp add: disk_page_def WritePage_def WriteAt_def Let_def)

lemma disk_page_WritePage_other:
  assumes "fopen f" "length p = PageSize" "i \<noteq> j" "disk_page f j = Some q"
  shows "disk_page (snd (WritePage f i p)) j = Some q"
proof -
  have "unat i \<noteq> unat j" using assms(3) word_unat_eq_iff by blast
  then have "unat j * 4096 + 4096 \<le> unat i * 4096 \<or> unat i * 4096 + 4096 \<le> unat j * 4096"
    using pages_apart [of "unat i" "unat j" 4096] by auto
  then show ?thesis
    using assms by (auto simp: disk_page_def WritePage_def WriteAt_def Let_def sub_blit_other
        split: if_splits)
qed

section \<open>The block-device contract\<close>

locale block_device =
  fixes get :: "'d \<Rightarrow> u32 \<Rightarrow> page option"
    and put :: "'d \<Rightarrow> u32 \<Rightarrow> page \<Rightarrow> 'd"
    and ok :: "'d \<Rightarrow> bool"
  assumes get_put_same: "ok d \<Longrightarrow> length p = PageSize \<Longrightarrow> get (put d i p) i = Some p"
    and get_put_other: "ok d \<Longrightarrow> length p = PageSize \<Longrightarrow> i \<noteq> j \<Longrightarrow> get d j = Some q \<Longrightarrow>
      get (put d i p) j = Some q"
    and ok_put: "ok d \<Longrightarrow> length p = PageSize \<Longrightarrow> ok (put d i p)"
begin

text \<open>Writing back a list of pages with distinct ids, in any order: each reads back, and every
  page that existed and was not written is unchanged.\<close>

lemma ok_put_all:
  assumes "ok d" "\<forall>x \<in> set ps. length (snd x) = PageSize"
  shows "ok (fold (\<lambda>(i, p) d. put d i p) ps d)"
  using assms by (induction ps arbitrary: d) (auto simp: ok_put)

lemma get_put_all_other:
  assumes "ok d" "\<forall>x \<in> set ps. length (snd x) = PageSize"
    and "i \<notin> fst ` set ps" "get d i = Some q"
  shows "get (fold (\<lambda>(i, p) d. put d i p) ps d) i = Some q"
  using assms
proof (induction ps arbitrary: d)
  case Nil
  then show ?case by simp
next
  case (Cons x ps)
  obtain j r where x: "x = (j, r)" by (cases x)
  then have "length r = PageSize" "j \<noteq> i" using Cons.prems by auto
  then have "ok (put d j r)" "get (put d j r) i = Some q"
    using Cons.prems by (auto intro: ok_put get_put_other)
  then show ?case using Cons.IH Cons.prems(2,3) x by simp
qed

lemma get_put_all:
  assumes "ok d" "\<forall>x \<in> set ps. length (snd x) = PageSize"
    and "distinct (map fst ps)" "(i, p) \<in> set ps"
  shows "get (fold (\<lambda>(i, p) d. put d i p) ps d) i = Some p"
  using assms
proof (induction ps arbitrary: d)
  case Nil
  then show ?case by simp
next
  case (Cons x ps)
  obtain j r where x: "x = (j, r)" by (cases x)
  then have r: "length r = PageSize" "j \<notin> fst ` set ps" using Cons.prems by auto
  then have ok: "ok (put d j r)" "get (put d j r) j = Some r"
    using Cons.prems(1) by (simp_all add: ok_put get_put_same)
  show ?case
  proof (cases "(i, p) \<in> set ps")
    case True
    then show ?thesis using Cons.IH [OF ok(1)] Cons.prems x by simp
  next
    case False
    then have "i = j" "p = r" using Cons.prems(4) x by auto
    then show ?thesis
      using get_put_all_other [OF ok(1) _ r(2) ok(2)] Cons.prems(2) x by simp
  qed
qed

end

interpretation disk: block_device disk_page "\<lambda>f i p. snd (WritePage f i p)" fopen
  by unfold_locales
    (simp_all add: disk_page_WritePage_same disk_page_WritePage_other WritePage_ok)

section \<open>Properties of the pager\<close>

text \<open>Writing a page and reading it back returns its bytes, and no other page that could be
  read before changes.\<close>

lemma pager_write_read:
  assumes "fopen f" "length p = PageSize" "length b = PageSize" "WritePage f i p = (r, f')"
  shows "r = Inr () \<and> ReadPage f' i b = Inr p \<and>
    (\<forall>j q. j \<noteq> i \<and> ReadPage f j b = Inr q \<longrightarrow> ReadPage f' j b = Inr q)"
proof -
  have f': "f' = snd (WritePage f i p)" and r: "r = fst (WritePage f i p)"
    using assms(4) by simp_all
  have op: "fopen f'" "r = Inr ()" unfolding f' r by (rule WritePage_ok [OF assms(1,2)])+
  note rd = ReadPage_Inr_iff [OF op(1) assms(3)] ReadPage_Inr_iff [OF assms(1,3)]
  have "disk_page f' i = Some p"
    unfolding f' by (rule disk_page_WritePage_same [OF assms(1,2)])
  moreover have "disk_page f' j = Some q" if "j \<noteq> i" "disk_page f j = Some q" for j q
    unfolding f' by (rule disk_page_WritePage_other [OF assms(1,2)]) (use that in auto)
  ultimately show ?thesis
    using op by (simp add: rd)
qed

lemma AllocatePage_spec:
  assumes "wf_disk f"
  obtains i f' where "AllocatePage f mode = (Inr i, f')" "disk_page f i = None"
    "unat i = page_count f" "length (fbytes f') = length (fbytes f) + PageSize" "fopen f'"
    "disk_page f' = (disk_page f)(i \<mapsto> SetPageID (NewPage mode) i)"
proof -
  let ?n = "page_count f"
  let ?i = "of_nat ?n :: u32"
  let ?p = "SetPageID (NewPage mode) ?i"
  let ?f = "snd (WritePage f ?i ?p)"
  obtain k where k: "length (fbytes f) = 4096 * k"
    using assms(1) by (auto simp: wf_disk_def elim: dvdE)
  then have n: "?n = k" "k < 2 ^ 32" using assms(1) by (auto simp: page_count_def wf_disk_def)
  then have i: "unat ?i = ?n" by simp
  have op: "fopen f" using assms(1) by (simp add: wf_disk_def)
  have w: "WritePage f ?i ?p = (Inr (), ?f)"
    using WritePage_ok(1) [OF op, of ?p ?i] by (metis length_page_setters(1,12) prod.collapse)
  have eq: "AllocatePage f mode = (Inr ?i, ?f)"
    using op w by (auto simp: AllocatePage_def FileSize_def Let_def page_count_def split: prod.splits)
  have none: "disk_page f ?i = None"
    using disk_page_iff_count [of f ?i] i by auto
  have len: "length (fbytes ?f) = length (fbytes f) + 4096" "fopen ?f"
    using WritePage_ok(2,3) [OF op, of ?p ?i] k n i by simp_all
  have "disk_page ?f j = ((disk_page f)(?i \<mapsto> ?p)) j" for j
  proof (cases "j = ?i")
    case True
    then show ?thesis using disk_page_WritePage_same [OF op, of ?p ?i] by simp
  next
    case False
    have c: "page_count ?f = Suc ?n" using len(1) k n by (simp add: page_count_def)
    show ?thesis
    proof (cases "disk_page f j")
      case None
      then have "\<not> unat j < ?n" using disk_page_iff_count [of f j] by simp
      moreover have "unat j \<noteq> ?n" using False i by (metis word_unat_eq_iff)
      ultimately have "disk_page ?f j = None" using disk_page_iff_count [of ?f j] c by auto
      then show ?thesis using None False by simp
    next
      case (Some q)
      then show ?thesis using disk_page_WritePage_other [OF op _ _ Some, of ?p ?i] False by simp
    qed
  qed
  then show ?thesis by (intro that [OF eq none i len]) (simp add: fun_eq_iff)
qed

text \<open>Allocation appends. On a well-formed file AllocatePage returns an id no existing page
  has, the file grows by exactly one page, the new page is an initialised page that carries its
  own id and the requested type, and all existing pages are unchanged.\<close>

lemma AllocatePage_fresh:
  assumes "wf_disk f" "AllocatePage f mode = (r, f')"
  shows "\<exists>i. r = Inr i \<and> disk_page f i = None \<and> unat i = page_count f \<and>
    page_count f' = Suc (page_count f) \<and>
    disk_page f' i = Some (SetPageID (NewPage mode) i) \<and>
    (\<forall>j q. disk_page f j = Some q \<longrightarrow> disk_page f' j = Some q)"
  by (rule AllocatePage_spec [OF assms(1), of mode]) (use assms(2) in \<open>auto simp: page_count_def\<close>)

end
