(* ===== verification/Wal.thy ===== *)
theory Wal
  imports Pager "HOL-Library.AList"
begin

text \<open>
  The write-ahead log of \<^verbatim>\<open>internal/storage/wal.go\<close>: the byte format of a log record with its CRC,
  the append-only file whose byte offsets are the log sequence numbers, and the checkpoint record.

  \<open>wal_holds w rs\<close> is the abstraction: the file is the magic header followed by the serialised
  records \<open>rs\<close>, each carrying its own offset as LSN. The locale \<open>record_log\<close> states the contract
  that rollback and recovery use, and it is interpreted on \<open>Append\<close> and \<open>ReadRecord\<close>.
\<close>

section \<open>Log records\<close>

abbreviation (input) LogOpInsert :: u8 where "LogOpInsert \<equiv> 1"
abbreviation (input) LogOpDelete :: u8 where "LogOpDelete \<equiv> 2"
abbreviation (input) LogOpFullPage :: u8 where "LogOpFullPage \<equiv> 3"
abbreviation (input) LogOpCommit :: u8 where "LogOpCommit \<equiv> 4"
abbreviation (input) LogOpAbort :: u8 where "LogOpAbort \<equiv> 5"
abbreviation (input) LogOpCLR :: u8 where "LogOpCLR \<equiv> 6"
abbreviation (input) LogOpCheckpoint :: u8 where "LogOpCheckpoint \<equiv> 7"
abbreviation (input) LogOpUndoInsert :: u8 where "LogOpUndoInsert \<equiv> 8"

record LogRecord =
  LSN :: u64
  TxnID :: u64
  PrevLSN :: u64
  PageID :: u32
  OpType :: u8
  recKey :: bytes
  recValue :: bytes

definition LogRecord_Serialize :: "LogRecord \<Rightarrow> bytes" where
  "LogRecord_Serialize l =
     (let totalSize = 4 + 8 + 8 + 4 + 1 + 8 + 2 + 4 + length (recKey l) + length (recValue l) + 4;
          buf = replicate totalSize 0;
          buf = blit buf 0 (PutUint32 (of_nat totalSize));
          buf = blit buf 4 (PutUint64 (LSN l));
          buf = blit buf 12 (PutUint64 (TxnID l));
          buf = blit buf 20 (PutUint32 (PageID l));
          buf = blit buf 24 [OpType l];
          buf = blit buf 25 (PutUint64 (PrevLSN l));
          buf = blit buf 33 (PutUint16 (of_nat (length (recKey l))));
          buf = blit buf 35 (PutUint32 (of_nat (length (recValue l))));
          offset = 39;
          buf = blit buf offset (recKey l);
          offset = offset + length (recKey l);
          buf = blit buf offset (recValue l);
          offset = offset + length (recValue l);
          checksum = ChecksumIEEE (sub buf 4 (offset - 4))
      in blit buf offset (PutUint32 checksum))"

definition DeserializeLogRecord :: "bytes \<Rightarrow> (goerr + LogRecord) option" where
  "DeserializeLogRecord data =
     (if length data < 43 then Some (Inl ErrLogTooSmall)
      else if unat (Uint32 (sub data 0 4)) \<noteq> length data then Some (Inl ErrLogSize)
      else
        let crcOffset = length data - 4;
            expectedCRC = Uint32 (sub data crcOffset 4);
            actualCRC = ChecksumIEEE (sub data 4 (crcOffset - 4))
        in if expectedCRC \<noteq> actualCRC then Some (Inl ErrLogChecksum)
        else do {
          let keyLen = unat (Uint16 (sub data 33 2));
          let valLen = unat (Uint32 (sub data 35 4));
          key \<leftarrow> goslice data 39 (39 + keyLen);
          val \<leftarrow> goslice data (39 + keyLen) (39 + keyLen + valLen);
          Some (Inr \<lparr>LSN = Uint64 (sub data 4 8), TxnID = Uint64 (sub data 12 8),
            PrevLSN = Uint64 (sub data 25 8), PageID = Uint32 (sub data 20 4),
            OpType = data ! 24, recKey = key, recValue = val\<rparr>)
        })"

section \<open>The log file\<close>

record WAL =
  wfile :: osfile
  currentLSN :: u64

definition wal_magic :: bytes where
  "wal_magic = [87, 65, 76, 10]" \<comment> \<open>"WAL" and a line feed\<close>

definition NewWAL :: "bytes option \<Rightarrow> WAL" where
  "NewWAL existing =
     (let f = OpenFile existing;
          sz = length (fbytes f)
      in if sz = 0
         then \<lparr>wfile = snd (AppendFile f wal_magic), currentLSN = 4\<rparr>
         else \<lparr>wfile = f, currentLSN = of_nat sz\<rparr>)"

definition Append :: "WAL \<Rightarrow> u64 \<Rightarrow> u32 \<Rightarrow> u64 \<Rightarrow> u8 \<Rightarrow> bytes \<Rightarrow> bytes \<Rightarrow> (goerr + u64) \<times> WAL" where
  "Append w txnID pageID prevLSN opType key value =
     (let lsn = currentLSN w;
          rec = \<lparr>LSN = lsn, TxnID = txnID, PrevLSN = prevLSN, PageID = pageID, OpType = opType,
            recKey = key, recValue = value\<rparr>;
          data = LogRecord_Serialize rec
      in case AppendFile (wfile w) data of
           (Inl e, f) \<Rightarrow> (Inl e, w\<lparr>wfile := f\<rparr>)
         | (Inr _, f) \<Rightarrow>
             (Inr lsn, w\<lparr>wfile := f, currentLSN := currentLSN w + of_nat (length data)\<rparr>))"

text \<open>\<open>ReadAt\<close> takes the LSN as a signed 64-bit offset.\<close>

definition ReadAtLSN :: "osfile \<Rightarrow> nat \<Rightarrow> u64 \<Rightarrow> goerr + bytes" where
  "ReadAtLSN f n lsn =
     (if unat lsn \<ge> 2 ^ 63 then Inl ErrNegativeOffset else ReadAt f n (unat lsn))"

definition ReadRecord :: "WAL \<Rightarrow> u64 \<Rightarrow> (goerr + (LogRecord \<times> u32)) option" where
  "ReadRecord w lsn =
     (case ReadAtLSN (wfile w) 4 lsn of
        Inl e \<Rightarrow> Some (Inl e)
      | Inr sizeBuf \<Rightarrow>
          let sz = Uint32 sizeBuf
          in if sz < 43 then Some (Inl ErrLogCorruptSize)
          else case ReadAtLSN (wfile w) (unat sz) lsn of
                 Inl e \<Rightarrow> Some (Inl e)
               | Inr buf \<Rightarrow> do {
                   r \<leftarrow> DeserializeLogRecord buf;
                   Some (case r of Inl e \<Rightarrow> Inl e | Inr rec \<Rightarrow> Inr (rec, sz))
                 })"

definition WAL_Close :: "WAL \<Rightarrow> (goerr + unit) \<times> WAL" where
  "WAL_Close w = (let (r, f) = CloseFile (wfile w) in (r, w\<lparr>wfile := f\<rparr>))"

text \<open>The dirty page table is given in the order in which Go ranges over the map.\<close>

fun dpt_bytes :: "(u32 \<times> u64) list \<Rightarrow> bytes" where
  "dpt_bytes [] = []"
| "dpt_bytes ((pageID, recLSN) # es) = PutUint32 pageID @ PutUint64 recLSN @ dpt_bytes es"

definition WriteCheckpoint :: "WAL \<Rightarrow> (u32 \<times> u64) list \<Rightarrow> (goerr + u64) \<times> WAL" where
  "WriteCheckpoint w dpt =
     (let buf = PutUint32 (of_nat (length dpt)) @ dpt_bytes dpt
      in case Append w 0 0 0 LogOpCheckpoint [] buf of
           (Inl e, w) \<Rightarrow> (Inl e, w)
         | (Inr lsn, w) \<Rightarrow> (Inr lsn, w))"

section \<open>The record format\<close>

definition rec_size :: "LogRecord \<Rightarrow> nat" where
  "rec_size l = 43 + length (recKey l) + length (recValue l)"

definition rec_fits :: "LogRecord \<Rightarrow> bool" where
  "rec_fits l \<longleftrightarrow> length (recKey l) < 2 ^ 16 \<and> rec_size l < 2 ^ 32"

text \<open>The bytes covered by the checksum.\<close>

definition rec_payload :: "LogRecord \<Rightarrow> bytes" where
  "rec_payload l = PutUint64 (LSN l) @ PutUint64 (TxnID l) @ PutUint32 (PageID l) @ [OpType l] @
     PutUint64 (PrevLSN l) @ PutUint16 (of_nat (length (recKey l))) @
     PutUint32 (of_nat (length (recValue l))) @ recKey l @ recValue l"

lemma length_rec_payload [simp]: "length (rec_payload l) = rec_size l - 8"
  by (simp add: rec_payload_def rec_size_def)

lemma Serialize_layout:
  "LogRecord_Serialize l = PutUint32 (of_nat (rec_size l)) @ rec_payload l @
     PutUint32 (ChecksumIEEE (rec_payload l))"
proof -
  let ?n = "rec_size l" and ?m = "39 + length (recKey l) + length (recValue l)"
  let ?b = "blits (replicate (rec_size l) 0) 0 [PutUint32 (of_nat ?n), PutUint64 (LSN l),
    PutUint64 (TxnID l), PutUint32 (PageID l), [OpType l], PutUint64 (PrevLSN l),
    PutUint16 (of_nat (length (recKey l))), PutUint32 (of_nat (length (recValue l))),
    recKey l, recValue l]"
  have b: "?b = (PutUint32 (of_nat ?n) @ rec_payload l) @ replicate 4 0"
    by (subst blits_fresh_0) (simp_all add: rec_size_def rec_payload_def del: replicate_Suc)
  have off: "length (PutUint32 (of_nat ?n) @ rec_payload l) = ?m"
    by (simp add: rec_size_def)
  have pay: "sub ?b 4 (?m - 4) = rec_payload l"
    unfolding b using off by (simp add: rec_size_def)
  have n: "4 + 8 + 8 + 4 + 1 + 8 + 2 + 4 + length (recKey l) + length (recValue l) + 4 = ?n"
    by (simp add: rec_size_def)
  have "LogRecord_Serialize l = blit ?b ?m (PutUint32 (ChecksumIEEE (sub ?b 4 (?m - 4))))"
    unfolding LogRecord_Serialize_def Let_def n by simp
  also have "\<dots> = blit ?b ?m (PutUint32 (ChecksumIEEE (rec_payload l)))"
    unfolding pay ..
  also have "\<dots> = (PutUint32 (of_nat ?n) @ rec_payload l) @ PutUint32 (ChecksumIEEE (rec_payload l))"
    unfolding b using blit_fresh [OF off [symmetric], of "PutUint32 (ChecksumIEEE (rec_payload l))" 4 0]
    by simp
  finally show ?thesis by simp
qed

lemma length_Serialize [simp]: "length (LogRecord_Serialize l) = rec_size l"
  by (simp add: Serialize_layout) (simp add: rec_size_def)

lemma rec_size_ge: "43 \<le> rec_size l"
  by (simp add: rec_size_def)

lemma sub_shift: "a = length xs \<Longrightarrow> sub (xs @ ys) (a + i) n = sub ys i n"
  by (simp add: sub_def)

lemma Serialize_fields:
  assumes "rec_fits l"
  shows "Uint32 (sub (LogRecord_Serialize l) 0 4) = of_nat (rec_size l)"
    and "sub (LogRecord_Serialize l) 4 (rec_size l - 8) = rec_payload l"
    and "Uint32 (sub (LogRecord_Serialize l) (rec_size l - 4) 4) = ChecksumIEEE (rec_payload l)"
  by (simp_all add: Serialize_layout) (simp add: rec_size_def)

lemma DeserializeLogRecord_Serialize:
  assumes "rec_fits l"
  shows "DeserializeLogRecord (LogRecord_Serialize l) = Some (Inr l)"
proof -
  let ?d = "LogRecord_Serialize l" and ?n = "rec_size l"
  let ?c = "PutUint32 (ChecksumIEEE (rec_payload l))"
  have n: "43 \<le> ?n" "?n < 4294967296" and k: "length (recKey l) < 65536"
    and v: "length (recValue l) < 4294967296"
    using assms by (auto simp: rec_fits_def rec_size_def)
  have d: "?d = PutUint32 (of_nat ?n) @ PutUint64 (LSN l) @ PutUint64 (TxnID l) @
      PutUint32 (PageID l) @ [OpType l] @ PutUint64 (PrevLSN l) @
      PutUint16 (of_nat (length (recKey l))) @ PutUint32 (of_nat (length (recValue l))) @
      recKey l @ recValue l @ ?c"
    by (simp add: Serialize_layout rec_payload_def)
  note fs = Serialize_fields [OF assms]
  have "sub ?d 4 8 = PutUint64 (LSN l)" "sub ?d 12 8 = PutUint64 (TxnID l)"
    "sub ?d 20 4 = PutUint32 (PageID l)" "?d ! 24 = OpType l" "sub ?d 25 8 = PutUint64 (PrevLSN l)"
    "sub ?d 33 2 = PutUint16 (of_nat (length (recKey l)))"
    "sub ?d 35 4 = PutUint32 (of_nat (length (recValue l)))"
    "sub ?d 39 (length (recKey l)) = recKey l"
    "sub ?d (39 + length (recKey l)) (length (recValue l)) = recValue l"
    by (simp_all add: d sub_Cons_Suc nth_append)
  then show ?thesis
    using n k v fs
    by (simp add: DeserializeLogRecord_def Let_def) (simp add: rec_size_def)
qed

definition decode_rec :: "bytes \<Rightarrow> LogRecord option" where
  "decode_rec bs = (case DeserializeLogRecord bs of Some (Inr r) \<Rightarrow> Some r | _ \<Rightarrow> None)"

interpretation log_rec: byte_codec LogRecord_Serialize decode_rec rec_size rec_fits
  by unfold_locales (simp_all add: decode_rec_def DeserializeLogRecord_Serialize)

section \<open>Torn and corrupted records\<close>

lemma Deserialize_corrupt:
  assumes "rec_fits l" "i < rec_size l" "LogRecord_Serialize l ! i \<noteq> v"
  shows "\<exists>e. DeserializeLogRecord ((LogRecord_Serialize l)[i := v]) = Some (Inl e)"
proof -
  let ?d = "LogRecord_Serialize l" and ?n = "rec_size l"
  have n: "43 \<le> ?n" "?n < 4294967296" using assms(1) rec_size_ge [of l] by (auto simp: rec_fits_def)
  note fs = Serialize_fields [OF assms(1)]
  note d = DeserializeLogRecord_def Let_def sub_list_update
  consider (sz) "i < 4" | (pay) "4 \<le> i" "i < ?n - 4" | (crc) "?n - 4 \<le> i" by linarith
  then show ?thesis
  proof cases
    case sz
    then have "Uint32 ((sub ?d 0 4)[i := v]) \<noteq> Uint32 (sub ?d 0 4)"
      using assms n by (intro Uint32_update) (auto simp: nth_sub)
    then have "Uint32 ((sub ?d 0 4)[i := v]) \<noteq> of_nat ?n" using fs(1) by simp
    then have "unat (Uint32 ((sub ?d 0 4)[i := v])) \<noteq> ?n" by (metis word_unat_eq_iff unat_of_nat_32 n(2))
    then show ?thesis using sz n by (simp add: d)
  next
    case pay
    have "sub ?d 4 (?n - 8) ! (i - 4) = ?d ! i" using pay n by (simp add: nth_sub)
    then have "ChecksumIEEE ((rec_payload l)[i - 4 := v]) \<noteq> ChecksumIEEE (rec_payload l)"
      using pay n assms(3) fs(2) by (intro ChecksumIEEE_update) auto
    then show ?thesis using pay n fs by (simp add: d)
  next
    case crc
    then have "Uint32 ((sub ?d (?n - 4) 4)[i - (?n - 4) := v]) \<noteq> Uint32 (sub ?d (?n - 4) 4)"
      using assms n by (intro Uint32_update) (auto simp: nth_sub)
    then show ?thesis using crc n fs assms(2) by (simp add: d)
  qed
qed

lemma Deserialize_torn:
  assumes "rec_fits l" "k < rec_size l"
  shows "\<exists>e. DeserializeLogRecord (take k (LogRecord_Serialize l)) = Some (Inl e)"
proof -
  let ?d = "LogRecord_Serialize l"
  have "sub (take k ?d) 0 4 = sub ?d 0 4" if "43 \<le> k"
    using that by (simp add: sub_def)
  then show ?thesis
    using assms Serialize_fields(1) [OF assms(1)]
    by (auto simp: DeserializeLogRecord_def rec_fits_def)
qed

section \<open>The log as a list of records\<close>

fun lsns_from :: "nat \<Rightarrow> LogRecord list \<Rightarrow> bool" where
  "lsns_from off [] = True"
| "lsns_from off (r # rs) = (unat (LSN r) = off \<and> lsns_from (off + rec_size r) rs)"

definition log_bytes :: "LogRecord list \<Rightarrow> bytes" where
  "log_bytes rs = wal_magic @ concat (map LogRecord_Serialize rs)"

definition wal_holds :: "WAL \<Rightarrow> LogRecord list \<Rightarrow> bool" where
  "wal_holds w rs \<longleftrightarrow> fopen (wfile w) \<and> fbytes (wfile w) = log_bytes rs \<and>
     unat (currentLSN w) = length (log_bytes rs) \<and> length (log_bytes rs) < 2 ^ 63 \<and>
     lsns_from 4 rs \<and> list_all rec_fits rs"

lemma length_log_bytes: "length (log_bytes rs) = 4 + sum_list (map rec_size rs)"
  by (simp add: log_bytes_def wal_magic_def length_concat comp_def)

lemma lsns_from_append:
  "lsns_from off (rs @ ss) \<longleftrightarrow> lsns_from off rs \<and> lsns_from (off + sum_list (map rec_size rs)) ss"
  by (induction rs arbitrary: off) (auto simp: add.assoc)

lemma lsns_from_nth:
  "lsns_from off rs \<Longrightarrow> i < length rs \<Longrightarrow>
   unat (LSN (rs ! i)) = off + sum_list (map rec_size (take i rs))"
  by (induction rs arbitrary: off i) (auto simp: nth_Cons' take_Cons' add.assoc)

lemma NewWAL_holds: "wal_holds (NewWAL None) []"
  by (simp add: wal_holds_def NewWAL_def OpenFile_def AppendFile_def Let_def log_bytes_def wal_magic_def)

lemma ReadAtLSN_small: "unat lsn < 2 ^ 63 \<Longrightarrow> ReadAtLSN f n lsn = ReadAt f n (unat lsn)"
  by (simp add: ReadAtLSN_def)

lemma ReadRecord_at:
  assumes "fopen (wfile w)" "fbytes (wfile w) = pre @ LogRecord_Serialize r @ post"
    and "unat lsn = length pre" "length pre < 2 ^ 63" "rec_fits r"
  shows "ReadRecord w lsn = Some (Inr (r, of_nat (rec_size r)))"
proof -
  let ?n = "rec_size r"
  have n: "43 \<le> ?n" "?n < 4294967296"
    using assms(5) rec_size_ge [of r] by (auto simp: rec_fits_def)
  have 1: "ReadAtLSN (wfile w) 4 lsn = Inr (sub (LogRecord_Serialize r) 0 4)"
    using assms n by (simp add: ReadAtLSN_small ReadAt_def)
  have 2: "ReadAtLSN (wfile w) ?n lsn = Inr (LogRecord_Serialize r)"
    using assms n by (simp add: ReadAtLSN_small ReadAt_def)
  have "\<not> (of_nat ?n :: u32) < 43" using n by (simp add: word_less_nat_alt)
  then show ?thesis
    using 1 2 n Serialize_fields(1) [OF assms(5)]
    by (simp add: ReadRecord_def Let_def DeserializeLogRecord_Serialize [OF assms(5)])
qed

lemma wal_holds_read:
  assumes "wal_holds w rs" "i < length rs"
  shows "ReadRecord w (LSN (rs ! i)) = Some (Inr (rs ! i, of_nat (rec_size (rs ! i))))"
proof (rule ReadRecord_at)
  let ?pre = "log_bytes (take i rs)"
  have "rs = take i rs @ rs ! i # drop (Suc i) rs" using assms(2) by (rule id_take_nth_drop)
  then have split: "log_bytes rs = ?pre @ LogRecord_Serialize (rs ! i) @
      concat (map LogRecord_Serialize (drop (Suc i) rs))"
    unfolding log_bytes_def
    by (metis append.assoc concat.simps(2) concat_append list.simps(9) map_append)
  show "fbytes (wfile w) = ?pre @ LogRecord_Serialize (rs ! i) @
      concat (map LogRecord_Serialize (drop (Suc i) rs))"
    using assms(1) split by (simp add: wal_holds_def)
  show "unat (LSN (rs ! i)) = length ?pre"
    using assms lsns_from_nth [of 4 rs i] by (simp add: wal_holds_def length_log_bytes)
  have "length ?pre \<le> length (log_bytes rs)" using split by simp
  then show "length ?pre < 2 ^ 63" using assms(1) by (simp add: wal_holds_def)
  show "rec_fits (rs ! i)" using assms by (simp add: wal_holds_def list_all_length)
qed (use assms in \<open>simp add: wal_holds_def\<close>)

lemma wal_holds_read_end:
  assumes "wal_holds w rs"
  shows "ReadRecord w (currentLSN w) = Some (Inl ErrEOF)"
  using assms by (simp add: wal_holds_def ReadRecord_def ReadAtLSN_small ReadAt_def)

lemma Append_holds:
  assumes "wal_holds w rs"
    and r: "r = \<lparr>LSN = currentLSN w, TxnID = t, PrevLSN = pr, PageID = pg, OpType = op,
      recKey = k, recValue = v\<rparr>"
    and "rec_fits r" "length (log_bytes rs) + rec_size r < 2 ^ 63"
  shows "fst (Append w t pg pr op k v) = Inr (currentLSN w)"
    and "wal_holds (snd (Append w t pg pr op k v)) (rs @ [r])"
proof -
  have op: "fopen (wfile w)" "fbytes (wfile w) = log_bytes rs"
    and cur: "unat (currentLSN w) = length (log_bytes rs)"
    using assms(1) by (simp_all add: wal_holds_def)
  have app: "Append w t pg pr op k v = (Inr (currentLSN w),
      w\<lparr>wfile := (wfile w)\<lparr>fbytes := log_bytes rs @ LogRecord_Serialize r\<rparr>,
        currentLSN := currentLSN w + of_nat (rec_size r)\<rparr>)"
    using op by (simp add: Append_def Let_def AppendFile_def r [symmetric])
  then show "fst (Append w t pg pr op k v) = Inr (currentLSN w)" by simp
  have lb: "log_bytes (rs @ [r]) = log_bytes rs @ LogRecord_Serialize r"
    by (simp add: log_bytes_def)
  have "unat (of_nat (rec_size r) :: u64) = rec_size r"
    using assms(3) by (simp add: rec_fits_def)
  then have "unat (currentLSN w + of_nat (rec_size r)) = length (log_bytes rs) + rec_size r"
    using cur assms(4) by (simp add: unat_word_ariths)
  moreover have "unat (LSN r) = 4 + sum_list (map rec_size rs)"
    using cur by (simp add: r length_log_bytes)
  ultimately show "wal_holds (snd (Append w t pg pr op k v)) (rs @ [r])"
    using assms(1,3,4) op by (simp add: app wal_holds_def lb lsns_from_append)
qed

section \<open>The contract of a record log\<close>

text \<open>What recovery relies on when it reads the log forward: at the LSN of a record it finds that record and the
  distance to the next one, and at the end of the log an error.\<close>

locale record_log =
  fixes holds :: "'w \<Rightarrow> 'r list \<Rightarrow> bool"
    and lsn_of :: "'r \<Rightarrow> u64"
    and tail :: "'w \<Rightarrow> u64"
    and rd :: "'w \<Rightarrow> u64 \<Rightarrow> (goerr + ('r \<times> u32)) option"
    and step :: "'w \<Rightarrow> 'r \<Rightarrow> 'w \<Rightarrow> bool"
  assumes rd_nth: "holds w rs \<Longrightarrow> i < length rs \<Longrightarrow>
      \<exists>sz. rd w (lsn_of (rs ! i)) = Some (Inr (rs ! i, sz)) \<and>
        lsn_of (rs ! i) + ucast sz = (if Suc i < length rs then lsn_of (rs ! Suc i) else tail w)"
    and rd_tail: "holds w rs \<Longrightarrow> \<exists>e. rd w (tail w) = Some (Inl e)"
    and lsn_mono: "holds w rs \<Longrightarrow> i < length rs \<Longrightarrow>
      0 < lsn_of (rs ! i) \<and> lsn_of (rs ! i) < (if Suc i < length rs then lsn_of (rs ! Suc i) else tail w)"
    and step_snoc: "holds w rs \<Longrightarrow> step w r w' \<Longrightarrow> holds w' (rs @ [r])"
begin

definition pos :: "'w \<Rightarrow> 'r list \<Rightarrow> nat \<Rightarrow> u64" where
  "pos w rs i = (if i < length rs then lsn_of (rs ! i) else tail w)"

lemma rd_pos:
  assumes "holds w rs" "i < length rs"
  obtains sz where "rd w (pos w rs i) = Some (Inr (rs ! i, sz))" "pos w rs i + ucast sz = pos w rs (Suc i)"
  using rd_nth [OF assms] assms(2) that by (auto simp: pos_def)

lemma rd_end: "holds w rs \<Longrightarrow> \<exists>e. rd w (pos w rs (length rs)) = Some (Inl e)"
  using rd_tail by (simp add: pos_def)

lemma lsn_less:
  assumes "holds w rs" "i < j" "j < length rs"
  shows "lsn_of (rs ! i) < lsn_of (rs ! j)"
  using assms(2,3)
proof (induction j)
  case 0
  then show ?case by simp
next
  case (Suc j)
  have "lsn_of (rs ! j) < lsn_of (rs ! Suc j)"
    using lsn_mono [OF assms(1), of j] Suc.prems by simp
  then show ?case
    using Suc by (cases "i = j") auto
qed

lemma lsn_below_tail:
  assumes "holds w rs" "i < length rs"
  shows "lsn_of (rs ! i) < tail w"
proof -
  obtain n where n: "length rs = Suc n" using assms(2) by (cases "length rs") auto
  have "lsn_of (rs ! n) < tail w" using lsn_mono [OF assms(1), of n] n by simp
  then show ?thesis using lsn_less [OF assms(1), of i n] assms(2) n by (cases "i = n") auto
qed

lemma rd_earlier:
  assumes "holds w rs" "step w r w'" "i < length rs"
  shows "map_option (map_sum id fst) (rd w' (lsn_of (rs ! i))) =
    map_option (map_sum id fst) (rd w (lsn_of (rs ! i)))"
  using rd_nth [OF assms(1,3)] rd_nth [OF step_snoc [OF assms(1,2)], of i] assms(3)
  by (auto simp: nth_append)

end

definition wal_append :: "WAL \<Rightarrow> LogRecord \<Rightarrow> WAL \<Rightarrow> bool" where
  "wal_append w r w' \<longleftrightarrow>
     (\<exists>t pg pr op k v. r = \<lparr>LSN = currentLSN w, TxnID = t, PrevLSN = pr, PageID = pg, OpType = op,
        recKey = k, recValue = v\<rparr> \<and> w' = snd (Append w t pg pr op k v)) \<and>
     rec_fits r \<and> unat (currentLSN w) + rec_size r < 2 ^ 63"

lemma wal_holds_next:
  assumes "wal_holds w rs" "i < length rs"
  shows "unat (LSN (rs ! i)) + rec_size (rs ! i) =
    unat (if Suc i < length rs then LSN (rs ! Suc i) else currentLSN w)"
proof -
  have lf: "lsns_from 4 rs" using assms(1) by (simp add: wal_holds_def)
  have "sum_list (map rec_size (take (Suc i) rs)) =
      sum_list (map rec_size (take i rs)) + rec_size (rs ! i)"
    using assms(2) by (simp add: take_Suc_conv_app_nth)
  then have sum: "unat (LSN (rs ! i)) + rec_size (rs ! i) = 4 + sum_list (map rec_size (take (Suc i) rs))"
    using lsns_from_nth [OF lf assms(2)] by simp
  show ?thesis
  proof (cases "Suc i < length rs")
    case True
    then show ?thesis using sum lsns_from_nth [OF lf True] by simp
  next
    case False
    then have "take (Suc i) rs = rs" by simp
    then show ?thesis using sum False assms(1) by (simp add: wal_holds_def length_log_bytes)
  qed
qed

interpretation wal_log: record_log wal_holds LSN currentLSN ReadRecord wal_append
proof unfold_locales
  fix w :: WAL and rs :: "LogRecord list" and i
  assume h: "wal_holds w rs" and i: "i < length rs"
  let ?next = "if Suc i < length rs then LSN (rs ! Suc i) else currentLSN w"
  note nx = wal_holds_next [OF h i]
  have fit: "rec_size (rs ! i) < 2 ^ 32"
    using h i by (simp add: wal_holds_def rec_fits_def list_all_length)
  have "LSN (rs ! i) + ucast (of_nat (rec_size (rs ! i)) :: u32) = ?next"
  proof -
    have "unat (ucast (of_nat (rec_size (rs ! i)) :: u32) :: u64) = rec_size (rs ! i)"
      using fit by (simp add: unsigned_ucast_eq take_bit_eq_mod)
    then have "unat (LSN (rs ! i) + ucast (of_nat (rec_size (rs ! i)) :: u32)) = unat ?next"
      using nx unat_lt_len [of ?next] by (simp add: unat_word_ariths)
    then show ?thesis by (simp add: word_unat_eq_iff)
  qed
  then show "\<exists>sz. ReadRecord w (LSN (rs ! i)) = Some (Inr (rs ! i, sz)) \<and>
      LSN (rs ! i) + ucast sz = ?next"
    using wal_holds_read [OF h i] by blast
  have "4 \<le> unat (LSN (rs ! i))"
    using lsns_from_nth [of 4 rs i] h i by (simp add: wal_holds_def)
  then show "0 < LSN (rs ! i) \<and> LSN (rs ! i) < ?next"
    using nx rec_size_ge [of "rs ! i"] by (simp add: word_less_nat_alt)
next
  fix w rs assume "wal_holds w rs"
  then show "\<exists>e. ReadRecord w (currentLSN w) = Some (Inl e)"
    using wal_holds_read_end by blast
next
  fix w rs r w' assume "wal_holds w rs" "wal_append w r w'"
  then show "wal_holds w' (rs @ [r])"
    unfolding wal_append_def using Append_holds(2) by (auto simp: wal_holds_def)
qed

section \<open>Properties of the log\<close>

text \<open>A log record survives serialisation: DeserializeLogRecord returns exactly the record
  that Serialize wrote, for every record whose key is shorter than 64 KiB and whose total size is
  below 4 GiB, and it does not panic.\<close>

lemma log_record_roundtrip:
  assumes "length (recKey l) < 2 ^ 16" "43 + length (recKey l) + length (recValue l) < 2 ^ 32"
  shows "DeserializeLogRecord (LogRecord_Serialize l) = Some (Inr l)"
  using assms by (intro DeserializeLogRecord_Serialize) (simp add: rec_fits_def rec_size_def)

text \<open>C32: Torn and damaged records are rejected. If any single byte of a serialised record is
  changed (size field, payload or checksum), or the record is cut short anywhere, deserialising it
  returns an error: it is neither accepted nor does it panic.\<close>

theorem log_record_damage_rejected:
  assumes "rec_fits l" "i < length (LogRecord_Serialize l)" "v \<noteq> LogRecord_Serialize l ! i"
  shows "(\<exists>e. DeserializeLogRecord ((LogRecord_Serialize l)[i := v]) = Some (Inl e)) \<and>
    (\<exists>e. DeserializeLogRecord (take i (LogRecord_Serialize l)) = Some (Inl e))"
  using Deserialize_corrupt [of l i v] Deserialize_torn [of l i] assms by auto

theorem log_record_damage_rejected_witness:
  "\<exists>e. DeserializeLogRecord (take 20 (LogRecord_Serialize \<lparr>LSN = 4, TxnID = 9, PrevLSN = 0,
     PageID = 1, OpType = LogOpInsert, recKey = [1, 2], recValue = [3]\<rparr>)) = Some (Inl e)"
proof -
  let ?l = "\<lparr>LSN = 4, TxnID = 9, PrevLSN = 0, PageID = 1, OpType = LogOpInsert,
    recKey = [1, 2], recValue = [3]\<rparr> :: LogRecord"
  have "LogRecord_Serialize ?l ! 20 + 1 \<noteq> LogRecord_Serialize ?l ! 20" by simp
  then show ?thesis
    using log_record_damage_rejected [of ?l 20 "LogRecord_Serialize ?l ! 20 + 1"]
    by (simp add: rec_fits_def rec_size_def)
qed

text \<open>C31: Append refines list append. On a log that holds the records rs, Append returns as LSN
  the byte offset of the new record (larger than every earlier LSN), the log then holds rs
  followed by the new record, and every record can be read back at its own LSN.\<close>

theorem Append_refines:
  assumes "wal_holds w rs" "Append w t pg pr op k v = (res, w')"
    and "length k < 2 ^ 16" "43 + length k + length v < 2 ^ 32"
    and "unat (currentLSN w) + 43 + length k + length v < 2 ^ 63"
  defines "r \<equiv> \<lparr>LSN = currentLSN w, TxnID = t, PrevLSN = pr, PageID = pg, OpType = op,
      recKey = k, recValue = v\<rparr>"
  shows "res = Inr (LSN r) \<and> unat (LSN r) = length (fbytes (wfile w)) \<and>
    wal_holds w' (rs @ [r]) \<and> (\<forall>x \<in> set rs. LSN x < LSN r) \<and>
    (\<forall>x \<in> set (rs @ [r]). ReadRecord w' (LSN x) = Some (Inr (x, of_nat (rec_size x))))"
proof -
  have fits: "rec_fits r" and room: "length (log_bytes rs) + rec_size r < 2 ^ 63"
    using assms(1,3,4,5) by (simp_all add: rec_fits_def rec_size_def r_def wal_holds_def)
  have app: "res = Inr (LSN r)" "wal_holds w' (rs @ [r])"
    using Append_holds [OF assms(1) r_def [THEN meta_eq_to_obj_eq] fits room] assms(2)
    by (simp_all add: r_def)
  have "LSN x < LSN r" if "x \<in> set rs" for x
  proof -
    from that obtain i where i: "i < length rs" "x = rs ! i" by (metis in_set_conv_nth)
    then show ?thesis
      using wal_log.lsn_less [OF app(2), of i "length rs"] by (simp add: nth_append)
  qed
  moreover have "ReadRecord w' (LSN x) = Some (Inr (x, of_nat (rec_size x)))"
    if "x \<in> set (rs @ [r])" for x
    using that wal_holds_read [OF app(2)] by (metis in_set_conv_nth)
  ultimately show ?thesis
    using app assms(1) by (simp add: wal_holds_def r_def)
qed

theorem Append_refines_witness:
  "wal_holds (NewWAL None) [] \<and>
   fst (Append (NewWAL None) 7 1 0 LogOpInsert [1] [2]) = Inr 4 \<and>
   (\<exists>r. wal_holds (snd (Append (NewWAL None) 7 1 0 LogOpInsert [1] [2])) [r])"
proof -
  have cur: "currentLSN (NewWAL None) = 4"
    by (simp add: NewWAL_def OpenFile_def Let_def)
  show ?thesis
    using Append_refines [OF NewWAL_holds, of 7 1 0 LogOpInsert "[1]" "[2]"
        "fst (Append (NewWAL None) 7 1 0 LogOpInsert [1] [2])"
        "snd (Append (NewWAL None) 7 1 0 LogOpInsert [1] [2])"] NewWAL_holds
    by (auto simp: cur)
qed

end
