(* ===== verification/Buffer_Manager.thy ===== *)
theory Buffer_Manager
  imports Wal
begin

text \<open>
  The buffer pool of \<^verbatim>\<open>internal/storage/buffer_manager.go\<close>: frames with pin count, dirty flag,
  latch and recovery LSN, fetching for read and for write, unpinning, eviction and flushing.

  A page pointer that Go code holds is the frame of its page id while that frame is pinned:
  \<open>getPage\<close> reads through it, \<open>putPage\<close> writes through it. The latch is part of the frame, so a
  fetch that would have to wait for a latch does not return (\<open>None\<close>), and releasing a latch that is
  not held is the fatal error of \<^verbatim>\<open>sync.RWMutex\<close> (also \<open>None\<close>). Go ranges over a map in an order
  that is different each time: \<open>mapOrder\<close> is an arbitrary sequence of enumerations, one per range
  statement, and every theorem holds for all of them.

  \<open>page_view\<close> is what the pool promises its clients: the current content of every page, wherever
  it is kept, apart from the LSN field, which a write fetch stamps without marking the frame
  dirty. The locale \<open>page_store\<close> is the contract, interpreted on the operations below.
\<close>

section \<open>State\<close>

datatype latch = LFree | LRead nat | LWrite

record Frame =
  fPage :: page
  IsDirty :: bool
  PinCount :: u32
  ReferenceBits :: u16
  Latch :: latch
  RecLSN :: u64

record BufferManager =
  pager :: osfile
  pageTable :: "(u32 \<times> Frame) list"
  maxSize :: nat
  wal :: WAL
  bmWal :: bool                                  \<comment> \<open>the wal pointer of the pool is not nil\<close>
  mapOrder :: "nat \<Rightarrow> u32 list \<Rightarrow> u32 list"   \<comment> \<open>iteration order of the n-th range over the map\<close>
  ticks :: nat

definition NewBufferManager ::
  "bytes option \<Rightarrow> nat \<Rightarrow> WAL \<Rightarrow> bool \<Rightarrow> (nat \<Rightarrow> u32 list \<Rightarrow> u32 list) \<Rightarrow> BufferManager" where
  "NewBufferManager existing sz w hasWal ord =
     \<lparr>pager = NewPager existing, pageTable = [], maxSize = sz, wal = w, bmWal = hasWal,
      mapOrder = ord, ticks = 0\<rparr>"

definition frame_at :: "'a BufferManager_scheme \<Rightarrow> u32 \<Rightarrow> Frame option" where
  "frame_at bm i = map_of (pageTable bm) i"

definition set_frame :: "u32 \<Rightarrow> Frame \<Rightarrow> 'a BufferManager_scheme \<Rightarrow> 'a BufferManager_scheme" where
  "set_frame i fr bm = bm\<lparr>pageTable := AList.update i fr (pageTable bm)\<rparr>"

text \<open>Reading and writing through a page pointer.\<close>

definition getPage :: "u32 \<Rightarrow> 'a BufferManager_scheme \<Rightarrow> page option" where
  "getPage i bm = map_option fPage (frame_at bm i)"

definition putPage :: "u32 \<Rightarrow> page \<Rightarrow> 'a BufferManager_scheme \<Rightarrow> 'a BufferManager_scheme" where
  "putPage i p bm =
     (case frame_at bm i of None \<Rightarrow> bm | Some fr \<Rightarrow> set_frame i (fr\<lparr>fPage := p\<rparr>) bm)"

section \<open>Eviction\<close>

text \<open>The entries of the page table in the order of the next range statement.\<close>

definition ranged :: "'a BufferManager_scheme \<Rightarrow> (u32 \<times> Frame) list" where
  "ranged bm = List.map_filter (\<lambda>i. map_option (Pair i) (frame_at bm i))
     (mapOrder bm (ticks bm) (map fst (pageTable bm)))"

definition firstFind :: "'a BufferManager_scheme \<Rightarrow> (u32 \<times> Frame) option" where
  "firstFind bm = find (\<lambda>(i, fr). PinCount fr = 0) (ranged bm)"

definition evict :: "'a BufferManager_scheme \<Rightarrow> (goerr + unit) \<times> 'a BufferManager_scheme" where
  "evict bm =
     (let bm' = bm\<lparr>ticks := Suc (ticks bm)\<rparr>
      in case firstFind bm of
           None \<Rightarrow> (Inl ErrPoolFull, bm')
         | Some (victimID, victimFrame) \<Rightarrow>
             if IsDirty victimFrame
             then (case WritePage (pager bm') victimID (fPage victimFrame) of
                     (Inl e, f) \<Rightarrow> (Inl e, bm'\<lparr>pager := f\<rparr>)
                   | (Inr _, f) \<Rightarrow>
                       (Inr (), bm'\<lparr>pager := f, pageTable := AList.delete victimID (pageTable bm')\<rparr>))
             else (Inr (), bm'\<lparr>pageTable := AList.delete victimID (pageTable bm')\<rparr>))"

section \<open>Fetching\<close>

definition getFrame ::
  "u32 \<Rightarrow> u8 \<Rightarrow> 'a BufferManager_scheme \<Rightarrow> (goerr + Frame) \<times> 'a BufferManager_scheme" where
  "getFrame pageID fallbackPageMode bm =
     (case frame_at bm pageID of
        Some fr \<Rightarrow>
          let fr = fr\<lparr>PinCount := PinCount fr + 1\<rparr> in (Inr fr, set_frame pageID fr bm)
      | None \<Rightarrow>
          (case (if length (pageTable bm) \<ge> maxSize bm then evict bm else (Inr (), bm)) of
             (Inl e, bm) \<Rightarrow> (Inl e, bm)
           | (Inr _, bm) \<Rightarrow>
               let p = NewPage fallbackPageMode
               in case ReadPage (pager bm) pageID p of
                    Inl e \<Rightarrow> (Inl e, bm)
                  | Inr p \<Rightarrow>
                      let fr = \<lparr>fPage = p, IsDirty = False, PinCount = 1, ReferenceBits = 0,
                        Latch = LFree, RecLSN = 0\<rparr>
                      in (Inr fr, set_frame pageID fr bm)))"

fun rlock :: "latch \<Rightarrow> latch option" where
  "rlock LFree = Some (LRead 1)"
| "rlock (LRead n) = Some (LRead (Suc n))"
| "rlock LWrite = None"

fun wlock :: "latch \<Rightarrow> latch option" where
  "wlock LFree = Some LWrite"
| "wlock _ = None"

fun runlock :: "latch \<Rightarrow> latch option" where
  "runlock (LRead n) = Some (if n \<le> 1 then LFree else LRead (n - 1))"
| "runlock _ = None"

fun wunlock :: "latch \<Rightarrow> latch option" where
  "wunlock LWrite = Some LFree"
| "wunlock _ = None"

definition FetchPageForRead ::
  "u32 \<Rightarrow> u8 \<Rightarrow> 'a BufferManager_scheme \<Rightarrow> ((goerr + page) \<times> 'a BufferManager_scheme) option" where
  "FetchPageForRead pageID fallbackPageMode bm =
     (case getFrame pageID fallbackPageMode bm of
        (Inl e, bm) \<Rightarrow> Some (Inl e, bm)
      | (Inr fr, bm) \<Rightarrow> do {
          l \<leftarrow> rlock (Latch fr);
          Some (Inr (fPage fr), set_frame pageID (fr\<lparr>Latch := l\<rparr>) bm)
        })"

definition FetchPageForWrite ::
  "u32 \<Rightarrow> u8 \<Rightarrow> 'a BufferManager_scheme \<Rightarrow> ((goerr + page) \<times> 'a BufferManager_scheme) option" where
  "FetchPageForWrite pageID fallbackPageMode bm =
     (case getFrame pageID fallbackPageMode bm of
        (Inl e, bm) \<Rightarrow> Some (Inl e, bm)
      | (Inr fr, bm) \<Rightarrow> do {
          l \<leftarrow> wlock (Latch fr);
          (if \<not> IsDirty fr \<and> bmWal bm
           then (case Append (wal bm) 0 pageID 0 LogOpFullPage [] (fPage fr) of
                   (Inl e, w) \<Rightarrow> Some (Inl e, set_frame pageID fr (bm\<lparr>wal := w\<rparr>))
                 | (Inr lsn, w) \<Rightarrow>
                     let p = SetLSN (fPage fr) lsn
                     in Some (Inr p, set_frame pageID (fr\<lparr>Latch := l, fPage := p, RecLSN := lsn\<rparr>)
                          (bm\<lparr>wal := w\<rparr>)))
           else Some (Inr (fPage fr), set_frame pageID (fr\<lparr>Latch := l\<rparr>) bm))
        })"

definition UnpinPage ::
  "u32 \<Rightarrow> bool \<Rightarrow> bool \<Rightarrow> 'a BufferManager_scheme \<Rightarrow> ((goerr + unit) \<times> 'a BufferManager_scheme) option" where
  "UnpinPage pageID isDirty isWrite bm =
     (case frame_at bm pageID of
        None \<Rightarrow> Some (Inl (ErrNotInPool pageID), bm)
      | Some fr \<Rightarrow>
          if PinCount fr = 0 then Some (Inl (ErrPinZero pageID), bm)
          else do {
            let fr = fr\<lparr>PinCount := PinCount fr - 1\<rparr>;
            let fr = (if isDirty then fr\<lparr>IsDirty := True\<rparr> else fr);
            l \<leftarrow> (if isWrite then wunlock (Latch fr) else runlock (Latch fr));
            Some (Inr (), set_frame pageID (fr\<lparr>Latch := l\<rparr>) bm)
          })"

section \<open>Flushing\<close>

fun flushLoop :: "(u32 \<times> Frame) list \<Rightarrow> 'a BufferManager_scheme \<Rightarrow> (goerr + unit) \<times> 'a BufferManager_scheme" where
  "flushLoop [] bm = (Inr (), bm)"
| "flushLoop ((i, fr) # es) bm =
     (if IsDirty fr
      then (case WritePage (pager bm) i (fPage fr) of
              (Inl e, f) \<Rightarrow> (Inl e, bm\<lparr>pager := f\<rparr>)
            | (Inr _, f) \<Rightarrow>
                flushLoop es (set_frame i (fr\<lparr>IsDirty := False, RecLSN := 0\<rparr>) (bm\<lparr>pager := f\<rparr>)))
      else flushLoop es bm)"

definition FlushAll :: "'a BufferManager_scheme \<Rightarrow> (goerr + unit) \<times> 'a BufferManager_scheme" where
  "FlushAll bm = flushLoop (ranged bm) (bm\<lparr>ticks := Suc (ticks bm)\<rparr>)"

definition BM_Close :: "'a BufferManager_scheme \<Rightarrow> (goerr + unit) \<times> 'a BufferManager_scheme" where
  "BM_Close bm =
     (case FlushAll bm of
        (Inl e, bm) \<Rightarrow> (Inl e, bm)
      | (Inr _, bm) \<Rightarrow> (let (r, f) = Pager_Close (pager bm) in (r, bm\<lparr>pager := f\<rparr>)))"

text \<open>The snapshot is a map; it is given in the order of the range statement that builds it.\<close>

definition GetDirtyPageTable :: "'a BufferManager_scheme \<Rightarrow> (u32 \<times> u64) list" where
  "GetDirtyPageTable bm = map (\<lambda>(i, fr). (i, RecLSN fr)) (filter (\<lambda>(i, fr). IsDirty fr) (ranged bm))"

section \<open>Pages up to their LSN\<close>

definition norm_page :: "page \<Rightarrow> page" where
  "norm_page p = SetLSN p 0"

lemma length_norm_page [simp]: "length (norm_page p) = length p"
  by (simp add: norm_page_def)

lemma norm_page_SetLSN [simp]: "norm_page (SetLSN p l) = norm_page p"
  by (simp add: norm_page_def SetLSN_def blit_idem)

lemma norm_page_idem [simp]: "norm_page (norm_page p) = norm_page p"
  by (simp add: norm_page_def SetLSN_def blit_idem)

lemma norm_page_id: "length p = PageSize \<Longrightarrow> GetLSN p = 0 \<Longrightarrow> norm_page p = p"
proof -
  assume p: "length p = PageSize" "GetLSN p = 0"
  have "Uint64 (sub p 12 8) = 0" using p(2) by (simp add: GetLSN_def)
  then have "PutUint64 0 = sub p 12 8" using p(1) Put64_Uint64 [of "sub p 12 8"] by simp
  then show ?thesis using p(1) by (simp add: norm_page_def SetLSN_def blit_self)
qed

lemma norm_NewPage: "norm_page (SetPageID (NewPage m) i) = SetPageID (NewPage m) i"
proof (rule norm_page_id)
  show "GetLSN (SetPageID (NewPage m) i) = 0"
    by (simp add: NewPage_def Page_Init_def page_getters page_setters Let_def sub_blit_other)
qed simp

section \<open>The logical content of the pool\<close>

definition page_view :: "'a BufferManager_scheme \<Rightarrow> u32 \<Rightarrow> page option" where
  "page_view bm i = map_option norm_page
     (case frame_at bm i of Some fr \<Rightarrow> Some (fPage fr) | None \<Rightarrow> disk_page (pager bm) i)"

definition held :: "'a BufferManager_scheme \<Rightarrow> u32 \<Rightarrow> latch" where
  "held bm i = (case frame_at bm i of Some fr \<Rightarrow> Latch fr | None \<Rightarrow> LFree)"

text \<open>Pages changed through a pointer whose frame is not marked dirty (yet).\<close>

definition frame_clean :: "osfile \<Rightarrow> u32 \<Rightarrow> Frame \<Rightarrow> bool" where
  "frame_clean f i fr \<longleftrightarrow> IsDirty fr \<or> map_option norm_page (disk_page f i) = Some (norm_page (fPage fr))"

definition touched :: "'a BufferManager_scheme \<Rightarrow> u32 set" where
  "touched bm = {i. \<exists>fr. frame_at bm i = Some fr \<and> \<not> frame_clean (pager bm) i fr}"

fun latch_ok :: "latch \<Rightarrow> nat \<Rightarrow> bool" where
  "latch_ok LFree n = (n = 0)"
| "latch_ok (LRead m) n = (n = m \<and> 0 < m)"
| "latch_ok LWrite n = (n = 1)"

definition frame_ok :: "osfile \<Rightarrow> u32 \<Rightarrow> Frame \<Rightarrow> bool" where
  "frame_ok f i fr \<longleftrightarrow> length (fPage fr) = PageSize \<and> latch_ok (Latch fr) (unat (PinCount fr)) \<and>
     disk_page f i \<noteq> None \<and> (Latch fr = LWrite \<or> frame_clean f i fr)"

definition wf_bm :: "'a BufferManager_scheme \<Rightarrow> bool" where
  "wf_bm bm \<longleftrightarrow> fopen (pager bm) \<and> distinct (map fst (pageTable bm)) \<and>
     length (pageTable bm) \<le> maxSize bm \<and>
     (\<forall>i fr. frame_at bm i = Some fr \<longrightarrow> frame_ok (pager bm) i fr) \<and>
     (\<forall>n xs. mset (mapOrder bm n xs) = mset xs)"

text \<open>What a client can observe: the page contents, the latches, the unmarked changes, the
  capacity, whether logging is on and possible, the length of the file, and the fields of the
  client's own state.\<close>

record 'm pool =
  pview :: "u32 \<Rightarrow> page option"
  pheld :: "u32 \<Rightarrow> latch"
  ptouched :: "u32 set"
  pcap :: nat
  plog :: bool
  plogopen :: bool
  pfile :: nat
  pmore :: 'm

definition abs_pool :: "'a BufferManager_scheme \<Rightarrow> 'a pool" where
  "abs_pool bm = \<lparr>pview = page_view bm, pheld = held bm, ptouched = touched bm,
     pcap = maxSize bm, plog = bmWal bm, plogopen = fopen (wfile (wal bm)),
     pfile = length (fbytes (pager bm)), pmore = BufferManager.more bm\<rparr>"

lemma abs_pool_sel [simp]:
  "pview (abs_pool bm) = page_view bm" "pheld (abs_pool bm) = held bm"
  "ptouched (abs_pool bm) = touched bm" "pcap (abs_pool bm) = maxSize bm"
  "plog (abs_pool bm) = bmWal bm" "plogopen (abs_pool bm) = fopen (wfile (wal bm))"
  "pfile (abs_pool bm) = length (fbytes (pager bm))" "pmore (abs_pool bm) = BufferManager.more bm"
  by (simp_all add: abs_pool_def)

lemma frame_at_set_frame [simp]:
  "frame_at (set_frame i fr bm) j = (if j = i then Some fr else frame_at bm j)"
  by (simp add: frame_at_def set_frame_def update_conv)

lemma set_frame_fields [simp]:
  "pager (set_frame i fr bm) = pager bm" "maxSize (set_frame i fr bm) = maxSize bm"
  "wal (set_frame i fr bm) = wal bm" "bmWal (set_frame i fr bm) = bmWal bm"
  "mapOrder (set_frame i fr bm) = mapOrder bm" "ticks (set_frame i fr bm) = ticks bm"
  by (simp_all add: set_frame_def)

lemma frame_at_fields [simp]:
  "frame_at (bm\<lparr>pager := f\<rparr>) i = frame_at bm i" "frame_at (bm\<lparr>wal := w\<rparr>) i = frame_at bm i"
  "frame_at (bm\<lparr>ticks := n\<rparr>) i = frame_at bm i"
  by (simp_all add: frame_at_def)

lemma distinct_set_frame [simp]:
  "distinct (map fst (pageTable bm)) \<Longrightarrow> distinct (map fst (pageTable (set_frame i fr bm)))"
  by (simp add: set_frame_def distinct_update)

lemma length_set_frame_present:
  "frame_at bm i = Some fr' \<Longrightarrow> length (pageTable (set_frame i fr bm)) = length (pageTable bm)"
proof -
  assume "frame_at bm i = Some fr'"
  then have "i \<in> fst ` set (pageTable bm)"
    by (metis frame_at_def map_of_eq_None_iff option.distinct(1))
  then have "map fst (pageTable (set_frame i fr bm)) = map fst (pageTable bm)"
    by (simp add: set_frame_def update_keys)
  then show ?thesis by (metis length_map)
qed

lemma length_set_frame_absent:
  "frame_at bm i = None \<Longrightarrow> length (pageTable (set_frame i fr bm)) = Suc (length (pageTable bm))"
proof -
  assume "frame_at bm i = None"
  then have "i \<notin> set (map fst (pageTable bm))"
    by (simp add: frame_at_def map_of_eq_None_iff)
  then have "map fst (pageTable (set_frame i fr bm)) = map fst (pageTable bm) @ [i]"
    by (simp add: set_frame_def update_keys)
  then show ?thesis by (metis length_append_singleton length_map)
qed

lemma disk_page_rewrite:
  assumes "fopen f" "length p = PageSize" "disk_page f i = Some q"
  shows "disk_page (snd (WritePage f i p)) = (disk_page f)(i := Some p)"
proof
  fix j
  have len: "length (fbytes (snd (WritePage f i p))) = length (fbytes f)"
    using WritePage_ok(3) [OF assms(1,2), of i] assms(3) by (simp add: disk_page_def max_def split: if_splits)
  show "disk_page (snd (WritePage f i p)) j = ((disk_page f)(i := Some p)) j"
  proof (cases "j = i")
    case True
    then show ?thesis using disk_page_WritePage_same [OF assms(1,2), of i] by simp
  next
    case False
    show ?thesis
    proof (cases "disk_page f j")
      case None
      then have "disk_page (snd (WritePage f i p)) j = None"
        by (simp add: disk_page_def len split: if_splits)
      then show ?thesis using False None by simp
    next
      case (Some r)
      then show ?thesis using disk_page_WritePage_other [OF assms(1,2) _ Some] False by simp
    qed
  qed
qed

lemma frame_at_in_keys:
  "frame_at bm i = Some fr \<Longrightarrow> i \<in> set (map fst (pageTable bm))"
  by (metis frame_at_def map_of_eq_None_iff option.distinct(1) list.set_map)

lemma set_ranged:
  assumes "wf_bm bm"
  shows "(i, fr) \<in> set (ranged bm) \<longleftrightarrow> frame_at bm i = Some fr"
proof
  assume "(i, fr) \<in> set (ranged bm)"
  then show "frame_at bm i = Some fr"
    by (auto simp: ranged_def List.map_filter_def)
next
  assume a: "frame_at bm i = Some fr"
  have "set (mapOrder bm (ticks bm) (map fst (pageTable bm))) = set (map fst (pageTable bm))"
    by (rule mset_eq_setD) (use assms in \<open>simp add: wf_bm_def\<close>)
  then have "i \<in> set (mapOrder bm (ticks bm) (map fst (pageTable bm)))"
    using frame_at_in_keys [OF a] by (simp only:)
  then show "(i, fr) \<in> set (ranged bm)"
    using a unfolding ranged_def List.map_filter_def by (force simp: image_iff)
qed

lemma distinct_ranged:
  assumes "wf_bm bm"
  shows "distinct (map fst (ranged bm))"
proof -
  have "distinct (mapOrder bm (ticks bm) (map fst (pageTable bm)))"
  proof -
    have "mset (mapOrder bm (ticks bm) (map fst (pageTable bm))) = mset (map fst (pageTable bm))"
      "distinct (map fst (pageTable bm))"
      using assms unfolding wf_bm_def by simp_all
    then show ?thesis using mset_eq_imp_distinct_iff by blast
  qed
  then show ?thesis
    by (auto simp: ranged_def List.map_filter_def distinct_map inj_on_def)
qed

text \<open>Eviction removes one unpinned frame and leaves everything a client observes alone.\<close>

definition all_pinned :: "'a BufferManager_scheme \<Rightarrow> bool" where
  "all_pinned bm \<longleftrightarrow> (\<forall>i fr. frame_at bm i = Some fr \<longrightarrow> PinCount fr \<noteq> 0)"

lemma firstFind_None:
  assumes "wf_bm bm"
  shows "firstFind bm = None \<longleftrightarrow> all_pinned bm"
proof -
  have "firstFind bm = None \<longleftrightarrow> (\<forall>i fr. (i, fr) \<in> set (ranged bm) \<longrightarrow> PinCount fr \<noteq> 0)"
    by (auto simp: firstFind_def find_None_iff)
  then show ?thesis by (simp add: set_ranged [OF assms] all_pinned_def)
qed

lemma evict_full:
  assumes "wf_bm bm" "all_pinned bm"
  shows "evict bm = (Inl ErrPoolFull, bm\<lparr>ticks := Suc (ticks bm)\<rparr>)"
  using firstFind_None [OF assms(1)] assms(2) by (simp add: evict_def Let_def)

lemma firstFind_unpinned:
  assumes "wf_bm bm" "firstFind bm = Some (i, fr)"
  shows "frame_at bm i = Some fr" "PinCount fr = 0"
  using assms(2) set_ranged [OF assms(1)] unfolding firstFind_def
  by (auto simp: find_Some_iff) (metis nth_mem)+

lemma length_delete_present:
  assumes "distinct (map fst (pageTable bm))" "frame_at bm i = Some fr"
  shows "Suc (length (AList.delete i (pageTable bm))) = length (pageTable bm)"
proof -
  have e: "map fst (AList.delete i (pageTable bm)) = remove1 i (map fst (pageTable bm))"
    using assms(1) by (simp add: delete_keys distinct_remove1_removeAll)
  have "length (AList.delete i (pageTable bm)) = length (pageTable bm) - 1"
    using arg_cong [OF e, of length] frame_at_in_keys [OF assms(2)] by (simp add: length_remove1)
  then show ?thesis using frame_at_in_keys [OF assms(2)] by (cases "pageTable bm") simp_all
qed

lemma evict_ok:
  assumes "wf_bm bm" "\<not> all_pinned bm"
  obtains bm' v fr where "evict bm = (Inr (), bm')" "wf_bm bm'" "abs_pool bm' = abs_pool bm"
    "Suc (length (pageTable bm')) = length (pageTable bm)" "frame_at bm v = Some fr" "PinCount fr = 0"
    "\<forall>j. frame_at bm' j = (if j = v then None else frame_at bm j)"
    "wal bm' = wal bm" "\<And>j. disk_page (pager bm') j = (if j = v \<and> IsDirty fr then Some (fPage fr) else disk_page (pager bm) j)"
proof -
  obtain i fr where Some: "firstFind bm = Some (i, fr)"
    using firstFind_None [OF assms(1)] assms(2) by (cases "firstFind bm") auto
  note fr = firstFind_unpinned [OF assms(1) Some]
  have ok: "frame_ok (pager bm) i fr" using assms(1) fr(1) by (simp add: wf_bm_def)
  have free: "Latch fr = LFree" "length (fPage fr) = 4096"
    using ok fr(2) by (cases "Latch fr"; simp add: frame_ok_def)+
  obtain q where q: "disk_page (pager bm) i = Some q" "frame_clean (pager bm) i fr"
    using ok free(1) by (auto simp: frame_ok_def)
  define f where "f = (if IsDirty fr then snd (WritePage (pager bm) i (fPage fr)) else pager bm)"
  define bm' where "bm' = bm\<lparr>ticks := Suc (ticks bm), pager := f,
      pageTable := AList.delete i (pageTable bm)\<rparr>"
  have op: "fopen (pager bm)" and dst: "distinct (map fst (pageTable bm))"
    using assms(1) by (simp_all add: wf_bm_def)
  have w: "WritePage (pager bm) i (fPage fr) = (Inr (), snd (WritePage (pager bm) i (fPage fr)))"
    using WritePage_ok(1) [OF op free(2)] by (metis prod.collapse)
  have ev: "evict bm = (Inr (), bm')"
    using Some w by (auto simp: evict_def Let_def f_def bm'_def split: prod.splits)
  have pg: "pager bm' = f" by (simp add: bm'_def)
  have disk: "disk_page f j = (if j = i \<and> IsDirty fr then Some (fPage fr) else disk_page (pager bm) j)" for j
    using disk_page_rewrite [OF op free(2) q(1)] by (simp add: f_def)
  have fa: "frame_at bm' j = (if j = i then None else frame_at bm j)" for j
    by (simp add: bm'_def frame_at_def delete_conv)
  have opf: "fopen f" using op WritePage_ok(2) [OF op free(2)] by (simp add: f_def)
  have fl: "length (fbytes f) = length (fbytes (pager bm))"
    using WritePage_ok(3) [OF op free(2), of i] q(1)
    by (simp add: f_def disk_page_def max_def split: if_splits)
  have cl: "frame_clean f j gr = frame_clean (pager bm) j gr" if "j \<noteq> i" for j gr
    using that by (simp add: frame_clean_def disk)
  have "page_view bm' j = page_view bm j" for j
    using q fr(1) by (auto simp: page_view_def fa pg disk frame_clean_def split: option.split)
  moreover have "held bm' j = held bm j" for j
    using fr(1) free(1) by (simp add: held_def fa)
  moreover have "j \<in> touched bm' \<longleftrightarrow> j \<in> touched bm" for j
    using fr(1) q(2) cl by (cases "j = i") (simp_all add: touched_def fa pg)
  ultimately have ab: "abs_pool bm' = abs_pool bm"
    using fl by (auto simp: abs_pool_def bm'_def fun_eq_iff set_eq_iff)
  have len: "Suc (length (pageTable bm')) = length (pageTable bm)"
    using length_delete_present [OF dst fr(1)] by (simp add: bm'_def)
  have "frame_ok f j gr" if "frame_at bm' j = Some gr" for j gr
    using that assms(1) cl disk by (auto simp: fa wf_bm_def frame_ok_def split: if_splits)
  then have "wf_bm bm'"
    using assms(1) len opf unfolding wf_bm_def pg by (auto simp: bm'_def distinct_delete)
  then show ?thesis using that ev ab len fr fa disk by (simp add: bm'_def)
qed


section \<open>Installing a frame\<close>

lemma set_frame_more [simp]: "BufferManager.more (set_frame i fr bm) = BufferManager.more bm"
  by (simp add: set_frame_def)

lemma wf_set_frame:
  assumes "wf_bm bm" "frame_ok (pager bm) i fr"
    and "frame_at bm i \<noteq> None \<or> length (pageTable bm) < maxSize bm"
  shows "wf_bm (set_frame i fr bm)"
proof -
  have "length (pageTable (set_frame i fr bm)) \<le> maxSize bm"
  proof (cases "frame_at bm i")
    case None
    then show ?thesis using assms(3) length_set_frame_absent [OF None, of fr] by simp
  next
    case (Some a)
    then show ?thesis using assms(1) length_set_frame_present [OF Some, of fr] by (simp add: wf_bm_def)
  qed
  then show ?thesis using assms(1,2) by (simp add: wf_bm_def)
qed

lemma abs_set_frame:
  "abs_pool (set_frame i fr bm) =
     (abs_pool bm)\<lparr>pview := (page_view bm)(i \<mapsto> norm_page (fPage fr)),
        pheld := (held bm)(i := Latch fr),
        ptouched := (if frame_clean (pager bm) i fr then touched bm - {i} else insert i (touched bm))\<rparr>"
  by (auto simp: abs_pool_def fun_eq_iff set_eq_iff page_view_def held_def touched_def
      split: option.split)

lemma obs_wal [simp]:
  "page_view (bm\<lparr>wal := w\<rparr>) = page_view bm" "held (bm\<lparr>wal := w\<rparr>) = held bm"
  "touched (bm\<lparr>wal := w\<rparr>) = touched bm" "wf_bm (bm\<lparr>wal := w\<rparr>) = wf_bm bm"
  by (simp_all add: fun_eq_iff page_view_def held_def touched_def wf_bm_def split: option.split)

lemma abs_wal: "abs_pool (bm\<lparr>wal := w\<rparr>) = (abs_pool bm)\<lparr>plogopen := fopen (wfile w)\<rparr>"
  by (simp add: abs_pool_def)

text \<open>Frames in use by a client.\<close>

definition busy :: "'m pool \<Rightarrow> u32 set" where
  "busy a = {i. pheld a i \<noteq> LFree}"

lemma unat_zero_iff32: "unat (w :: u32) = 0 \<longleftrightarrow> w = 0"
  by (simp add: unat_eq_0)

lemma wf_pinned_iff:
  assumes "wf_bm bm" "frame_at bm i = Some fr"
  shows "PinCount fr = 0 \<longleftrightarrow> Latch fr = LFree"
proof -
  have "latch_ok (Latch fr) (unat (PinCount fr))"
    using assms by (simp add: wf_bm_def frame_ok_def)
  then show ?thesis by (cases "Latch fr") (auto simp: unat_zero_iff32 [symmetric])
qed

lemma busy_subset: "busy (abs_pool bm) \<subseteq> set (map fst (pageTable bm))"
  unfolding busy_def held_def abs_pool_sel using frame_at_in_keys by (fastforce split: option.splits)

lemma finite_busy [simp]: "finite (busy (abs_pool bm))"
  by (rule finite_subset [OF busy_subset]) simp

lemma full_busy:
  assumes "wf_bm bm" "all_pinned bm"
  shows "card (busy (abs_pool bm)) = length (pageTable bm)"
proof -
  have "i \<in> busy (abs_pool bm)" if i: "i \<in> set (map fst (pageTable bm))" for i
  proof -
    obtain fr where f: "frame_at bm i = Some fr"
      using i by (cases "frame_at bm i") (auto simp: frame_at_def map_of_eq_None_iff)
    then show ?thesis
      using assms(2) wf_pinned_iff [OF assms(1) f] by (simp add: busy_def held_def all_pinned_def)
  qed
  then have "busy (abs_pool bm) = set (map fst (pageTable bm))"
    using busy_subset [of bm] by blast
  moreover have "distinct (map fst (pageTable bm))" using assms(1) by (simp add: wf_bm_def)
  ultimately show ?thesis by (metis distinct_card length_map)
qed

text \<open>A page can be brought in when it is already in use or when some frame is not.\<close>

definition room :: "'m pool \<Rightarrow> u32 \<Rightarrow> bool" where
  "room a i \<longleftrightarrow> pheld a i \<noteq> LFree \<or> card (busy a) < pcap a"

lemma getFrame_ok:
  assumes "wf_bm bm" "page_view bm i = Some p" "room (abs_pool bm) i"
  obtains bm0 fr where
    "getFrame i m bm = (Inr fr, set_frame i fr bm0)" "wf_bm bm0" "abs_pool bm0 = abs_pool bm"
    "frame_at bm0 i \<noteq> None \<or> length (pageTable bm0) < maxSize bm0"
    "frame_ok (pager bm0) i (fr\<lparr>PinCount := PinCount fr - 1\<rparr>)" "norm_page (fPage fr) = p"
    "Latch fr = held bm i" "frame_clean (pager bm0) i fr \<longleftrightarrow> i \<notin> touched bm" "wal bm0 = wal bm"
proof (cases "frame_at bm i")
  case (Some fr)
  define fr' where "fr' = fr\<lparr>PinCount := PinCount fr + 1\<rparr>"
  have "getFrame i m bm = (Inr fr', set_frame i fr' bm)"
    by (simp add: getFrame_def Some Let_def fr'_def)
  moreover have "frame_ok (pager bm) i (fr'\<lparr>PinCount := PinCount fr' - 1\<rparr>)"
    using assms(1) Some by (simp add: wf_bm_def fr'_def frame_ok_def frame_clean_def)
  moreover have "norm_page (fPage fr') = p" "Latch fr' = held bm i"
    using assms(2) Some by (simp_all add: page_view_def held_def fr'_def)
  moreover have "frame_clean (pager bm) i fr' \<longleftrightarrow> i \<notin> touched bm"
    using Some by (simp add: touched_def fr'_def frame_clean_def)
  ultimately show ?thesis using that assms(1) Some by blast
next
  case None
  have free: "held bm i = LFree" "i \<notin> touched bm" using None by (simp_all add: held_def touched_def)
  obtain bm0 where e: "(if length (pageTable bm) \<ge> maxSize bm then evict bm else (Inr (), bm)) = (Inr (), bm0)"
    and wf: "wf_bm bm0" and ab: "abs_pool bm0 = abs_pool bm" and fa: "frame_at bm0 i = None"
    and len: "length (pageTable bm0) < maxSize bm0" and wl: "wal bm0 = wal bm"
  proof (cases "length (pageTable bm) \<ge> maxSize bm")
    case True
    have np: "\<not> all_pinned bm"
    proof
      assume "all_pinned bm"
      from full_busy [OF assms(1) this] show False
        using True assms(3) free(1) by (simp add: room_def)
    qed
    obtain bm' v fr where ev: "evict bm = (Inr (), bm')" "wf_bm bm'" "abs_pool bm' = abs_pool bm"
      "Suc (length (pageTable bm')) = length (pageTable bm)"
      "\<forall>j. frame_at bm' j = (if j = v then None else frame_at bm j)" "wal bm' = wal bm"
      using evict_ok [OF assms(1) np] by metis
    have "maxSize bm' = maxSize bm" using arg_cong [OF ev(3), of pcap] by simp
    moreover have "length (pageTable bm) \<le> maxSize bm" using assms(1) by (simp add: wf_bm_def)
    ultimately show ?thesis using that [of bm'] True ev None by simp
  next
    case False
    then show ?thesis using that [of bm] assms(1) None by simp
  qed
  have v: "page_view bm0 i = Some p" using arg_cong [OF ab, of pview] assms(2) by simp
  then obtain q where q: "disk_page (pager bm0) i = Some q" "norm_page q = p"
    using fa by (auto simp: page_view_def)
  define fr where "fr = \<lparr>fPage = q, IsDirty = False, PinCount = 1, ReferenceBits = 0,
                        Latch = LFree, RecLSN = 0\<rparr>"
  have op: "fopen (pager bm0)" using wf by (simp add: wf_bm_def)
  have g: "getFrame i m bm = (Inr fr, set_frame i fr bm0)"
    using q(1) op by (simp add: getFrame_def None e ReadPage_disk fr_def Let_def)
  have ok: "frame_ok (pager bm0) i (fr\<lparr>PinCount := PinCount fr - 1\<rparr>)" "frame_clean (pager bm0) i fr"
    using q disk_page_length [OF q(1)] by (simp_all add: fr_def frame_ok_def frame_clean_def)
  show ?thesis
    by (rule that [OF g wf ab]) (use ok q free len wl in \<open>simp_all add: fr_def\<close>)
qed

lemma getFrame_full:
  assumes "wf_bm bm" "frame_at bm i = None" "all_pinned bm" "length (pageTable bm) = maxSize bm"
  shows "getFrame i m bm = (Inl ErrPoolFull, bm\<lparr>ticks := Suc (ticks bm)\<rparr>)"
  by (simp add: getFrame_def assms evict_full)


section \<open>The pool implements its abstract state\<close>

definition implements :: "'a BufferManager_scheme \<Rightarrow> 'a pool \<Rightarrow> bool" where
  "implements bm a \<longleftrightarrow> wf_bm bm \<and> touched bm \<subseteq> ptouched a \<and>
     ptouched a \<subseteq> {i. pheld a i = LWrite} \<and> a = (abs_pool bm)\<lparr>ptouched := ptouched a\<rparr>"

lemma implements_wf: "implements bm a \<Longrightarrow> wf_bm bm"
  by (simp add: implements_def)

lemma implements_sel:
  assumes "implements bm a"
  shows "page_view bm = pview a" "held bm = pheld a" "maxSize bm = pcap a" "bmWal bm = plog a"
    "fopen (wfile (wal bm)) = plogopen a" "length (fbytes (pager bm)) = pfile a"
    "BufferManager.more bm = pmore a" "touched bm \<subseteq> ptouched a" "ptouched a \<subseteq> {i. pheld a i = LWrite}"
    "busy (abs_pool bm) = busy a" "room (abs_pool bm) = room a"
proof -
  have e: "(abs_pool bm)\<lparr>ptouched := ptouched a\<rparr> = a" using assms by (simp add: implements_def)
  show "page_view bm = pview a" "held bm = pheld a" "maxSize bm = pcap a" "bmWal bm = plog a"
    "fopen (wfile (wal bm)) = plogopen a" "length (fbytes (pager bm)) = pfile a"
    "BufferManager.more bm = pmore a" "busy (abs_pool bm) = busy a" "room (abs_pool bm) = room a"
    by (subst e [symmetric], simp add: busy_def room_def fun_eq_iff)+
  show "touched bm \<subseteq> ptouched a" "ptouched a \<subseteq> {i. pheld a i = LWrite}"
    using assms by (simp_all add: implements_def)
qed

lemma wf_frame: "wf_bm bm \<Longrightarrow> frame_at bm i = Some fr \<Longrightarrow> frame_ok (pager bm) i fr"
  by (simp add: wf_bm_def)

lemma touched_latched: "wf_bm bm \<Longrightarrow> touched bm \<subseteq> {i. held bm i = LWrite}"
  using wf_frame by (fastforce simp: touched_def held_def frame_ok_def)

lemma implements_abs: "wf_bm bm \<Longrightarrow> implements bm (abs_pool bm)"
  using touched_latched by (simp add: implements_def)

lemma implementsI:
  assumes "wf_bm bm'" "abs_pool bm' = b" "a = b\<lparr>ptouched := T\<rparr>" "ptouched b \<subseteq> T"
    "T \<subseteq> {i. pheld b i = LWrite}"
  shows "implements bm' a"
  using assms by (auto simp: implements_def)

lemma pview_page:
  assumes "implements bm a" "pview a i = Some p"
  shows "length p = PageSize" "norm_page p = p"
proof -
  have v: "page_view bm i = Some p" using implements_sel(1) [OF assms(1)] assms(2) by simp
  have "length p = PageSize \<and> norm_page p = p"
  proof (cases "frame_at bm i")
    case None
    then show ?thesis using v disk_page_length by (auto simp: page_view_def)
  next
    case (Some fr)
    then have "frame_ok (pager bm) i fr" using assms(1) by (simp add: implements_def wf_bm_def)
    then show ?thesis using v Some by (auto simp: page_view_def frame_ok_def)
  qed
  then show "length p = PageSize" "norm_page p = p" by simp_all
qed

lemma held_frame:
  assumes "implements bm a" "pheld a i \<noteq> LFree"
  obtains fr where "frame_at bm i = Some fr" "Latch fr = pheld a i" "frame_ok (pager bm) i fr"
    "pview a i = Some (norm_page (fPage fr))"
proof -
  have "held bm i = pheld a i" "page_view bm i = pview a i" "wf_bm bm"
    using implements_sel(1,2) [OF assms(1)] assms(1) by (simp_all add: implements_def)
  then show ?thesis using that assms(2)
    by (cases "frame_at bm i") (auto simp: held_def page_view_def wf_bm_def)
qed

text \<open>A held page pointer reads the current content of the page.\<close>

lemma impl_getPage:
  assumes "implements bm a" "pheld a i \<noteq> LFree"
  obtains q where "getPage i bm = Some q" "pview a i = Some (norm_page q)" "length q = PageSize"
  by (rule held_frame [OF assms]) (rule that, auto simp: getPage_def frame_ok_def)

fun latch_count :: "latch \<Rightarrow> nat" where
  "latch_count LFree = 0"
| "latch_count (LRead n) = n"
| "latch_count LWrite = 1"

lemma latch_ok_count: "latch_ok l n \<longleftrightarrow> n = latch_count l \<and> l \<noteq> LRead 0"
  by (cases l) auto

lemma unat_pred32: "(w :: u32) \<noteq> 0 \<Longrightarrow> unat (w - 1) = unat w - 1"
  by (simp add: unat_minus_one)

text \<open>The state after a fetch has installed the frame with its new latch.\<close>

lemma impl_fetch:
  assumes "implements bm a" "pview a i = Some p" "room a i" "pheld a i \<noteq> LWrite"
    and l: "latch_count l = Suc (latch_count (pheld a i))" "latch_count l < 2 ^ 32" "l \<noteq> LRead 0"
  obtains bm0 fr where "getFrame i m bm = (Inr fr, set_frame i fr bm0)" "Latch fr = pheld a i"
    "norm_page (fPage fr) = p" "bmWal bm0 = plog a" "fopen (wfile (wal bm0)) = plogopen a"
    "\<And>lsn rl w. \<lbrakk>fopen (wfile w) = plogopen a\<rbrakk> \<Longrightarrow>
       implements (set_frame i (fr\<lparr>Latch := l, fPage := SetLSN (fPage fr) lsn, RecLSN := rl\<rparr>) (bm0\<lparr>wal := w\<rparr>))
         (a\<lparr>pheld := (pheld a)(i := l)\<rparr>)"
    "implements (set_frame i (fr\<lparr>Latch := l\<rparr>) bm0) (a\<lparr>pheld := (pheld a)(i := l)\<rparr>)"
    "wal bm0 = wal bm"
proof -
  note sel = implements_sel [OF assms(1)]
  have wf: "wf_bm bm" using assms(1) by (rule implements_wf)
  have v: "page_view bm i = Some p" "room (abs_pool bm) i" using sel assms(2,3) by simp_all
  obtain bm0 fr where g: "getFrame i m bm = (Inr fr, set_frame i fr bm0)" and wf0: "wf_bm bm0"
    and ab: "abs_pool bm0 = abs_pool bm"
    and sp: "frame_at bm0 i \<noteq> None \<or> length (pageTable bm0) < maxSize bm0"
    and ok: "frame_ok (pager bm0) i (fr\<lparr>PinCount := PinCount fr - 1\<rparr>)" and p: "norm_page (fPage fr) = p"
    and la: "Latch fr = held bm i" and cl: "frame_clean (pager bm0) i fr \<longleftrightarrow> i \<notin> touched bm"
    and wl: "wal bm0 = wal bm"
    using getFrame_ok [OF wf v, of m] by metis
  have pc: "unat (PinCount fr - 1) = latch_count (pheld a i)"
    using ok la sel(2) by (simp add: frame_ok_def latch_ok_count)
  have "unat (PinCount fr) = latch_count l"
  proof (cases "PinCount fr = 0")
    case True
    then have "latch_count (pheld a i) = unat (- 1 :: u32)" using pc by simp
    moreover have "unat (- 1 :: u32) = 2 ^ 32 - 1" by (simp add: unsigned_minus_1_eq_mask mask_eq_exp_minus_1)
    ultimately have "latch_count (pheld a i) = 2 ^ 32 - 1" by (simp only:)
    then show ?thesis using l(1,2) by simp
  next
    case False
    then have "unat (PinCount fr) \<noteq> 0" by (simp add: unat_zero_iff32)
    then show ?thesis using pc l(1) unat_pred32 [OF False] by simp
  qed
  then have lok: "latch_ok l (unat (PinCount fr))" using l(3) by (simp add: latch_ok_count)
  have gen: "implements (set_frame i (fr\<lparr>Latch := l, fPage := q, RecLSN := rl\<rparr>) (bm0\<lparr>wal := w\<rparr>))
         (a\<lparr>pheld := (pheld a)(i := l)\<rparr>)" (is "implements ?b _")
    if q: "norm_page q = p" and w: "fopen (wfile w) = plogopen a" for q rl w
  proof -
    have nt: "i \<notin> touched bm" "i \<notin> ptouched a"
      using assms(4) sel(2,9) touched_latched [OF wf] by auto
    have cl': "frame_clean (pager bm0) i (fr\<lparr>Latch := l, fPage := q, RecLSN := rl\<rparr>)"
      using cl nt(1) q p by (simp add: frame_clean_def)
    have "length q = PageSize" "disk_page (pager bm0) i \<noteq> None"
      using ok p q by (simp_all add: frame_ok_def) (metis length_norm_page)
    then have fok: "frame_ok (pager (bm0\<lparr>wal := w\<rparr>)) i (fr\<lparr>Latch := l, fPage := q, RecLSN := rl\<rparr>)"
      using lok cl' by (simp add: frame_ok_def)
    have wfb: "wf_bm ?b"
      by (rule wf_set_frame [OF _ fok]) (use sp wf0 in simp_all)
    have abb: "abs_pool ?b = (abs_pool bm)\<lparr>plogopen := fopen (wfile w), pheld := (held bm)(i := l)\<rparr>"
    proof -
      have "page_view bm0 = page_view bm" "held bm0 = held bm" "touched bm0 = touched bm"
        using arg_cong [OF ab, of pview] arg_cong [OF ab, of pheld] arg_cong [OF ab, of ptouched]
        by simp_all
      then show ?thesis
        using cl' q v(1) nt(1) by (simp add: abs_set_frame abs_wal ab fun_upd_idem)
    qed
    show ?thesis
      by (rule implementsI [OF wfb abb, where T = "ptouched a"])
        (use sel nt(2) w in \<open>auto intro!: pool.equality\<close>)
  qed
  have "bm0\<lparr>wal := wal bm0\<rparr> = bm0" by simp
  have op: "fopen (wfile (wal bm0)) = plogopen a" "bmWal bm0 = plog a"
    using sel(5) wl sel(4) arg_cong [OF ab, of plog] by simp_all
  show ?thesis
  proof (rule that [OF g _ p op(2) op(1)])
    show "Latch fr = pheld a i" using la sel(2) by simp
    show "implements (set_frame i (fr\<lparr>Latch := l, fPage := SetLSN (fPage fr) lsn, RecLSN := rl\<rparr>) (bm0\<lparr>wal := w\<rparr>))
         (a\<lparr>pheld := (pheld a)(i := l)\<rparr>)" if "fopen (wfile w) = plogopen a" for lsn rl w
      by (rule gen) (use p that in simp_all)
    show "implements (set_frame i (fr\<lparr>Latch := l\<rparr>) bm0) (a\<lparr>pheld := (pheld a)(i := l)\<rparr>)"
      using gen [OF p op(1), of "RecLSN fr"] by simp
  qed (rule wl)
qed

lemma Append_open:
  assumes "fopen (wfile w)"
  shows "fst (Append w t p pr opc k v) = Inr (currentLSN w)" "fopen (wfile (snd (Append w t p pr opc k v)))"
  using assms by (simp_all add: Append_def AppendFile_def Let_def)

lemma Append_closed:
  assumes "\<not> fopen (wfile w)"
  shows "Append w t p pr opc k v = (Inl ErrClosed, w)"
  using assms by (simp add: Append_def AppendFile_def Let_def)

lemma Append_keeps_open: "fopen (wfile (snd (Append w t p pr opc k v))) = fopen (wfile w)"
  using Append_open(2) [of w t p pr opc k v] Append_closed [of w t p pr opc k v]
  by (cases "fopen (wfile w)") simp_all

lemma alist_update_twice: "AList.update k v (AList.update k u al) = AList.update k v al"
  by (induction al) auto

lemma set_frame_twice [simp]: "set_frame i x (set_frame i y bm) = set_frame i x bm"
  by (simp add: set_frame_def alist_update_twice)

lemma set_frame_wal [simp]: "(set_frame i x bm)\<lparr>wal := w\<rparr> = set_frame i x (bm\<lparr>wal := w\<rparr>)"
  by (simp add: set_frame_def)

lemma FetchPageForRead_ok:
  assumes "implements bm a" "pview a i = Some p" "room a i" "rlock (pheld a i) = Some l"
    "latch_count l < 2 ^ 32"
  obtains q bm' where "FetchPageForRead i m bm = Some (Inr q, bm')" "norm_page q = p"
    "implements bm' (a\<lparr>pheld := (pheld a)(i := l)\<rparr>)" "wal bm' = wal bm"
proof -
  have l: "latch_count l = Suc (latch_count (pheld a i))" "l \<noteq> LRead 0" "pheld a i \<noteq> LWrite"
    using assms(4) by (cases "pheld a i"; auto)+
  obtain bm0 fr where f: "getFrame i m bm = (Inr fr, set_frame i fr bm0)" "Latch fr = pheld a i"
    "norm_page (fPage fr) = p" "implements (set_frame i (fr\<lparr>Latch := l\<rparr>) bm0) (a\<lparr>pheld := (pheld a)(i := l)\<rparr>)"
    "wal bm0 = wal bm"
    using impl_fetch [OF assms(1-3) l(3,1) assms(5) l(2), of m] by metis
  show ?thesis
    by (rule that [OF _ f(3,4)]) (use f assms(4) in \<open>simp_all add: FetchPageForRead_def\<close>)
qed

lemma FetchPageForWrite_ok:
  assumes "implements bm a" "pview a i = Some p" "room a i" "pheld a i = LFree"
    "plog a \<longrightarrow> plogopen a"
  obtains q bm' where "FetchPageForWrite i m bm = Some (Inr q, bm')" "norm_page q = p"
    "implements bm' (a\<lparr>pheld := (pheld a)(i := LWrite)\<rparr>)"
proof -
  obtain bm0 fr where f: "getFrame i m bm = (Inr fr, set_frame i fr bm0)" "Latch fr = pheld a i"
    "norm_page (fPage fr) = p" "bmWal bm0 = plog a" "fopen (wfile (wal bm0)) = plogopen a"
    and st: "\<And>lsn rl w. fopen (wfile w) = plogopen a \<Longrightarrow>
       implements (set_frame i (fr\<lparr>Latch := LWrite, fPage := SetLSN (fPage fr) lsn, RecLSN := rl\<rparr>)
         (bm0\<lparr>wal := w\<rparr>)) (a\<lparr>pheld := (pheld a)(i := LWrite)\<rparr>)"
    and pl: "implements (set_frame i (fr\<lparr>Latch := LWrite\<rparr>) bm0) (a\<lparr>pheld := (pheld a)(i := LWrite)\<rparr>)"
    using impl_fetch [OF assms(1-3), where l = LWrite and m = m] assms(4) by simp metis
  show ?thesis
  proof (cases "\<not> IsDirty fr \<and> plog a")
    case True
    then have op: "fopen (wfile (wal bm0))" using assms(5) f(5) by simp
    let ?A = "Append (wal bm0) 0 i 0 LogOpFullPage [] (fPage fr)"
    have A: "?A = (Inr (currentLSN (wal bm0)), snd ?A)" "fopen (wfile (snd ?A)) = plogopen a"
      using Append_open [OF op] f(5) op by (metis prod.collapse, simp)
    show ?thesis
    proof (rule that [OF _ _ st [OF A(2), of "currentLSN (wal bm0)" "currentLSN (wal bm0)"]])
      show "FetchPageForWrite i m bm = Some (Inr (SetLSN (fPage fr) (currentLSN (wal bm0))),
          set_frame i (fr\<lparr>Latch := LWrite, fPage := SetLSN (fPage fr) (currentLSN (wal bm0)),
            RecLSN := currentLSN (wal bm0)\<rparr>) (bm0\<lparr>wal := snd ?A\<rparr>))"
        unfolding FetchPageForWrite_def f(1) using True f(2,4) assms(4)
        by (simp, subst A(1), simp add: Let_def)
    qed (use f(3) in simp)
  next
    case False
    show ?thesis
      by (rule that [OF _ f(3) pl])
        (use False f assms(4) in \<open>auto simp: FetchPageForWrite_def Let_def\<close>)
  qed
qed

lemma UnpinPage_ok:
  assumes "implements bm a" "if w then pheld a i = LWrite else \<exists>n. pheld a i = LRead n"
    "w \<longrightarrow> d \<or> i \<notin> ptouched a"
  obtains bm' where "UnpinPage i d w bm = Some (Inr (), bm')"
    "implements bm' (a\<lparr>pheld := (pheld a)(i := the (if w then Some LFree else runlock (pheld a i))),
       ptouched := ptouched a - {i}\<rparr>)" "wal bm' = wal bm"
proof -
  note sel = implements_sel [OF assms(1)]
  define l where "l = the (if w then Some LFree else runlock (pheld a i))"
  have h: "pheld a i \<noteq> LFree" using assms(2) by (auto split: if_splits)
  obtain fr where fr: "frame_at bm i = Some fr" "Latch fr = pheld a i" "frame_ok (pager bm) i fr"
    "pview a i = Some (norm_page (fPage fr))"
    using held_frame [OF assms(1) h] by metis
  have pc: "PinCount fr \<noteq> 0" using wf_pinned_iff [OF implements_wf [OF assms(1)] fr(1)] fr(2) h by simp
  have ul: "(if w then wunlock (Latch fr) else runlock (Latch fr)) = Some l"
    using assms(2) fr(2) by (auto simp: l_def split: if_splits)
  define fr' where "fr' = fr\<lparr>PinCount := PinCount fr - 1, IsDirty := IsDirty fr \<or> d, Latch := l\<rparr>"
  have eq: "UnpinPage i d w bm = Some (Inr (), set_frame i fr' bm)"
    using pc ul by (auto simp: UnpinPage_def fr(1) Let_def fr'_def)
  have lok: "latch_ok l (unat (PinCount fr - 1))"
    using fr(2,3) assms(2) unat_pred32 [OF pc] by (auto simp: frame_ok_def l_def split: if_splits)
  have cl: "frame_clean (pager bm) i fr'"
  proof -
    have "IsDirty fr \<or> d \<or> frame_clean (pager bm) i fr"
      using assms(2,3) fr sel(8) by (auto simp: frame_ok_def touched_def split: if_splits)
    then show ?thesis by (auto simp: frame_clean_def fr'_def)
  qed
  have fok: "frame_ok (pager bm) i fr'"
    using fr(3) lok cl by (simp add: frame_ok_def fr'_def)
  have wf: "wf_bm (set_frame i fr' bm)"
    by (rule wf_set_frame [OF implements_wf [OF assms(1)] fok]) (simp add: fr(1))
  have ab: "abs_pool (set_frame i fr' bm) = (abs_pool bm)\<lparr>pheld := (held bm)(i := l), ptouched := touched bm - {i}\<rparr>"
    using cl fr(4) sel(1) by (simp add: abs_set_frame fr'_def fun_upd_idem)
  have "implements (set_frame i fr' bm) (a\<lparr>pheld := (pheld a)(i := l), ptouched := ptouched a - {i}\<rparr>)"
    by (rule implementsI [OF wf ab, where T = "ptouched a - {i}"])
      (use sel in \<open>auto intro!: pool.equality\<close>)
  then show ?thesis using that eq by (simp add: l_def)
qed

lemma putPage_ok:
  assumes "implements bm a" "pheld a i = LWrite" "length p = PageSize"
  shows "implements (putPage i p bm)
    (a\<lparr>pview := (pview a)(i \<mapsto> norm_page p), ptouched := insert i (ptouched a)\<rparr>)"
    "getPage i (putPage i p bm) = Some p" "wal (putPage i p bm) = wal bm"
proof -
  note sel = implements_sel [OF assms(1)]
  have "pheld a i \<noteq> LFree" using assms(2) by simp
  then obtain fr where fr: "frame_at bm i = Some fr" "Latch fr = pheld a i" "frame_ok (pager bm) i fr"
    using held_frame [OF assms(1)] by metis
  let ?fr = "fr\<lparr>fPage := p\<rparr>"
  have eq: "putPage i p bm = set_frame i ?fr bm" by (simp add: putPage_def fr(1))
  have fok: "frame_ok (pager bm) i ?fr" using fr assms(2,3) by (simp add: frame_ok_def)
  have wf: "wf_bm (set_frame i ?fr bm)"
    by (rule wf_set_frame [OF implements_wf [OF assms(1)] fok]) (simp add: fr(1))
  show "implements (putPage i p bm)
    (a\<lparr>pview := (pview a)(i \<mapsto> norm_page p), ptouched := insert i (ptouched a)\<rparr>)"
    unfolding eq
    by (rule implementsI [OF wf abs_set_frame, where T = "insert i (ptouched a)"])
      (use sel fr(2) assms(2) in \<open>auto intro!: pool.equality split: if_splits\<close>)
  show "getPage i (putPage i p bm) = Some p" "wal (putPage i p bm) = wal bm"
    by (simp_all add: eq getPage_def)
qed

lemma impl_wal:
  assumes "implements bm a" "fopen (wfile w) = plogopen a"
  shows "implements (bm\<lparr>wal := w\<rparr>) a"
  by (rule implementsI [OF _ abs_wal, where T = "ptouched a"])
    (use assms implements_sel [OF assms(1)] in \<open>auto intro!: pool.equality dest: implements_wf\<close>)

lemma getPage_wal [simp]: "getPage i (bm\<lparr>wal := w\<rparr>) = getPage i bm"
  by (simp add: getPage_def)

section \<open>Growing the file\<close>

lemma impl_allocate:
  assumes "implements bm a" "PageSize dvd pfile a" "pfile a div PageSize < 2 ^ 32"
  obtains i f where "AllocatePage (pager bm) m = (Inr i, f)" "unat i = pfile a div PageSize"
    "pview a i = None"
    "implements (bm\<lparr>pager := f\<rparr>)
       (a\<lparr>pview := (pview a)(i \<mapsto> SetPageID (NewPage m) i), pfile := pfile a + PageSize\<rparr>)"
proof -
  note sel = implements_sel [OF assms(1)]
  have wf: "wf_bm bm" using assms(1) by (rule implements_wf)
  have wd: "wf_disk (pager bm)"
    using wf assms(2,3) sel(6) by (simp add: wf_disk_def page_count_def wf_bm_def)
  obtain i f where al: "AllocatePage (pager bm) m = (Inr i, f)" "disk_page (pager bm) i = None"
    "unat i = page_count (pager bm)" "length (fbytes f) = length (fbytes (pager bm)) + PageSize" "fopen f"
    "disk_page f = (disk_page (pager bm))(i \<mapsto> SetPageID (NewPage m) i)"
    using AllocatePage_spec [OF wd, of m] by metis
  have nf: "frame_at bm i = None"
    using wf_frame [OF wf, of i] al(2) by (cases "frame_at bm i") (auto simp: frame_ok_def)
  have norm: "norm_page (SetPageID (NewPage m) i) = SetPageID (NewPage m) i"
    by (simp add: norm_NewPage)
  let ?bm = "bm\<lparr>pager := f\<rparr>"
  have cl: "frame_clean f j fr = frame_clean (pager bm) j fr" if "frame_at bm j = Some fr" for j fr
    using that nf al(6) by (auto simp: frame_clean_def)
  have "page_view ?bm j = ((page_view bm)(i \<mapsto> SetPageID (NewPage m) i)) j" for j
    using nf norm al(6) by (auto simp: page_view_def split: option.split)
  moreover have "j \<in> touched ?bm \<longleftrightarrow> j \<in> touched bm" for j
    using cl by (auto simp: touched_def)
  moreover have "held ?bm = held bm" by (simp add: fun_eq_iff held_def)
  ultimately have ab: "abs_pool ?bm = (abs_pool bm)\<lparr>pview := (page_view bm)(i \<mapsto> SetPageID (NewPage m) i),
      pfile := length (fbytes (pager bm)) + PageSize\<rparr>"
    using al(4) by (auto simp: abs_pool_def fun_eq_iff set_eq_iff)
  have "frame_ok f j fr" if "frame_at bm j = Some fr" for j fr
    using wf_frame [OF wf that] cl [OF that] that nf al(6) by (auto simp: frame_ok_def)
  then have wfb: "wf_bm ?bm" using wf al(5) by (simp add: wf_bm_def)
  have none: "pview a i = None" using nf al(2) sel(1) [symmetric] by (simp add: page_view_def)
  show ?thesis
    by (rule that [OF al(1) _ none], use al(3) sel(6) in \<open>simp add: page_count_def\<close>)
      (rule implementsI [OF wfb ab, where T = "ptouched a"], use sel in \<open>auto intro!: pool.equality\<close>)
qed

section \<open>Flushing\<close>

lemma flush_step:
  assumes "wf_bm bm" "frame_at bm i = Some fr" "IsDirty fr"
  defines "f \<equiv> snd (WritePage (pager bm) i (fPage fr))"
  defines "bm' \<equiv> set_frame i (fr\<lparr>IsDirty := False, RecLSN := 0\<rparr>) (bm\<lparr>pager := f\<rparr>)"
  shows "WritePage (pager bm) i (fPage fr) = (Inr (), f)" "wf_bm bm'" "abs_pool bm' = abs_pool bm"
    "disk_page f = (disk_page (pager bm))(i \<mapsto> fPage fr)"
proof -
  have ok: "frame_ok (pager bm) i fr" by (rule wf_frame [OF assms(1,2)])
  then obtain q where len: "length (fPage fr) = PageSize" and q: "disk_page (pager bm) i = Some q"
    by (auto simp: frame_ok_def)
  have op: "fopen (pager bm)" using assms(1) by (simp add: wf_bm_def)
  show "WritePage (pager bm) i (fPage fr) = (Inr (), f)"
    using WritePage_ok(1) [OF op len] unfolding f_def by (metis prod.collapse)
  show disk: "disk_page f = (disk_page (pager bm))(i \<mapsto> fPage fr)"
    unfolding f_def by (rule disk_page_rewrite [OF op len q])
  have fl: "length (fbytes f) = length (fbytes (pager bm))" "fopen f"
    using WritePage_ok(2,3) [OF op len, of i] q
    by (simp_all add: f_def disk_page_def max_def split: if_splits)
  have pg: "pager bm' = f" by (simp add: bm'_def)
  have fa: "frame_at bm' j = (if j = i then Some (fr\<lparr>IsDirty := False, RecLSN := 0\<rparr>) else frame_at bm j)" for j
    by (simp add: bm'_def)
  have cl: "frame_clean f j gr = frame_clean (pager bm) j gr" if "j \<noteq> i" for j gr
    using that disk by (simp add: frame_clean_def)
  have ci: "frame_clean f i (fr\<lparr>IsDirty := False, RecLSN := 0\<rparr>)" "frame_clean (pager bm) i fr"
    using disk assms(3) by (simp_all add: frame_clean_def)
  have "page_view bm' j = page_view bm j" for j
    using assms(2) disk by (auto simp: page_view_def fa pg split: option.split)
  moreover have "held bm' j = held bm j" for j
    using assms(2) by (simp add: held_def fa)
  moreover have "j \<in> touched bm' \<longleftrightarrow> j \<in> touched bm" for j
    using assms(2) ci cl by (cases "j = i") (simp_all add: touched_def fa pg)
  ultimately show "abs_pool bm' = abs_pool bm"
    using fl by (auto simp: abs_pool_def fun_eq_iff set_eq_iff pg) (simp_all add: bm'_def)
  have "frame_ok f j gr" if "frame_at bm' j = Some gr" for j gr
  proof (cases "j = i")
    case True
    then show ?thesis using that ok ci disk by (auto simp: fa frame_ok_def)
  next
    case False
    then show ?thesis
      using that wf_frame [OF assms(1), of j gr] cl [OF False] disk by (auto simp: fa frame_ok_def)
  qed
  moreover have "length (pageTable bm') = length (pageTable bm)"
    using length_set_frame_present [of "bm\<lparr>pager := f\<rparr>" i fr] assms(2) by (simp add: bm'_def)
  ultimately show "wf_bm bm'"
    using assms(1) fl(2) by (simp add: wf_bm_def pg) (simp add: bm'_def)
qed

lemma flushLoop_ok:
  assumes "wf_bm bm" "distinct (map fst es)" "\<forall>(i, fr) \<in> set es. frame_at bm i = Some fr"
  obtains bm' where "flushLoop es bm = (Inr (), bm')" "wf_bm bm'" "abs_pool bm' = abs_pool bm"
    "\<forall>i. frame_at bm' i = (if i \<in> fst ` set es then map_option (\<lambda>fr. if IsDirty fr
       then fr\<lparr>IsDirty := False, RecLSN := 0\<rparr> else fr) (frame_at bm i) else frame_at bm i)"
  using assms
proof (induction es arbitrary: bm thesis)
  case Nil
  then show ?case by simp
next
  case (Cons e es)
  obtain i fr where e: "e = (i, fr)" by (cases e)
  have fr: "frame_at bm i = Some fr" and ni: "i \<notin> fst ` set es" using Cons.prems e by auto
  define bm1 where "bm1 = (if IsDirty fr then set_frame i (fr\<lparr>IsDirty := False, RecLSN := 0\<rparr>)
    (bm\<lparr>pager := snd (WritePage (pager bm) i (fPage fr))\<rparr>) else bm)"
  have s: "flushLoop (e # es) bm = flushLoop es bm1" "wf_bm bm1" "abs_pool bm1 = abs_pool bm"
  proof (atomize (full), cases "IsDirty fr")
    case True
    note st = flush_step [OF Cons.prems(2) fr True]
    have "flushLoop (e # es) bm = flushLoop es bm1"
      unfolding e flushLoop.simps bm1_def using True by (subst st(1)) simp
    then show "flushLoop (e # es) bm = flushLoop es bm1 \<and> wf_bm bm1 \<and> abs_pool bm1 = abs_pool bm"
      using st(2,3) True by (simp add: bm1_def)
  next
    case False
    then show "flushLoop (e # es) bm = flushLoop es bm1 \<and> wf_bm bm1 \<and> abs_pool bm1 = abs_pool bm"
      using Cons.prems(2) by (simp add: e bm1_def)
  qed
  have fa: "frame_at bm1 j = (if j = i then map_option (\<lambda>fr. if IsDirty fr
       then fr\<lparr>IsDirty := False, RecLSN := 0\<rparr> else fr) (frame_at bm i) else frame_at bm j)" for j
    using fr by (simp add: bm1_def)
  have "frame_at bm1 j = Some gr" if "(j, gr) \<in> set es" for j gr
  proof -
    have "j \<noteq> i" using ni that by force
    then show ?thesis using Cons.prems(4) that by (auto simp: fa)
  qed
  then have "\<forall>(j, gr) \<in> set es. frame_at bm1 j = Some gr" by blast
  then obtain bm' where b: "flushLoop es bm1 = (Inr (), bm')" "wf_bm bm'" "abs_pool bm' = abs_pool bm1"
    "\<forall>i. frame_at bm' i = (if i \<in> fst ` set es then map_option (\<lambda>fr. if IsDirty fr
       then fr\<lparr>IsDirty := False, RecLSN := 0\<rparr> else fr) (frame_at bm1 i) else frame_at bm1 i)"
    using Cons.IH [OF _ s(2)] Cons.prems(3) by auto
  show ?case
  proof (rule Cons.prems(1) [of bm'])
    show "flushLoop (e # es) bm = (Inr (), bm')" using s(1) b(1) by simp
    show "abs_pool bm' = abs_pool bm" using s(3) b(3) by simp
    show "\<forall>j. frame_at bm' j = (if j \<in> fst ` set (e # es) then map_option (\<lambda>fr. if IsDirty fr
       then fr\<lparr>IsDirty := False, RecLSN := 0\<rparr> else fr) (frame_at bm j) else frame_at bm j)"
    proof
      fix j
      show "frame_at bm' j = (if j \<in> fst ` set (e # es) then map_option (\<lambda>fr. if IsDirty fr
       then fr\<lparr>IsDirty := False, RecLSN := 0\<rparr> else fr) (frame_at bm j) else frame_at bm j)"
        using ni fr by (cases "j = i") (simp_all add: b(4) fa e)
    qed
  qed (rule b(2))
qed

lemma FlushAll_ok:
  assumes "implements bm a"
  obtains bm' where "FlushAll bm = (Inr (), bm')" "implements bm' a"
    "\<And>i. i \<notin> ptouched a \<Longrightarrow> map_option norm_page (disk_page (pager bm') i) = pview a i"
    "\<And>i fr. frame_at bm' i = Some fr \<Longrightarrow> \<not> IsDirty fr"
proof -
  let ?b = "bm\<lparr>ticks := Suc (ticks bm)\<rparr>"
  have wf: "wf_bm bm" using assms by (rule implements_wf)
  have wf': "wf_bm ?b" using wf by (simp add: wf_bm_def)
  have ab': "abs_pool ?b = abs_pool bm"
    by (simp add: abs_pool_def fun_eq_iff page_view_def held_def touched_def split: option.split)
  have "\<forall>(i, fr) \<in> set (ranged bm). frame_at ?b i = Some fr"
    using set_ranged [OF wf] by auto
  then obtain bm' where fl: "flushLoop (ranged bm) ?b = (Inr (), bm')" "wf_bm bm'" "abs_pool bm' = abs_pool ?b"
    "\<forall>i. frame_at bm' i = (if i \<in> fst ` set (ranged bm) then map_option (\<lambda>fr. if IsDirty fr
       then fr\<lparr>IsDirty := False, RecLSN := 0\<rparr> else fr) (frame_at ?b i) else frame_at ?b i)"
    by (rule flushLoop_ok [OF wf' distinct_ranged [OF wf]])
  have nd: "\<not> IsDirty fr" if f: "frame_at bm' i = Some fr" for i fr
  proof -
    have "i \<in> fst ` set (ranged bm)"
    proof (rule ccontr)
      assume n: "i \<notin> fst ` set (ranged bm)"
      then have "frame_at bm i = Some fr" using fl(4) f by simp
      then have "(i, fr) \<in> set (ranged bm)" using set_ranged [OF wf] by simp
      then show False using n by force
    qed
    then show ?thesis using fl(4) f by (auto split: if_splits)
  qed
  have im: "implements bm' a"
  proof -
    have e: "abs_pool bm' = abs_pool bm" using fl(3) ab' by (simp only:)
    have "touched bm' = touched bm" using arg_cong [OF e, of ptouched] by simp
    then show ?thesis using assms fl(2) e by (simp add: implements_def)
  qed
  have "map_option norm_page (disk_page (pager bm') i) = pview a i" if i: "i \<notin> ptouched a" for i
  proof -
    have v: "page_view bm' i = pview a i" "i \<notin> touched bm'" using implements_sel(1,8) [OF im] i by auto
    show ?thesis
    proof (cases "frame_at bm' i")
      case None
      then show ?thesis using v by (simp add: page_view_def)
    next
      case (Some fr)
      then show ?thesis using v nd [OF Some] by (auto simp: touched_def frame_clean_def page_view_def)
    qed
  qed
  then show ?thesis using that [of bm'] fl(1) im nd by (simp add: FlushAll_def)
qed

section \<open>The contract of the pool\<close>

locale page_store =
  fixes impl :: "'s \<Rightarrow> 'm pool \<Rightarrow> bool"
    and fetchR :: "u32 \<Rightarrow> u8 \<Rightarrow> 's \<Rightarrow> ((goerr + page) \<times> 's) option"
    and fetchW :: "u32 \<Rightarrow> u8 \<Rightarrow> 's \<Rightarrow> ((goerr + page) \<times> 's) option"
    and unpin :: "u32 \<Rightarrow> bool \<Rightarrow> bool \<Rightarrow> 's \<Rightarrow> ((goerr + unit) \<times> 's) option"
    and store :: "u32 \<Rightarrow> page \<Rightarrow> 's \<Rightarrow> 's"
  assumes fetchR_free: "\<lbrakk>impl s a; pview a i = Some p; room a i; pheld a i = LFree\<rbrakk> \<Longrightarrow>
      \<exists>q s'. fetchR i m s = Some (Inr q, s') \<and> norm_page q = p \<and> impl s' (a\<lparr>pheld := (pheld a)(i := LRead 1)\<rparr>)"
    and fetchW_free: "\<lbrakk>impl s a; pview a i = Some p; room a i; pheld a i = LFree; plog a \<longrightarrow> plogopen a\<rbrakk> \<Longrightarrow>
      \<exists>q s'. fetchW i m s = Some (Inr q, s') \<and> norm_page q = p \<and> impl s' (a\<lparr>pheld := (pheld a)(i := LWrite)\<rparr>)"
    and unpin_read: "\<lbrakk>impl s a; pheld a i = LRead 1\<rbrakk> \<Longrightarrow>
      \<exists>s'. unpin i d False s = Some (Inr (), s') \<and> impl s' (a\<lparr>pheld := (pheld a)(i := LFree)\<rparr>)"
    and unpin_write: "\<lbrakk>impl s a; pheld a i = LWrite; d \<or> i \<notin> ptouched a\<rbrakk> \<Longrightarrow>
      \<exists>s'. unpin i d True s = Some (Inr (), s') \<and>
        impl s' (a\<lparr>pheld := (pheld a)(i := LFree), ptouched := ptouched a - {i}\<rparr>)"
    and write_held: "\<lbrakk>impl s a; pheld a i = LWrite; length p = PageSize\<rbrakk> \<Longrightarrow>
      impl (store i p s) (a\<lparr>pview := (pview a)(i \<mapsto> norm_page p), ptouched := insert i (ptouched a)\<rparr>)"
    and touched_held: "impl s a \<Longrightarrow> ptouched a \<subseteq> {i. pheld a i = LWrite}"
begin

text \<open>Looking at a page and releasing it leaves the abstract state as it was.\<close>

lemma read_once:
  assumes "impl s a" "pview a i = Some p" "room a i" "pheld a i = LFree"
  obtains q s1 s2 where "fetchR i m s = Some (Inr q, s1)" "norm_page q = p"
    "unpin i False False s1 = Some (Inr (), s2)" "impl s2 a"
proof -
  obtain q s1 where f: "fetchR i m s = Some (Inr q, s1)" "norm_page q = p"
    "impl s1 (a\<lparr>pheld := (pheld a)(i := LRead 1)\<rparr>)"
    using fetchR_free [OF assms] by blast
  obtain s2 where u: "unpin i False False s1 = Some (Inr (), s2)"
    "impl s2 (a\<lparr>pheld := (pheld a)(i := LFree)\<rparr>)"
    using unpin_read [OF f(3), of i False] by auto
  moreover have "a\<lparr>pheld := (pheld a)(i := LFree)\<rparr> = a" using assms(4) by (simp add: fun_upd_idem)
  ultimately show ?thesis using that f by simp
qed

text \<open>Fetching for write, storing a page and releasing it dirty changes exactly that page.\<close>

lemma write_once:
  assumes "impl s a" "pview a i = Some p" "room a i" "pheld a i = LFree" "plog a \<longrightarrow> plogopen a"
  obtains q s1 where "fetchW i m s = Some (Inr q, s1)" "norm_page q = p"
    "\<And>r. length r = PageSize \<Longrightarrow> \<exists>s2. unpin i True True (store i r s1) = Some (Inr (), s2) \<and>
       impl s2 (a\<lparr>pview := (pview a)(i \<mapsto> norm_page r)\<rparr>)"
proof -
  obtain q s1 where f: "fetchW i m s = Some (Inr q, s1)" "norm_page q = p"
    "impl s1 (a\<lparr>pheld := (pheld a)(i := LWrite)\<rparr>)"
    using fetchW_free [OF assms] by blast
  have "\<exists>s2. unpin i True True (store i r s1) = Some (Inr (), s2) \<and>
       impl s2 (a\<lparr>pview := (pview a)(i \<mapsto> norm_page r)\<rparr>)" if r: "length r = PageSize" for r
  proof -
    let ?b = "a\<lparr>pheld := (pheld a)(i := LWrite), pview := (pview a)(i \<mapsto> norm_page r),
       ptouched := insert i (ptouched a)\<rparr>"
    have w: "impl (store i r s1) ?b"
      using write_held [OF f(3) _ r, of i] by simp
    have "i \<notin> ptouched a" using touched_held [OF assms(1)] assms(4) by auto
    then have "?b\<lparr>pheld := (pheld ?b)(i := LFree), ptouched := ptouched ?b - {i}\<rparr> =
        a\<lparr>pview := (pview a)(i \<mapsto> norm_page r)\<rparr>"
      using assms(4) by (auto intro!: pool.equality)
    then show ?thesis using unpin_write [OF w, of i True] by auto
  qed
  then show ?thesis using that f by blast
qed

end

interpretation pool: page_store implements FetchPageForRead FetchPageForWrite UnpinPage putPage
proof
  fix bm :: "'a BufferManager_scheme" and a :: "'a pool" and i p m d
  show "\<exists>q s'. FetchPageForRead i m bm = Some (Inr q, s') \<and> norm_page q = p \<and>
      implements s' (a\<lparr>pheld := (pheld a)(i := LRead 1)\<rparr>)"
    if "implements bm a" "pview a i = Some p" "room a i" "pheld a i = LFree"
    by (rule FetchPageForRead_ok [OF that(1-3), of "LRead 1" m]) (use that(4) in auto)
  show "\<exists>q s'. FetchPageForWrite i m bm = Some (Inr q, s') \<and> norm_page q = p \<and>
      implements s' (a\<lparr>pheld := (pheld a)(i := LWrite)\<rparr>)"
    if "implements bm a" "pview a i = Some p" "room a i" "pheld a i = LFree" "plog a \<longrightarrow> plogopen a"
    by (rule FetchPageForWrite_ok [OF that, of m]) auto
  show "\<exists>s'. UnpinPage i d False bm = Some (Inr (), s') \<and> implements s' (a\<lparr>pheld := (pheld a)(i := LFree)\<rparr>)"
    if "implements bm a" "pheld a i = LRead 1"
  proof -
    have "i \<notin> ptouched a" using implements_sel(9) [OF that(1)] that(2) by auto
    then have "a\<lparr>pheld := (pheld a)(i := LFree), ptouched := ptouched a - {i}\<rparr> = a\<lparr>pheld := (pheld a)(i := LFree)\<rparr>"
      by simp
    then show ?thesis using UnpinPage_ok [OF that(1), of False i d] that(2) by auto
  qed
  show "\<exists>s'. UnpinPage i d True bm = Some (Inr (), s') \<and>
        implements s' (a\<lparr>pheld := (pheld a)(i := LFree), ptouched := ptouched a - {i}\<rparr>)"
    if "implements bm a" "pheld a i = LWrite" "d \<or> i \<notin> ptouched a"
    by (rule UnpinPage_ok [OF that(1), of True i d]) (use that in auto)
  show "implements (putPage i p bm) (a\<lparr>pview := (pview a)(i \<mapsto> norm_page p), ptouched := insert i (ptouched a)\<rparr>)"
    if "implements bm a" "pheld a i = LWrite" "length p = PageSize"
    by (rule putPage_ok [OF that])
  show "ptouched a \<subseteq> {i. pheld a i = LWrite}" if "implements bm a"
    by (rule implements_sel(9) [OF that])
qed


section \<open>A fresh pool\<close>

lemma wf_NewBufferManager:
  assumes "\<And>n xs. mset (ord n xs) = mset xs"
  shows "wf_bm (NewBufferManager ex sz w h ord)"
  using assms by (simp add: wf_bm_def NewBufferManager_def frame_at_def NewPager_def OpenFile_def)

lemma NewBufferManager_obs:
  "page_view (NewBufferManager ex sz w h ord) i = map_option norm_page (disk_page (OpenFile ex) i)"
  "held (NewBufferManager ex sz w h ord) i = LFree" "touched (NewBufferManager ex sz w h ord) = {}"
  "frame_at (NewBufferManager ex sz w h ord) i = None"
  by (simp_all add: NewBufferManager_def page_view_def held_def touched_def frame_at_def NewPager_def)

lemma room_NewBufferManager: "0 < sz \<Longrightarrow> room (abs_pool (NewBufferManager ex sz w h ord)) i"
  by (simp add: room_def busy_def NewBufferManager_obs) (simp add: NewBufferManager_def)

lemma disk_page_single: "length p = PageSize \<Longrightarrow> disk_page (OpenFile (Some (p @ r))) 0 = Some p"
  by (simp add: disk_page_def OpenFile_def sub_def)

lemma disk_page_second:
  "length p = PageSize \<Longrightarrow> length q = PageSize \<Longrightarrow> disk_page (OpenFile (Some (p @ q))) 1 = Some q"
  by (simp add: disk_page_def OpenFile_def sub_def)

section \<open>Properties of the pool\<close>

text \<open>C26: Caching is transparent. Whatever is in the pool and whatever has to be evicted, fetching
  an unlatched page for read succeeds while some frame is unpinned, returns the current content of
  the page, changes the content of no page and no other latch, and keeps the pool within its
  capacity.\<close>

theorem fetch_read_transparent:
  assumes "wf_bm bm" "page_view bm i = Some p" "held bm i = LFree" "room (abs_pool bm) i"
  shows "\<exists>q bm'. FetchPageForRead i m bm = Some (Inr q, bm') \<and> norm_page q = p \<and> wf_bm bm' \<and>
    page_view bm' = page_view bm \<and> held bm' = (held bm)(i := LRead 1) \<and>
    length (pageTable bm') \<le> maxSize bm"
proof -
  obtain q bm' where f: "FetchPageForRead i m bm = Some (Inr q, bm')" "norm_page q = p"
    "implements bm' ((abs_pool bm)\<lparr>pheld := (pheld (abs_pool bm))(i := LRead 1)\<rparr>)"
    using pool.fetchR_free [OF implements_abs [OF assms(1)], of i p m] assms by auto
  note sel = implements_sel [OF f(3)]
  show ?thesis using f(1,2) sel implements_wf [OF f(3)] by (auto simp: wf_bm_def)
qed

theorem fetch_read_transparent_witness:
  "\<exists>q bm'. FetchPageForRead 0 PageTypeLeaf (NewBufferManager (Some (NewPage PageTypeLeaf)) 1 (NewWAL None) True (\<lambda>_ xs. xs))
     = Some (Inr q, bm') \<and> norm_page q = norm_page (NewPage PageTypeLeaf) \<and> wf_bm bm'"
proof -
  let ?b = "NewBufferManager (Some (NewPage PageTypeLeaf)) 1 (NewWAL None) True (\<lambda>_ xs. xs)"
  have "page_view ?b 0 = Some (norm_page (NewPage PageTypeLeaf))"
    using disk_page_single [of "NewPage PageTypeLeaf" "[]"] by (simp add: NewBufferManager_obs)
  moreover have "wf_bm ?b" by (rule wf_NewBufferManager) simp
  ultimately show ?thesis
    using fetch_read_transparent [of ?b 0 "norm_page (NewPage PageTypeLeaf)" PageTypeLeaf]
      room_NewBufferManager [of 1] NewBufferManager_obs(2) by fastforce
qed

text \<open>C27: A pinned page is never evicted: bringing in any other page leaves its frame in the pool
  exactly as it is, so a page pointer stays valid until it is unpinned.\<close>

theorem pinned_never_evicted:
  assumes "wf_bm bm" "frame_at bm i = Some fr" "PinCount fr \<noteq> 0" "i \<noteq> j"
  shows "frame_at (snd (getFrame j m bm)) i = Some fr"
proof (cases "frame_at bm j")
  case (Some gr)
  then show ?thesis using assms(2,4) by (simp add: getFrame_def Let_def)
next
  case None
  have ev: "frame_at (snd (evict bm)) i = Some fr"
  proof (cases "all_pinned bm")
    case True
    then show ?thesis using evict_full [OF assms(1)] assms(2) by simp
  next
    case False
    show ?thesis by (rule evict_ok [OF assms(1) False]) (use assms(2,3) in auto)
  qed
  show ?thesis
    using ev assms(2,4) by (auto simp: getFrame_def None Let_def split: prod.splits sum.splits if_splits)
qed

theorem pinned_never_evicted_witness:
  "\<exists>(bm :: BufferManager) fr. frame_at bm 0 = Some fr \<and> length (pageTable bm) = maxSize bm \<and>
     frame_at (snd (getFrame 1 PageTypeLeaf bm)) 0 = Some fr"
proof -
  let ?p = "NewPage PageTypeLeaf"
  let ?b = "NewBufferManager (Some (?p @ ?p)) 1 (NewWAL None) True (\<lambda>_ xs. xs)"
  let ?fr = "\<lparr>fPage = ?p, IsDirty = False, PinCount = 1, ReferenceBits = 0, Latch = LRead 1, RecLSN = 0\<rparr>"
  let ?c = "set_frame 0 ?fr ?b"
  have pg: "pager ?b = OpenFile (Some (?p @ ?p))" by (simp add: NewBufferManager_def NewPager_def)
  have fok: "frame_ok (pager ?b) 0 ?fr"
    unfolding pg using disk_page_single [of ?p ?p] by (simp add: frame_ok_def frame_clean_def)
  have wf: "wf_bm ?c"
    by (rule wf_set_frame [OF wf_NewBufferManager fok]) (simp_all add: NewBufferManager_def)
  have "length (pageTable ?c) = maxSize ?c"
    by (simp add: set_frame_def NewBufferManager_def)
  moreover have "frame_at (snd (getFrame 1 PageTypeLeaf ?c)) 0 = Some ?fr"
    by (rule pinned_never_evicted [OF wf]) simp_all
  ultimately show ?thesis by (intro exI [of _ ?c] exI [of _ ?fr]) simp
qed

text \<open>C28: The pool reports that it is full exactly when the page asked for is not cached and every one of the
  maximal number of frames is pinned: a cached page is always found, an unpinned frame is always reused.\<close>

theorem pool_full_iff:
  assumes "wf_bm bm"
  shows "fst (getFrame i m bm) = Inl ErrPoolFull \<longleftrightarrow>
    frame_at bm i = None \<and> length (pageTable bm) = maxSize bm \<and> all_pinned bm"
proof (cases "frame_at bm i")
  case (Some fr)
  then show ?thesis by (simp add: getFrame_def Let_def)
next
  case None
  have le: "length (pageTable bm) \<le> maxSize bm" using assms(1) by (simp add: wf_bm_def)
  have rd: "ReadPage f i (NewPage m) \<noteq> Inl ErrPoolFull" for f
    by (simp add: ReadPage_def ReadAt_def Let_def)
  show ?thesis
  proof (cases "length (pageTable bm) = maxSize bm \<and> all_pinned bm")
    case True
    then show ?thesis using getFrame_full [OF assms None] None by simp
  next
    case False
    have "fst (getFrame i m bm) \<noteq> Inl ErrPoolFull"
    proof (cases "length (pageTable bm) \<ge> maxSize bm")
      case True
      then have np: "\<not> all_pinned bm" using False le by simp
      show ?thesis
        by (rule evict_ok [OF assms(1) np])
          (use True rd in \<open>auto simp: getFrame_def None Let_def split: sum.splits\<close>)
    next
      case f: False
      then show ?thesis using rd by (auto simp: getFrame_def None Let_def split: sum.splits)
    qed
    then show ?thesis using False by blast
  qed
qed

text \<open>A pool of one frame that holds page 0, pinned for writing.\<close>

definition one_frame :: BufferManager where
  "one_frame = set_frame 0
     \<lparr>fPage = NewPage PageTypeLeaf, IsDirty = False, PinCount = 1, ReferenceBits = 0, Latch = LWrite, RecLSN = 0\<rparr>
     (NewBufferManager (Some (NewPage PageTypeLeaf @ NewPage PageTypeLeaf)) 1 (NewWAL None) True (\<lambda>_ xs. xs))"

lemma one_frame_wf: "wf_bm one_frame"
proof -
  let ?p = "NewPage PageTypeLeaf"
  let ?b = "NewBufferManager (Some (?p @ ?p)) 1 (NewWAL None) True (\<lambda>_ xs. xs)"
  have pg: "pager ?b = OpenFile (Some (?p @ ?p))" by (simp add: NewBufferManager_def NewPager_def)
  have "disk_page (pager ?b) 0 = Some ?p" unfolding pg using disk_page_single [of ?p ?p] by simp
  then show ?thesis
    unfolding one_frame_def
    by (intro wf_set_frame [OF wf_NewBufferManager]) (simp_all add: frame_ok_def NewBufferManager_def)
qed

theorem pool_full_iff_witness:
  "fst (getFrame 1 PageTypeLeaf one_frame) = Inl ErrPoolFull \<and> fst (getFrame 0 PageTypeLeaf one_frame) \<noteq> Inl ErrPoolFull"
proof -
  have "frame_at one_frame 1 = None" "frame_at one_frame 0 \<noteq> None" "all_pinned one_frame"
    "length (pageTable one_frame) = maxSize one_frame"
    by (auto simp: one_frame_def all_pinned_def NewBufferManager_obs) (simp_all add: NewBufferManager_def set_frame_def)
  then show ?thesis using pool_full_iff [OF one_frame_wf, of 1 PageTypeLeaf] pool_full_iff [OF one_frame_wf, of 0 PageTypeLeaf] by simp
qed

text \<open>Changing one page through the pool changes that page and nothing else: fetch for write,
  modify, unpin dirty leaves the new content under the page's id, the content of every other page
  and all latches as they were.\<close>

lemma pool_update_one_page:
  assumes "wf_bm bm" "page_view bm i = Some p" "held bm i = LFree" "room (abs_pool bm) i"
    and "bmWal bm \<longrightarrow> fopen (wfile (wal bm))"
  shows "\<exists>q bm1. FetchPageForWrite i m bm = Some (Inr q, bm1) \<and> norm_page q = p \<and>
    (\<forall>r. length r = PageSize \<longrightarrow> (\<exists>bm2. UnpinPage i True True (putPage i r bm1) = Some (Inr (), bm2) \<and>
       wf_bm bm2 \<and> page_view bm2 = (page_view bm)(i \<mapsto> norm_page r) \<and> held bm2 = held bm))"
proof -
  obtain q bm1 where f: "FetchPageForWrite i m bm = Some (Inr q, bm1)" "norm_page q = p"
    and st: "\<And>r. length r = PageSize \<Longrightarrow> \<exists>s2. UnpinPage i True True (putPage i r bm1) = Some (Inr (), s2) \<and>
       implements s2 ((abs_pool bm)\<lparr>pview := (pview (abs_pool bm))(i \<mapsto> norm_page r)\<rparr>)"
    by (rule pool.write_once [OF implements_abs [OF assms(1)], of i p m]) (use assms in auto)
  have "\<exists>bm2. UnpinPage i True True (putPage i r bm1) = Some (Inr (), bm2) \<and>
       wf_bm bm2 \<and> page_view bm2 = (page_view bm)(i \<mapsto> norm_page r) \<and> held bm2 = held bm"
    if r: "length r = PageSize" for r
  proof -
    obtain s2 where s2: "UnpinPage i True True (putPage i r bm1) = Some (Inr (), s2)"
      "implements s2 ((abs_pool bm)\<lparr>pview := (pview (abs_pool bm))(i \<mapsto> norm_page r)\<rparr>)"
      using st [OF r] by blast
    then show ?thesis using implements_sel(1,2) [OF s2(2)] implements_wf by auto
  qed
  then show ?thesis using f by blast
qed

text \<open>C30: Flushing makes the file hold the current content of every page: when no page is being
  written, FlushAll succeeds, leaves no dirty frame, and a pool opened later on the file alone shows
  the same pages.\<close>

theorem FlushAll_durable:
  assumes "wf_bm bm" "\<forall>i. held bm i \<noteq> LWrite"
  shows "\<exists>bm'. FlushAll bm = (Inr (), bm') \<and> wf_bm bm' \<and> page_view bm' = page_view bm \<and>
    GetDirtyPageTable bm' = [] \<and>
    page_view (NewBufferManager (Some (fbytes (pager bm'))) sz w h ord) = page_view bm"
proof -
  have nt: "touched bm = {}" using touched_latched [OF assms(1)] assms(2) by auto
  obtain bm' where f: "FlushAll bm = (Inr (), bm')" "implements bm' (abs_pool bm)"
    "\<And>i. map_option norm_page (disk_page (pager bm') i) = page_view bm i"
    "\<And>i fr. frame_at bm' i = Some fr \<Longrightarrow> \<not> IsDirty fr"
    using FlushAll_ok [OF implements_abs [OF assms(1)]] nt by auto
  note wf = implements_wf [OF f(2)]
  have "GetDirtyPageTable bm' = []"
    using f(4) set_ranged [OF wf] by (auto simp: GetDirtyPageTable_def filter_empty_conv)
  moreover have "OpenFile (Some (fbytes (pager bm'))) = pager bm'"
    using wf by (simp add: OpenFile_def wf_bm_def)
  ultimately show ?thesis
    using f(1,3) wf implements_sel(1) [OF f(2)] by (auto simp: NewBufferManager_obs fun_eq_iff)
qed

theorem FlushAll_durable_witness:
  "\<exists>bm'. FlushAll (NewBufferManager (Some (NewPage PageTypeLeaf)) 1 (NewWAL None) True (\<lambda>_ xs. xs)) = (Inr (), bm') \<and>
     page_view (NewBufferManager (Some (fbytes (pager bm'))) 1 (NewWAL None) True (\<lambda>_ xs. xs)) 0
       = Some (norm_page (NewPage PageTypeLeaf))"
proof -
  let ?b = "NewBufferManager (Some (NewPage PageTypeLeaf)) 1 (NewWAL None) True (\<lambda>_ xs. xs)"
  have v: "page_view ?b 0 = Some (norm_page (NewPage PageTypeLeaf))"
    using disk_page_single [of "NewPage PageTypeLeaf" "[]"] by (simp add: NewBufferManager_obs)
  have wf: "wf_bm ?b" by (rule wf_NewBufferManager) simp
  show ?thesis
    using FlushAll_durable [OF wf, of 1 "NewWAL None" True "\<lambda>_ xs. xs"] v by (auto simp: NewBufferManager_obs(2))
qed

text \<open>The bytes of a page as the pool holds them: in its frame, or else in the file.\<close>

definition content :: "'a BufferManager_scheme \<Rightarrow> u32 \<Rightarrow> page option" where
  "content bm i = (case frame_at bm i of Some fr \<Rightarrow> Some (fPage fr) | None \<Rightarrow> disk_page (pager bm) i)"

lemma getFrame_content:
  assumes "wf_bm bm" "content bm i = Some p" "\<And>fr. frame_at bm i = Some fr \<Longrightarrow> \<not> IsDirty fr \<and> Latch fr = LFree"
    and "frame_at bm i = None \<Longrightarrow> \<not> (length (pageTable bm) = maxSize bm \<and> all_pinned bm)"
  obtains fr bm1 where "getFrame i m bm = (Inr fr, bm1)" "fPage fr = p" "\<not> IsDirty fr" "Latch fr = LFree"
    "wal bm1 = wal bm" "bmWal bm1 = bmWal bm"
proof (cases "frame_at bm i")
  case (Some fr)
  let ?fr = "fr\<lparr>PinCount := PinCount fr + 1\<rparr>"
  have "fPage fr = p" "\<not> IsDirty fr" "Latch fr = LFree" using Some assms(2,3) by (simp_all add: content_def)
  then show ?thesis
    by (intro that [of ?fr "set_frame i ?fr bm"]) (simp_all add: getFrame_def Some Let_def set_frame_def)
next
  case None
  have d: "disk_page (pager bm) i = Some p" using assms(2) None by (simp add: content_def)
  obtain bm0 where e: "(if length (pageTable bm) \<ge> maxSize bm then evict bm else (Inr (), bm)) = (Inr (), bm0)" "wf_bm bm0"
    "disk_page (pager bm0) i = Some p" "wal bm0 = wal bm" "bmWal bm0 = bmWal bm"
  proof (cases "length (pageTable bm) \<ge> maxSize bm")
    case True
    then have np: "\<not> all_pinned bm" using assms(4) [OF None] assms(1) by (simp add: wf_bm_def)
    obtain bm' v fr where v: "evict bm = (Inr (), bm')" "wf_bm bm'" "abs_pool bm' = abs_pool bm" "frame_at bm v = Some fr"
      "wal bm' = wal bm" "\<And>j. disk_page (pager bm') j = (if j = v \<and> IsDirty fr then Some (fPage fr) else disk_page (pager bm) j)"
      by (rule evict_ok [OF assms(1) np]) blast
    have "i \<noteq> v" using v(4) None by auto
    then have "disk_page (pager bm') i = Some p" using v(6) d by simp
    moreover have "bmWal bm' = bmWal bm" using arg_cong [OF v(3), of plog] by simp
    ultimately show ?thesis using that True v(1,2,5) by simp
  qed (use that d assms(1) in simp)
  have "fopen (pager bm0)" using e(2) by (simp add: wf_bm_def)
  let ?fr = "\<lparr>fPage = p, IsDirty = False, PinCount = 1, ReferenceBits = 0, Latch = LFree, RecLSN = 0\<rparr>"
  have "getFrame i m bm = (Inr ?fr, set_frame i ?fr bm0)"
    using \<open>fopen (pager bm0)\<close> e(3) by (simp add: getFrame_def None e(1) ReadPage_disk Let_def)
  then show ?thesis by (rule that) (simp_all add: e(4,5) set_frame_def)
qed

text \<open>C29: The full-page image is logged before the page can change. When logging is on, fetching a clean page for
  write, whether it is cached or has to be read from the file (and a frame can be had for it), appends to the
  log, after everything it holds, a full-page record with the bytes of the page as they are on entry, and
  returns the page stamped with that record's LSN, which the frame keeps as the first LSN of its changes.\<close>

theorem write_fetch_logs_image:
  assumes "wf_bm bm" "bmWal bm" "wal_holds (wal bm) rs" "content bm i = Some p"
    and "\<forall>fr. frame_at bm i = Some fr \<longrightarrow> \<not> IsDirty fr \<and> Latch fr = LFree"
    and "frame_at bm i = None \<longrightarrow> \<not> (length (pageTable bm) = maxSize bm \<and> all_pinned bm)"
    and "length (log_bytes rs) + 4139 < 2 ^ 63"
  shows "\<exists>q bm' fr'. FetchPageForWrite i m bm = Some (Inr q, bm') \<and>
    wal_holds (wal bm') (rs @ [\<lparr>LSN = currentLSN (wal bm), TxnID = 0, PrevLSN = 0, PageID = i,
      OpType = LogOpFullPage, recKey = [], recValue = p\<rparr>]) \<and>
    frame_at bm' i = Some fr' \<and> RecLSN fr' = currentLSN (wal bm) \<and>
    q = SetLSN p (currentLSN (wal bm)) \<and> fPage fr' = q"
proof -
  let ?r = "\<lparr>LSN = currentLSN (wal bm), TxnID = 0, PrevLSN = 0, PageID = i,
      OpType = LogOpFullPage, recKey = [], recValue = p\<rparr>"
  let ?A = "Append (wal bm) 0 i 0 LogOpFullPage [] p"
  have "length p = PageSize"
    using assms(4) wf_frame [OF assms(1)] disk_page_length by (auto simp: content_def frame_ok_def split: option.splits)
  then have fits: "rec_fits ?r" "length (log_bytes rs) + rec_size ?r < 2 ^ 63"
    using assms(7) by (simp_all add: rec_fits_def rec_size_def)
  obtain w where A: "?A = (Inr (currentLSN (wal bm)), w)" "wal_holds w (rs @ [?r])"
    using Append_holds [OF assms(3) refl fits] by (cases ?A) auto
  obtain fr bm1 where g: "getFrame i m bm = (Inr fr, bm1)" "fPage fr = p" "\<not> IsDirty fr" "Latch fr = LFree"
    "wal bm1 = wal bm" "bmWal bm1 = bmWal bm"
    by (rule getFrame_content [OF assms(1,4), of m]) (use assms(5,6) in blast)+
  show ?thesis using g A assms(2) by (simp add: FetchPageForWrite_def Let_def)
qed

theorem write_fetch_logs_image_witness:
  "\<exists>(bm :: BufferManager) q bm' r. frame_at bm 0 = None \<and> FetchPageForWrite 0 PageTypeLeaf bm = Some (Inr q, bm') \<and> wal_holds (wal bm) [] \<and>
     wal_holds (wal bm') [r] \<and> recValue r = NewPage PageTypeLeaf"
proof -
  let ?p = "NewPage PageTypeLeaf"
  let ?b = "NewBufferManager (Some (?p @ [])) 1 (NewWAL None) True (\<lambda>_ xs. xs)"
  have pg: "pager ?b = OpenFile (Some (?p @ []))" by (simp add: NewBufferManager_def NewPager_def)
  have wf: "wf_bm ?b" by (rule wf_NewBufferManager) simp
  have w: "bmWal ?b" "wal ?b = NewWAL None" "frame_at ?b 0 = None" "length (pageTable ?b) \<noteq> maxSize ?b"
    by (simp_all add: NewBufferManager_obs) (simp_all add: NewBufferManager_def)
  have c: "content ?b 0 = Some ?p" unfolding content_def w(3) option.case pg using disk_page_single [of ?p "[]"] by simp
  have h: "wal_holds (wal ?b) []" unfolding w(2) by (rule NewWAL_holds)
  have "\<exists>q bm'. FetchPageForWrite 0 PageTypeLeaf ?b = Some (Inr q, bm') \<and>
    wal_holds (wal bm') ([] @ [\<lparr>LSN = currentLSN (wal ?b), TxnID = 0, PrevLSN = 0, PageID = 0,
      OpType = LogOpFullPage, recKey = [], recValue = ?p\<rparr>])"
    using write_fetch_logs_image [OF wf w(1) h c, of PageTypeLeaf] w(3,4) by (auto simp: length_log_bytes)
  then obtain q bm' where "FetchPageForWrite 0 PageTypeLeaf ?b = Some (Inr q, bm')"
    "wal_holds (wal bm') ([] @ [\<lparr>LSN = currentLSN (wal ?b), TxnID = 0, PrevLSN = 0, PageID = 0,
      OpType = LogOpFullPage, recKey = [], recValue = ?p\<rparr>])" by blast
  then show ?thesis using h w(3) by (intro exI [of _ ?b] exI [of _ q] exI [of _ bm']
        exI [of _ "\<lparr>LSN = currentLSN (wal ?b), TxnID = 0, PrevLSN = 0, PageID = 0,
          OpType = LogOpFullPage, recKey = [], recValue = ?p\<rparr>"]) simp
qed

end
