(* ===== verification/Free_List.thy ===== *)
theory Free_List
  imports Buffer_Manager
begin

text \<open>
  Page allocation: \<^verbatim>\<open>allocatePage\<close> and \<^verbatim>\<open>deallocatePage\<close> of \<^verbatim>\<open>internal/storage/btree.go\<close>. Freed pages
  form a singly linked list whose head is a field of the meta page (page 0); \<open>chain\<close> is that list
  as a predicate on the page contents, and \<open>store\<close> the invariant the tree keeps of its file: the
  meta page exists, the free list is a proper list of distinct unlatched pages, every page carries
  its own id, and the log is open when logging is on. The refinement: a free list is a stack.

  An operation returns \<open>((error + result) \<times> state) option\<close>; \<open>None\<close> is a Go panic, a wait for a latch
  that is never released, or a loop that does not end. \<open>andThen\<close> is the early return on an error and
  \<open>deferUnpin\<close> the deferred release of a page.
\<close>

section \<open>Control flow\<close>

definition andThen ::
  "((goerr + 'a) \<times> 's) option \<Rightarrow> ('a \<Rightarrow> 's \<Rightarrow> ((goerr + 'b) \<times> 's) option) \<Rightarrow> ((goerr + 'b) \<times> 's) option" where
  "andThen m k = Option.bind m (\<lambda>(r, s). case r of Inl e \<Rightarrow> Some (Inl e, s) | Inr a \<Rightarrow> k a s)"

lemma andThen_simps [simp]:
  "andThen None k = None" "andThen (Some (Inl e, s)) k = Some (Inl e, s)"
  "andThen (Some (Inr a, s)) k = k a s"
  by (simp_all add: andThen_def)

lemma andThen_eq_Some:
  "andThen m k = Some (r, s) \<longleftrightarrow>
     (\<exists>e. m = Some (Inl e, s) \<and> r = Inl e) \<or> (\<exists>a s1. m = Some (Inr a, s1) \<and> k a s1 = Some (r, s))"
  by (auto simp: andThen_def split: bind_splits sum.splits)

lemma andThen_mono [partial_function_mono]:
  assumes "mono_option F" "\<And>a s. mono_option (\<lambda>f. G a s f)"
  shows "mono_option (\<lambda>f. andThen (F f) (\<lambda>a s. G a s f))"
  unfolding andThen_def
proof (rule bind_mono [OF assms(1)])
  fix x :: "(goerr + 'c) \<times> 'd"
  obtain r s where x: "x = (r, s)" by (cases x)
  show "mono_option (\<lambda>f. case x of (r, s) \<Rightarrow> case r of Inl e \<Rightarrow> Some (Inl e, s) | Inr a \<Rightarrow> G a s f)"
    by (cases r) (simp_all add: x assms(2) option.const_mono)
qed

definition deferUnpin ::
  "u32 \<Rightarrow> bool \<Rightarrow> bool \<Rightarrow> ((goerr + 'r) \<times> 'a BufferManager_scheme) option \<Rightarrow>
   ((goerr + 'r) \<times> 'a BufferManager_scheme) option" where
  "deferUnpin i d w m = do {
     (r, s) \<leftarrow> m;
     (_, s) \<leftarrow> UnpinPage i d w s;
     Some (r, s)
   }"

section \<open>Operations\<close>

definition allocatePage ::
  "u8 \<Rightarrow> 'a BufferManager_scheme \<Rightarrow> ((goerr + u32) \<times> 'a BufferManager_scheme) option" where
  "allocatePage pageType bm =
     andThen (FetchPageForWrite MetaPageID PageTypeMeta bm) (\<lambda>metaPage bm.
     deferUnpin MetaPageID True True (
       let firstFree = GetFirstFreePageID metaPage
       in if firstFree \<noteq> 0
          then
            andThen (FetchPageForRead firstFree PageTypeFree bm) (\<lambda>freePage bm. do {
              let nextFree = GetNextFreePageID freePage;
              (_, bm) \<leftarrow> UnpinPage firstFree False False bm;
              let bm = putPage MetaPageID (SetFirstFreePageID metaPage nextFree) bm;
              andThen (FetchPageForWrite firstFree pageType bm) (\<lambda>reusedPage bm. do {
                let bm = putPage firstFree (Page_Init reusedPage pageType) bm;
                (_, bm) \<leftarrow> UnpinPage firstFree True True bm;
                Some (Inr firstFree, bm)
              })
            })
          else (case AllocatePage (pager bm) pageType of (r, f) \<Rightarrow> Some (r, bm\<lparr>pager := f\<rparr>))))"

definition deallocatePage ::
  "u32 \<Rightarrow> 'a BufferManager_scheme \<Rightarrow> ((goerr + unit) \<times> 'a BufferManager_scheme) option" where
  "deallocatePage pageID bm =
     andThen (FetchPageForWrite MetaPageID PageTypeMeta bm) (\<lambda>metaPage bm.
     deferUnpin MetaPageID True True (
       let firstFree = GetFirstFreePageID metaPage
       in andThen (FetchPageForWrite pageID PageTypeFree bm) (\<lambda>deadPage bm. do {
            let deadPage = Page_Init deadPage PageTypeFree;
            let deadPage = SetNextFreePageID deadPage firstFree;
            let bm = putPage pageID deadPage bm;
            (_, bm) \<leftarrow> UnpinPage pageID True True bm;
            let bm = putPage MetaPageID (SetFirstFreePageID metaPage pageID) bm;
            Some (Inr (), bm)
          })))"

section \<open>Header fields and the LSN\<close>

lemma norm_page_get:
  assumes "length p = PageSize"
  shows "GetPageID (norm_page p) = GetPageID p" "GetPageType (norm_page p) = GetPageType p"
    "GetNextOverflowPageID (norm_page p) = GetNextOverflowPageID p"
    "GetRootPageID (norm_page p) = GetRootPageID p"
    "GetFirstFreePageID (norm_page p) = GetFirstFreePageID p"
    "GetNextFreePageID (norm_page p) = GetNextFreePageID p"
    "ReadOverflowData (norm_page p) n = ReadOverflowData p n"
    "getSlotCount (norm_page p) = getSlotCount p"
  using assms
  by (simp_all add: norm_page_def page_getters page_setters sub_blit_other nth_blit_other
      ReadOverflowData_def Let_def)

lemma norm_page_set:
  assumes "length p = PageSize"
  shows "norm_page (SetFirstFreePageID p x) = SetFirstFreePageID (norm_page p) x"
    "norm_page (SetRootPageID p x) = SetRootPageID (norm_page p) x"
    "norm_page (Page_Init p t) = Page_Init p t"
    "norm_page (SetNextFreePageID p x) = SetNextFreePageID (norm_page p) x"
    "norm_page (SetNextOverflowPageID p x) = SetNextOverflowPageID (norm_page p) x"
    "norm_page (WriteOverflowData p d) = WriteOverflowData (norm_page p) d"
  by (simp_all add: norm_page_id [of "Page_Init p t"] assms Page_Init_fields)
    (simp_all add: norm_page_def page_setters blit_commute [of 36 _ 12] blit_commute [of 32 _ 12])

lemma Page_Init_norm:
  assumes "length p = PageSize"
  shows "Page_Init (norm_page p) t = Page_Init p t"
  by (simp add: norm_page_def Page_Init_def page_setters Let_def blit_commute [of 12 _ 0]
      blit_commute [of 12 _ 23] blit_commute [of 12 _ 21] blit_idem)


section \<open>The free list as a predicate\<close>

text \<open>\<open>chain nxt V i is\<close>: following the link \<open>nxt\<close> from page i visits exactly the pages is, then ends.\<close>

fun chain :: "(page \<Rightarrow> u32) \<Rightarrow> (u32 \<Rightarrow> page option) \<Rightarrow> u32 \<Rightarrow> u32 list \<Rightarrow> bool" where
  "chain nxt V i [] = (i = 0)"
| "chain nxt V i (j # js) = (i = j \<and> i \<noteq> 0 \<and> (\<exists>p. V i = Some p \<and> chain nxt V (nxt p) js))"

lemma chain_cong:
  "(\<And>j. j \<in> set js \<Longrightarrow> V j = V' j) \<Longrightarrow> chain nxt V i js = chain nxt V' i js"
  by (induction js arbitrary: i) auto

lemma chain_zero: "chain nxt V 0 js \<longleftrightarrow> js = []"
  by (cases js) auto

lemma chain_nonzero: "i \<noteq> 0 \<Longrightarrow> chain nxt V i js \<Longrightarrow> \<exists>js'. js = i # js'"
  by (cases js) auto

lemma chain_ids: "chain nxt V i js \<Longrightarrow> 0 \<notin> set js \<and> (\<forall>j \<in> set js. V j \<noteq> None)"
  by (induction js arbitrary: i) auto

definition store_ok :: "'m pool \<Rightarrow> u32 list \<Rightarrow> bool" where
  "store_ok a fs \<longleftrightarrow>
     (\<exists>m. pview a 0 = Some m \<and> chain GetNextFreePageID (pview a) (GetFirstFreePageID m) fs) \<and>
     distinct fs \<and> (\<forall>i \<in> insert 0 (set fs). pheld a i = LFree) \<and>
     (\<forall>i p. pview a i = Some p \<longrightarrow> GetPageID p = i) \<and>
     PageSize dvd pfile a \<and> (plog a \<longrightarrow> plogopen a)"

definition store :: "'a BufferManager_scheme \<Rightarrow> 'a pool \<Rightarrow> u32 list \<Rightarrow> bool" where
  "store bm a fs \<longleftrightarrow> implements bm a \<and> store_ok a fs"

lemma storeD:
  assumes "store bm a fs"
  shows "implements bm a" "distinct fs" "\<And>i p. pview a i = Some p \<Longrightarrow> GetPageID p = i"
    "PageSize dvd pfile a" "plog a \<longrightarrow> plogopen a" "pheld a 0 = LFree"
    "\<And>i. i \<in> set fs \<Longrightarrow> pheld a i = LFree" "0 \<notin> set fs" "\<And>i. i \<in> set fs \<Longrightarrow> pview a i \<noteq> None"
proof -
  show "implements bm a" "distinct fs" "\<And>i p. pview a i = Some p \<Longrightarrow> GetPageID p = i"
    "PageSize dvd pfile a" "plog a \<longrightarrow> plogopen a" "pheld a 0 = LFree"
    "\<And>i. i \<in> set fs \<Longrightarrow> pheld a i = LFree"
    using assms by (simp_all add: store_def store_ok_def)
  obtain m where "chain GetNextFreePageID (pview a) (GetFirstFreePageID m) fs"
    using assms by (auto simp: store_def store_ok_def)
  from chain_ids [OF this] show "0 \<notin> set fs" "\<And>i. i \<in> set fs \<Longrightarrow> pview a i \<noteq> None" by auto
qed

lemma store_meta:
  assumes "store bm a fs"
  obtains m where "pview a 0 = Some m" "chain GetNextFreePageID (pview a) (GetFirstFreePageID m) fs"
    "length m = PageSize" "norm_page m = m"
proof -
  obtain m where m: "pview a 0 = Some m" "chain GetNextFreePageID (pview a) (GetFirstFreePageID m) fs"
    using assms by (auto simp: store_def store_ok_def)
  show ?thesis using that m pview_page [OF storeD(1) [OF assms] m(1)] by simp
qed

text \<open>Latching one more page takes at most one more frame.\<close>

definition pages_free :: "'m pool \<Rightarrow> nat \<Rightarrow> bool" where
  "pages_free a n \<longleftrightarrow> finite (busy a) \<and> card (busy a) + n \<le> pcap a"

lemma pages_free_room: "pages_free a (Suc n) \<Longrightarrow> room a i"
  by (simp add: pages_free_def room_def)

lemma pages_free_hold:
  assumes "pages_free a (Suc n)"
  shows "pages_free (a\<lparr>pheld := (pheld a)(i := l)\<rparr>) n"
proof -
  have "busy (a\<lparr>pheld := (pheld a)(i := l)\<rparr>) \<subseteq> insert i (busy a)" by (auto simp: busy_def)
  moreover have "finite (insert i (busy a))" "card (insert i (busy a)) \<le> Suc (card (busy a))"
    using assms by (auto simp: pages_free_def card_insert_if)
  ultimately show ?thesis
    using assms card_mono [of "insert i (busy a)" "busy (a\<lparr>pheld := (pheld a)(i := l)\<rparr>)"]
    by (auto simp: pages_free_def intro: finite_subset)
qed

lemma pages_free_cong [simp]:
  "pages_free (a\<lparr>pview := v\<rparr>) n = pages_free a n" "pages_free (a\<lparr>ptouched := t\<rparr>) n = pages_free a n"
  "pages_free (a\<lparr>pfile := f\<rparr>) n = pages_free a n"
  by (simp_all add: pages_free_def busy_def)

lemma pages_free_less: "pages_free a m \<Longrightarrow> n \<le> m \<Longrightarrow> pages_free a n"
  by (simp add: pages_free_def)

lemma implements_finite_busy: "implements bm a \<Longrightarrow> finite (busy a)"
  using implements_sel(10) finite_busy by metis

lemma pool_release:
  assumes "i \<notin> ptouched a" "pheld a i = LFree"
  shows "a\<lparr>pheld := (pheld a)(i := l), pview := v, ptouched := insert i (ptouched a)\<rparr>
    \<lparr>pheld := ((pheld a)(i := l))(i := LFree), ptouched := insert i (ptouched a) - {i}\<rparr> = a\<lparr>pview := v\<rparr>"
  using assms by (auto intro!: pool.equality)

section \<open>The free list is a stack\<close>

text \<open>What allocation promises whichever way it finds a page: the page is initialised and carries
  its id, it was free or did not exist, and nothing but it and the meta page changed; the meta
  page keeps its root pointer.\<close>

definition allocated :: "u8 \<Rightarrow> u32 \<Rightarrow> 'm pool \<Rightarrow> u32 list \<Rightarrow> 'm pool \<Rightarrow> bool" where
  "allocated t i a fs a' \<longleftrightarrow> i \<noteq> 0 \<and> i = (if fs = [] then of_nat (pfile a div PageSize) else hd fs) \<and>
     (i \<in> set fs \<or> pview a i = None) \<and> pheld a i = LFree \<and>
     (\<exists>p. pview a' i = Some (Page_Init p t) \<and> GetPageID p = i \<and> length p = PageSize) \<and>
     (\<exists>m m'. pview a 0 = Some m \<and> pview a' 0 = Some m' \<and> GetRootPageID m' = GetRootPageID m) \<and>
     (\<forall>j. j \<noteq> 0 \<and> j \<noteq> i \<longrightarrow> pview a' j = pview a j) \<and>
     a' = a\<lparr>pview := pview a', pfile := (if fs = [] then pfile a + PageSize else pfile a)\<rparr>"

lemma allocatedD:
  assumes "allocated t i a fs a'"
  shows "i \<noteq> 0" "i \<in> set fs \<or> pview a i = None" "pheld a i = LFree"
    "\<And>j. j \<noteq> 0 \<Longrightarrow> j \<noteq> i \<Longrightarrow> pview a' j = pview a j" "pheld a' = pheld a" "ptouched a' = ptouched a"
    "pcap a' = pcap a" "plog a' = plog a" "plogopen a' = plogopen a" "pmore a' = pmore a"
    "pfile a' = (if fs = [] then pfile a + PageSize else pfile a)"
    "\<And>n. pages_free a' n = pages_free a n"
    "\<exists>p. pview a' i = Some (Page_Init p t) \<and> GetPageID p = i \<and> length p = PageSize"
    "\<exists>m m'. pview a 0 = Some m \<and> pview a' 0 = Some m' \<and> GetRootPageID m' = GetRootPageID m"
proof -
  have e: "a' = a\<lparr>pview := pview a', pfile := (if fs = [] then pfile a + PageSize else pfile a)\<rparr>"
    using assms by (simp only: allocated_def)
  show "i \<noteq> 0" "i \<in> set fs \<or> pview a i = None" "pheld a i = LFree"
    "\<exists>p. pview a' i = Some (Page_Init p t) \<and> GetPageID p = i \<and> length p = PageSize"
    "\<exists>m m'. pview a 0 = Some m \<and> pview a' 0 = Some m' \<and> GetRootPageID m' = GetRootPageID m"
    by (insert assms [unfolded allocated_def], (elim conjE, assumption)+)
  have "\<forall>j. j \<noteq> 0 \<and> j \<noteq> i \<longrightarrow> pview a' j = pview a j"
    by (insert assms [unfolded allocated_def], elim conjE, assumption)
  then show "\<And>j. j \<noteq> 0 \<Longrightarrow> j \<noteq> i \<Longrightarrow> pview a' j = pview a j" by blast
  show "pheld a' = pheld a" "ptouched a' = ptouched a" "pcap a' = pcap a" "plog a' = plog a"
    "plogopen a' = plogopen a" "pmore a' = pmore a"
    "pfile a' = (if fs = [] then pfile a + PageSize else pfile a)"
    using arg_cong [OF e, of pheld] arg_cong [OF e, of ptouched] arg_cong [OF e, of pcap]
      arg_cong [OF e, of plog] arg_cong [OF e, of plogopen] arg_cong [OF e, of pmore]
      arg_cong [OF e, of pfile] by simp_all
  then show "\<And>n. pages_free a' n = pages_free a n" by (simp add: pages_free_def busy_def)
qed

lemma SetPageID_NewPage:
  "SetPageID (NewPage t) i = Page_Init (SetPageID (replicate PageSize 0) i) t"
  by (simp add: NewPage_def Page_Init_def page_setters Let_def blit_commute [of 8 _ 0]
      blit_commute [of 8 _ 23] blit_commute [of 8 _ 21] blit_commute [of 8 _ 12]
      blit_commute [of 8 _ 20])


lemma store_fetch_meta:
  assumes "store bm a fs" "pages_free a 1"
  obtains q bm1 m where "FetchPageForWrite 0 PageTypeMeta bm = Some (Inr q, bm1)"
    "implements bm1 (a\<lparr>pheld := (pheld a)(0 := LWrite)\<rparr>)" "pview a 0 = Some m" "norm_page q = m"
    "length q = PageSize" "GetFirstFreePageID q = GetFirstFreePageID m"
    "chain GetNextFreePageID (pview a) (GetFirstFreePageID m) fs" "0 \<notin> ptouched a"
proof -
  obtain m where m: "pview a 0 = Some m" "chain GetNextFreePageID (pview a) (GetFirstFreePageID m) fs"
    "length m = PageSize" "norm_page m = m"
    by (rule store_meta [OF assms(1)])
  note st = storeD [OF assms(1)]
  have room: "room a 0" using assms(2) pages_free_room [of a 0] by simp
  obtain q bm1 where f: "FetchPageForWrite 0 PageTypeMeta bm = Some (Inr q, bm1)" "norm_page q = m"
    "implements bm1 (a\<lparr>pheld := (pheld a)(0 := LWrite)\<rparr>)"
    using pool.fetchW_free [OF st(1) m(1) room st(6,5), of PageTypeMeta] by blast
  have len: "length q = PageSize" using f(2) m(3) by (metis length_norm_page)
  have "0 \<notin> ptouched a" using pool.touched_held [OF st(1)] st(6) by auto
  then show ?thesis using that f m len norm_page_get(5) [OF len] by auto
qed

lemma allocatePage_new:
  assumes "store bm a []" "pages_free a 1" "pfile a div PageSize < 2 ^ 32"
  obtains i bm' a' where "allocatePage t bm = Some (Inr i, bm')" "store bm' a' []" "allocated t i a [] a'"
proof -
  obtain q bm1 m where f: "FetchPageForWrite 0 PageTypeMeta bm = Some (Inr q, bm1)"
    "implements bm1 (a\<lparr>pheld := (pheld a)(0 := LWrite)\<rparr>)" "pview a 0 = Some m"
    "GetFirstFreePageID q = GetFirstFreePageID m" "0 \<notin> ptouched a"
    and ch: "chain GetNextFreePageID (pview a) (GetFirstFreePageID m) []"
    by (rule store_fetch_meta [OF assms(1,2)])
  note st = storeD [OF assms(1)]
  let ?a1 = "a\<lparr>pheld := (pheld a)(0 := LWrite)\<rparr>"
  obtain i g where al: "AllocatePage (pager bm1) t = (Inr i, g)" "unat i = pfile a div PageSize" "pview a i = None"
    "implements (bm1\<lparr>pager := g\<rparr>) (?a1\<lparr>pview := (pview a)(i \<mapsto> SetPageID (NewPage t) i), pfile := pfile a + PageSize\<rparr>)"
    using impl_allocate [OF f(2), of t] st(4) assms(3) by auto
  let ?a' = "a\<lparr>pview := (pview a)(i \<mapsto> SetPageID (NewPage t) i), pfile := pfile a + PageSize\<rparr>"
  obtain bm2 where u: "UnpinPage 0 True True (bm1\<lparr>pager := g\<rparr>) = Some (Inr (), bm2)" "implements bm2 ?a'"
    using pool.unpin_write [OF al(4), of 0 True] st(6) f(5) by (auto simp: fun_upd_idem)
  have i: "i = of_nat (pfile a div PageSize)" using arg_cong [OF al(2), of "of_nat :: nat \<Rightarrow> u32"] by simp
  have i0: "i \<noteq> 0" using al(3) f(3) by auto
  have run: "allocatePage t bm = Some (Inr i, bm2)"
    using f(1,4) ch al(1) u(1) by (simp add: allocatePage_def deferUnpin_def)
  have pid: "GetPageID (SetPageID (replicate PageSize 0) i) = i" by (simp add: page_set_same)
  have hi: "pheld a i = LFree"
  proof (rule ccontr)
    assume "pheld a i \<noteq> LFree"
    then show False using held_frame [OF st(1)] al(3) by (metis option.distinct(1))
  qed
  have al': "allocated t i a [] ?a'"
    using al(3) i i0 f(3) hi pid
    by (auto simp: allocated_def SetPageID_NewPage intro!: exI [of _ "SetPageID (replicate PageSize 0) i"])
  have "store bm2 ?a' []"
    using assms(1) u(2) f(3) ch st(4) i0 pid
    by (auto simp: store_def store_ok_def SetPageID_NewPage Page_Init_fields)
  then show ?thesis using that run al' by blast
qed

lemma allocatePage_reuse:
  assumes "store bm a (i # fs)" "pages_free a 2"
  obtains bm' a' where "allocatePage t bm = Some (Inr i, bm')" "store bm' a' fs"
    "allocated t i a (i # fs) a'"
proof -
  have pf1: "pages_free a 1" using assms(2) by (rule pages_free_less) simp
  obtain q bm1 m where f: "FetchPageForWrite 0 PageTypeMeta bm = Some (Inr q, bm1)"
    "implements bm1 (a\<lparr>pheld := (pheld a)(0 := LWrite)\<rparr>)" "pview a 0 = Some m" "norm_page q = m"
    "length q = PageSize" "GetFirstFreePageID q = GetFirstFreePageID m" 
    and ch: "chain GetNextFreePageID (pview a) (GetFirstFreePageID m) (i # fs)" and nt: "0 \<notin> ptouched a"
    by (rule store_fetch_meta [OF assms(1) pf1])
  note st = storeD [OF assms(1)]
  obtain p where p: "GetFirstFreePageID m = i" "i \<noteq> 0" "pview a i = Some p"
    "chain GetNextFreePageID (pview a) (GetNextFreePageID p) fs"
    using ch by auto
  have plen: "length p = PageSize" "norm_page p = p" by (rule pview_page [OF st(1) p(3)])+
  have hi: "pheld a i = LFree" using st(7) by simp
  let ?a1 = "a\<lparr>pheld := (pheld a)(0 := LWrite)\<rparr>"
  have pf: "pages_free ?a1 1" using pages_free_hold [of a 1] assms(2) by (simp add: numeral_2_eq_2)
  have r1: "room ?a1 i" using pf pages_free_room [of ?a1 0] by simp
  obtain r bm2 bm3 where rd: "FetchPageForRead i PageTypeFree bm1 = Some (Inr r, bm2)" "norm_page r = p"
    "UnpinPage i False False bm2 = Some (Inr (), bm3)" "implements bm3 ?a1"
    by (rule pool.read_once [OF f(2), of i p PageTypeFree]) (use p r1 hi in auto)
  have rlen: "length r = PageSize" using rd(2) plen by (metis length_norm_page)
  have nx: "GetNextFreePageID r = GetNextFreePageID p" using norm_page_get(6) [OF rlen] rd(2) by simp
  define m' where "m' = SetFirstFreePageID m (GetNextFreePageID p)"
  have mlen: "length m = PageSize" using f(4,5) by auto
  have q': "norm_page (SetFirstFreePageID q x) = SetFirstFreePageID m x" for x
    using norm_page_set(1) [OF f(5)] f(4) by simp
  let ?a2 = "?a1\<lparr>pview := (pview a)(0 \<mapsto> m'), ptouched := insert 0 (ptouched a)\<rparr>"
  let ?bm4 = "putPage 0 (SetFirstFreePageID q (GetNextFreePageID p)) bm3"
  have i4: "implements ?bm4 ?a2"
    using pool.write_held [OF rd(4), of 0 "SetFirstFreePageID q (GetNextFreePageID p)"] f(5)
    by (simp add: q' m'_def)
  have r2: "room ?a2 i" "plog ?a2 \<longrightarrow> plogopen ?a2"
    using pf pages_free_room [of ?a2 0] st(5) by simp_all
  obtain w bm5 where w: "FetchPageForWrite i t ?bm4 = Some (Inr w, bm5)" "norm_page w = p"
    "\<And>r. length r = PageSize \<Longrightarrow> \<exists>s2. UnpinPage i True True (putPage i r bm5) = Some (Inr (), s2) \<and>
       implements s2 (?a2\<lparr>pview := (pview ?a2)(i \<mapsto> norm_page r)\<rparr>)"
    by (rule pool.write_once [OF i4, of i p t]) (use p r2 hi in auto)
  have wlen: "length w = PageSize" using w(2) plen by (metis length_norm_page)
  have wi: "Page_Init w t = Page_Init p t" using Page_Init_norm [OF wlen] w(2) by simp
  let ?V = "(pview a)(0 \<mapsto> m', i \<mapsto> Page_Init p t)"
  obtain bm6 where u6: "UnpinPage i True True (putPage i (Page_Init w t) bm5) = Some (Inr (), bm6)"
    "implements bm6 (?a2\<lparr>pview := ?V\<rparr>)"
    using w(3) [of "Page_Init w t"] wlen plen(1) norm_page_set(3) [OF wlen, of t] wi by auto
  let ?a' = "a\<lparr>pview := ?V\<rparr>"
  obtain bm7 where u7: "UnpinPage 0 True True bm6 = Some (Inr (), bm7)" "implements bm7 ?a'"
    using pool.unpin_write [OF u6(2), of 0 True] nt st(6) by (auto simp: fun_upd_idem)
  have run: "allocatePage t bm = Some (Inr i, bm7)"
    using f(1,6) p(1,2) rd(1,3) nx w(1) u6(1) u7(1) by (simp add: allocatePage_def deferUnpin_def)
  have ids: "GetPageID p = i" "GetPageID m = 0" using st(3) p(3) f(3) by auto
  have pid: "GetPageID (Page_Init p t) = i" "GetPageID m' = 0"
    "GetFirstFreePageID m' = GetNextFreePageID p" "GetRootPageID m' = GetRootPageID m"
    using ids plen mlen
    by (simp_all add: Page_Init_fields m'_def page_set_same)
      (simp_all add: page_getters page_setters sub_blit_other)
  have al: "allocated t i a (i # fs) ?a'"
    using p(2) f(3) hi pid plen ids by (auto simp: allocated_def)
  have "chain GetNextFreePageID ?V (GetNextFreePageID p) fs"
    using p(4) st(2,8) by (subst chain_cong [of fs ?V "pview a"]) auto
  then have "store bm7 ?a' fs"
    using assms(1) u7(2) pid p(2) by (auto simp: store_def store_ok_def)
  then show ?thesis using that run al by blast
qed

lemma allocatePage_ok:
  assumes "store bm a fs" "pages_free a 2" "fs = [] \<longrightarrow> pfile a div PageSize < 2 ^ 32"
  obtains i bm' a' where "allocatePage t bm = Some (Inr i, bm')" "store bm' a' (tl fs)" "allocated t i a fs a'"
proof (cases fs)
  case Nil
  then show ?thesis
    using allocatePage_new [of bm a t] assms that pages_free_less [OF assms(2), of 1] by auto
next
  case (Cons i js)
  then show ?thesis using allocatePage_reuse [of bm a i js t] assms(1,2) that by auto
qed

lemma deallocatePage_ok:
  assumes "store bm a fs" "pages_free a 2" "pview a i = Some p" "i \<noteq> 0" "i \<notin> set fs" "pheld a i = LFree"
  obtains bm' a' m' where "deallocatePage i bm = Some (Inr (), bm')" "store bm' a' (i # fs)"
    "\<exists>m. pview a 0 = Some m \<and> m' = SetFirstFreePageID m i"
    "a' = a\<lparr>pview := (pview a)(i \<mapsto> SetNextFreePageID (Page_Init p PageTypeFree)
       (if fs = [] then 0 else hd fs), 0 \<mapsto> m')\<rparr>"
proof -
  have pf1: "pages_free a 1" using assms(2) by (rule pages_free_less) simp
  obtain q bm1 m where f: "FetchPageForWrite 0 PageTypeMeta bm = Some (Inr q, bm1)"
    "implements bm1 (a\<lparr>pheld := (pheld a)(0 := LWrite)\<rparr>)" "pview a 0 = Some m" "norm_page q = m"
    "length q = PageSize" "GetFirstFreePageID q = GetFirstFreePageID m"
    and ch: "chain GetNextFreePageID (pview a) (GetFirstFreePageID m) fs" and nt: "0 \<notin> ptouched a"
    by (rule store_fetch_meta [OF assms(1) pf1])
  note st = storeD [OF assms(1)]
  have plen: "length p = PageSize" "norm_page p = p" by (rule pview_page [OF st(1) assms(3)])+
  have mlen: "length m = PageSize" using f(4,5) by auto
  have ff: "GetFirstFreePageID m = (if fs = [] then 0 else hd fs)" using ch by (cases fs) auto
  let ?a1 = "a\<lparr>pheld := (pheld a)(0 := LWrite)\<rparr>"
  have pf: "pages_free ?a1 1" using pages_free_hold [of a 1] assms(2) by (simp add: numeral_2_eq_2)
  have r1: "room ?a1 i" using pf pages_free_room [of ?a1 0] by simp
  obtain w bm2 where w: "FetchPageForWrite i PageTypeFree bm1 = Some (Inr w, bm2)" "norm_page w = p"
    "\<And>r. length r = PageSize \<Longrightarrow> \<exists>s2. UnpinPage i True True (putPage i r bm2) = Some (Inr (), s2) \<and>
       implements s2 (?a1\<lparr>pview := (pview ?a1)(i \<mapsto> norm_page r)\<rparr>)"
    by (rule pool.write_once [OF f(2), of i p PageTypeFree]) (use assms r1 st(5) in auto)
  have wlen: "length w = PageSize" using w(2) plen by (metis length_norm_page)
  have wi: "Page_Init w x = Page_Init p x" for x using Page_Init_norm [OF wlen] w(2) by simp
  define d where "d = SetNextFreePageID (Page_Init p PageTypeFree) (GetFirstFreePageID m)"
  have nd: "norm_page d = d"
    unfolding d_def using norm_page_set(4) [of "Page_Init p PageTypeFree"] norm_page_set(3) [OF plen(1)] plen
    by simp
  obtain bm3 where u3: "UnpinPage i True True (putPage i d bm2) = Some (Inr (), bm3)"
    "implements bm3 (?a1\<lparr>pview := (pview a)(i \<mapsto> d)\<rparr>)"
    using w(3) [of d] plen nd by (auto simp: d_def)
  define m' where "m' = SetFirstFreePageID m i"
  have q': "norm_page (SetFirstFreePageID q i) = m'"
    using norm_page_set(1) [OF f(5)] f(4) by (simp add: m'_def)
  let ?a4 = "?a1\<lparr>pview := (pview a)(i \<mapsto> d, 0 \<mapsto> m'), ptouched := insert 0 (ptouched a)\<rparr>"
  let ?bm4 = "putPage 0 (SetFirstFreePageID q i) bm3"
  have i4: "implements ?bm4 ?a4"
    using pool.write_held [OF u3(2), of 0 "SetFirstFreePageID q i"] f(5) by (simp add: q')
  let ?a' = "a\<lparr>pview := (pview a)(i \<mapsto> d, 0 \<mapsto> m')\<rparr>"
  obtain bm5 where u5: "UnpinPage 0 True True ?bm4 = Some (Inr (), bm5)" "implements bm5 ?a'"
    using pool.unpin_write [OF i4, of 0 True] nt st(6) by (auto simp: fun_upd_idem)
  have run: "deallocatePage i bm = Some (Inr (), bm5)"
    using f(1,6) w(1) u3(1) u5(1) wi by (simp add: deallocatePage_def deferUnpin_def d_def)
  have ids: "GetPageID p = i" "GetPageID m = 0" using st(3) assms(3) f(3) by auto
  have pid: "GetPageID d = i" "GetPageID m' = 0" "GetFirstFreePageID m' = i"
    "GetNextFreePageID d = GetFirstFreePageID m"
  proof -
    have l: "length (Page_Init p PageTypeFree) = PageSize" using plen by simp
    have "GetPageID (SetNextFreePageID r x) = GetPageID r" "GetPageID (SetFirstFreePageID r x) = GetPageID r"
      if "length r = PageSize" for r x
      using that by (simp_all add: page_getters page_setters sub_blit_other)
    then show "GetPageID d = i" "GetPageID m' = 0" using ids plen mlen l by (simp_all add: d_def m'_def Page_Init_fields)
    show "GetFirstFreePageID m' = i" "GetNextFreePageID d = GetFirstFreePageID m"
      using mlen l by (simp_all add: d_def m'_def page_set_same)
  qed
  have "chain GetNextFreePageID ((pview a)(i \<mapsto> d, 0 \<mapsto> m')) (GetFirstFreePageID m) fs"
    using ch st(8) assms(5) by (subst chain_cong [of fs _ "pview a"]) auto
  then have "store bm5 ?a' (i # fs)"
    using assms(1,4,5,6) u5(2) pid by (auto simp: store_def store_ok_def)
  then show ?thesis using that [OF run] f(3) ff by (auto simp: m'_def d_def)
qed


section \<open>Recycling in last-in first-out order\<close>

text \<open>Running an operation on every element of a list, stopping at the first error.\<close>

fun runs :: "('a \<Rightarrow> 's \<Rightarrow> ((goerr + 'b) \<times> 's) option) \<Rightarrow> 'a list \<Rightarrow> 's \<Rightarrow> ('b list \<times> 's) option" where
  "runs f [] s = Some ([], s)"
| "runs f (x # xs) s =
     (case f x s of
        Some (Inr b, s') \<Rightarrow> map_option (\<lambda>(bs, s''). (b # bs, s'')) (runs f xs s')
      | _ \<Rightarrow> None)"

locale free_stack =
  fixes rep :: "'s \<Rightarrow> u32 list \<Rightarrow> bool"
    and usable :: "'s \<Rightarrow> u32 \<Rightarrow> bool"
    and push :: "u32 \<Rightarrow> 's \<Rightarrow> ((goerr + unit) \<times> 's) option"
    and pop :: "u8 \<Rightarrow> 's \<Rightarrow> ((goerr + u32) \<times> 's) option"
  assumes push_law: "\<lbrakk>rep s fs; usable s i; i \<notin> set fs\<rbrakk> \<Longrightarrow>
      \<exists>s'. push i s = Some (Inr (), s') \<and> rep s' (i # fs) \<and> (\<forall>j. usable s j \<longrightarrow> usable s' j)"
    and pop_law: "rep s (i # fs) \<Longrightarrow> \<exists>s'. pop t s = Some (Inr i, s') \<and> rep s' fs"
begin

lemma push_many:
  assumes "rep s fs" "distinct xs" "set xs \<inter> set fs = {}" "\<forall>i \<in> set xs. usable s i"
  shows "\<exists>us s'. runs push xs s = Some (us, s') \<and> rep s' (rev xs @ fs)"
  using assms
proof (induction xs arbitrary: s fs)
  case Nil
  then show ?case by simp
next
  case (Cons x xs)
  obtain s1 where s1: "push x s = Some (Inr (), s1)" "rep s1 (x # fs)" "\<forall>j. usable s j \<longrightarrow> usable s1 j"
    using push_law [OF Cons.prems(1), of x] Cons.prems(3,4) by auto
  then obtain us s' where "runs push xs s1 = Some (us, s')" "rep s' (rev xs @ x # fs)"
    using Cons.IH [OF s1(2)] Cons.prems by auto
  then show ?case using s1(1) by simp
qed

lemma pop_many:
  assumes "rep s (xs @ fs)" "length ts = length xs"
  shows "\<exists>s'. runs pop ts s = Some (xs, s') \<and> rep s' fs"
  using assms
proof (induction xs arbitrary: s ts)
  case Nil
  then show ?case by simp
next
  case (Cons x xs)
  obtain t ts' where ts: "ts = t # ts'" "length ts' = length xs" using Cons.prems(2) by (cases ts) auto
  obtain s1 where s1: "pop t s = Some (Inr x, s1)" "rep s1 (xs @ fs)"
    using pop_law [of s x "xs @ fs" t] Cons.prems(1) by auto
  then show ?case using Cons.IH [OF s1(2) ts(2)] by (auto simp: ts(1))
qed

end

definition stack_rep :: "'a BufferManager_scheme \<Rightarrow> u32 list \<Rightarrow> bool" where
  "stack_rep bm fs \<longleftrightarrow> (\<exists>a. store bm a fs \<and> pages_free a 2)"

definition page_usable :: "'a BufferManager_scheme \<Rightarrow> u32 \<Rightarrow> bool" where
  "page_usable bm i \<longleftrightarrow> i \<noteq> 0 \<and> page_view bm i \<noteq> None \<and> held bm i = LFree"

interpretation free_pages: free_stack stack_rep page_usable deallocatePage allocatePage
proof
  fix bm :: "'a BufferManager_scheme" and fs i t
  show "\<exists>s'. deallocatePage i bm = Some (Inr (), s') \<and> stack_rep s' (i # fs) \<and>
      (\<forall>j. page_usable bm j \<longrightarrow> page_usable s' j)"
    if r: "stack_rep bm fs" "page_usable bm i" "i \<notin> set fs"
  proof -
    obtain a where a: "store bm a fs" "pages_free a 2" using r(1) by (auto simp: stack_rep_def)
    note im = storeD(1) [OF a(1)]
    obtain p where p: "pview a i = Some p" "i \<noteq> 0" "pheld a i = LFree"
      using r(2) implements_sel(1,2) [OF im] by (auto simp: page_usable_def)
    obtain bm' a' m' where d: "deallocatePage i bm = Some (Inr (), bm')" "store bm' a' (i # fs)"
      "a' = a\<lparr>pview := (pview a)(i \<mapsto> SetNextFreePageID (Page_Init p PageTypeFree)
         (if fs = [] then 0 else hd fs), 0 \<mapsto> m')\<rparr>"
      using deallocatePage_ok [OF a p(1,2) r(3) p(3)] by metis
    have "pages_free a' 2" using a(2) d(3) by simp
    moreover have "page_usable bm' j" if "page_usable bm j" for j
      using that implements_sel(1,2) [OF im] implements_sel(1,2) [OF storeD(1) [OF d(2)]] d(3)
      by (auto simp: page_usable_def)
    ultimately show ?thesis using d(1,2) by (auto simp: stack_rep_def)
  qed
  show "\<exists>s'. allocatePage t bm = Some (Inr i, s') \<and> stack_rep s' fs" if r: "stack_rep bm (i # fs)"
  proof -
    obtain a where a: "store bm a (i # fs)" "pages_free a 2" using r by (auto simp: stack_rep_def)
    obtain bm' a' where al: "allocatePage t bm = Some (Inr i, bm')" "store bm' a' fs"
      "allocated t i a (i # fs) a'"
      by (rule allocatePage_reuse [OF a, of t])
    have "pages_free a' 2" using a(2) allocatedD(12) [OF al(3)] by simp
    then show ?thesis using al(1,2) by (auto simp: stack_rep_def)
  qed
qed

section \<open>A database file with no tree content yet\<close>

definition empty_pages :: bytes where
  "empty_pages = SetPageID (NewPage PageTypeMeta) 0 @ SetPageID (NewPage PageTypeLeaf) 1"

definition fresh_pool :: BufferManager where
  "fresh_pool = NewBufferManager (Some empty_pages) 100 (NewWAL None) True (\<lambda>_ xs. xs)"

lemma page_view_fresh:
  "page_view fresh_pool i = (if i = 0 then Some (SetPageID (NewPage PageTypeMeta) 0)
     else if i = 1 then Some (SetPageID (NewPage PageTypeLeaf) 1) else None)"
proof -
  let ?f = "OpenFile (Some empty_pages)"
  have pc: "page_count ?f = 2" by (simp add: page_count_def OpenFile_def empty_pages_def)
  have "disk_page ?f 0 = Some (SetPageID (NewPage PageTypeMeta) 0)"
    unfolding empty_pages_def by (rule disk_page_single) simp
  moreover have "disk_page ?f 1 = Some (SetPageID (NewPage PageTypeLeaf) 1)"
    unfolding empty_pages_def by (rule disk_page_second) simp_all
  moreover have "disk_page ?f i = None" if "i \<noteq> 0" "i \<noteq> 1"
  proof -
    have "unat i \<noteq> 0" "unat i \<noteq> 1"
      using that by (metis unat_eq_0, metis that(2) unsigned_1 word_unat_eq_iff)
    then show ?thesis using disk_page_iff_count [of ?f i] pc by auto
  qed
  ultimately show ?thesis
    by (simp add: fresh_pool_def NewBufferManager_obs norm_NewPage)
qed

lemma sub_replicate: "sub (replicate n x) a k = replicate (min k (n - a)) x"
  by (simp add: sub_def)

lemma zero_word4: "Uint32 (replicate 4 0) = 0"
  by (simp add: Uint32_def numeral_eq_Suc)

lemma meta_fields_new:
  "GetFirstFreePageID (SetPageID (NewPage t) i) = 0" "GetRootPageID (SetPageID (NewPage t) i) = 0"
  by (simp_all add: NewPage_def Page_Init_def page_getters page_setters Let_def sub_blit_other
      sub_replicate zero_word4)

lemma fresh_pool_store: "store fresh_pool (abs_pool fresh_pool) []" "pages_free (abs_pool fresh_pool) 99"
proof -
  have wf: "wf_bm fresh_pool" unfolding fresh_pool_def by (rule wf_NewBufferManager) simp
  have fl: "pager fresh_pool = OpenFile (Some empty_pages)"
    by (simp add: fresh_pool_def NewBufferManager_def NewPager_def)
  have len: "length (fbytes (pager fresh_pool)) = 8192"
    unfolding fl by (simp add: OpenFile_def empty_pages_def)
  have op: "fopen (wfile (wal fresh_pool))"
    by (simp add: fresh_pool_def NewBufferManager_def NewWAL_def OpenFile_def AppendFile_def Let_def)
  have h: "held fresh_pool i = LFree" for i by (simp add: fresh_pool_def NewBufferManager_obs)
  show "store fresh_pool (abs_pool fresh_pool) []"
    using implements_abs [OF wf] len op h
    by (auto simp: store_def store_ok_def page_view_fresh meta_fields_new page_set_same)
  show "pages_free (abs_pool fresh_pool) 99"
    by (simp add: pages_free_def busy_def h) (simp add: fresh_pool_def NewBufferManager_def)
qed

section \<open>Properties of page allocation\<close>

text \<open>C24: Allocation never hands out a page that is in use. From a consistent store, allocatePage
  succeeds; the page it returns was on the free list or did not exist, is initialised with the
  requested type and its own id, and every page other than it and the meta page is unchanged; the
  free list loses at most that page.\<close>

theorem allocate_unused_page:
  assumes "store bm a fs" "pages_free a 2" "fs = [] \<longrightarrow> pfile a div PageSize < 2 ^ 32"
  shows "\<exists>i bm' a'. allocatePage t bm = Some (Inr i, bm') \<and> store bm' a' (tl fs) \<and> i \<noteq> 0 \<and>
    (i \<in> set fs \<or> pview a i = None) \<and> i \<notin> set (tl fs) \<and>
    (\<exists>p. pview a' i = Some p \<and> GetPageType p = t \<and> GetPageID p = i \<and> getSlotCount p = 0) \<and>
    (\<forall>j. j \<noteq> 0 \<and> j \<noteq> i \<longrightarrow> pview a' j = pview a j) \<and> pheld a' = pheld a"
proof -
  obtain i bm' a' where al: "allocatePage t bm = Some (Inr i, bm')" "store bm' a' (tl fs)" "allocated t i a fs a'"
    by (rule allocatePage_ok [OF assms])
  note ad = allocatedD [OF al(3)]
  have n: "i \<notin> set (tl fs)"
    using al(3) storeD(2) [OF assms(1)] by (cases fs) (auto simp: allocated_def)
  have "\<exists>p. pview a' i = Some p \<and> GetPageType p = t \<and> GetPageID p = i \<and> getSlotCount p = 0"
    using ad(13) by (auto simp: Page_Init_fields)
  then show ?thesis using al(1,2) ad(1,2,4,5) n by blast
qed

theorem allocate_unused_page_witness:
  "\<exists>i bm' a'. allocatePage PageTypeOverflow fresh_pool = Some (Inr i, bm') \<and> store bm' a' [] \<and> i \<noteq> 0"
  using allocate_unused_page [OF fresh_pool_store(1) pages_free_less [OF fresh_pool_store(2)], of PageTypeOverflow]
  by (auto simp: fresh_pool_def NewBufferManager_def NewPager_def OpenFile_def empty_pages_def)

text \<open>C23: Freed pages are recycled in last-in first-out order: after freeing distinct pages that
  are in use, as many allocations return exactly these pages, the last freed first, and the free
  list is what it was before.\<close>

theorem free_list_lifo:
  assumes "store bm a fs" "pages_free a 2" "distinct xs" "set xs \<inter> set fs = {}"
    and "\<forall>i \<in> set xs. i \<noteq> 0 \<and> page_view bm i \<noteq> None \<and> held bm i = LFree"
    and "length ts = length xs"
  shows "\<exists>us bm1 bm2 a2. runs deallocatePage xs bm = Some (us, bm1) \<and>
    runs allocatePage ts bm1 = Some (rev xs, bm2) \<and> store bm2 a2 fs"
proof -
  have "stack_rep bm fs" using assms(1,2) by (auto simp: stack_rep_def)
  then obtain us bm1 where f: "runs deallocatePage xs bm = Some (us, bm1)" "stack_rep bm1 (rev xs @ fs)"
    using free_pages.push_many [of bm fs xs] assms(3-5) by (auto simp: page_usable_def)
  then show ?thesis
    using free_pages.pop_many [of bm1 "rev xs" fs ts] assms(6) by (auto simp: stack_rep_def)
qed

theorem free_list_lifo_witness:
  "\<exists>us bm1 bm2. runs deallocatePage [1] fresh_pool = Some (us, bm1) \<and>
     runs allocatePage [PageTypeInternal] bm1 = Some ([1], bm2)"
proof -
  have "held fresh_pool 1 = LFree" by (simp add: fresh_pool_def NewBufferManager_obs)
  then show ?thesis
    using free_list_lifo [OF fresh_pool_store(1) pages_free_less [OF fresh_pool_store(2)], of "[1]" "[PageTypeInternal]"]
    by (auto simp: page_view_fresh simp del: runs.simps)
qed

end
