(* ===== verification/Overflow.thy ===== *)
theory Overflow
  imports Free_List
begin

text \<open>
  Values too large for a cell: \<^verbatim>\<open>createOverflowChain\<close> and \<^verbatim>\<open>readOverflowChain\<close> of
  \<^verbatim>\<open>internal/storage/btree.go\<close> and \<^verbatim>\<open>freeOverflowChain\<close> of \<^verbatim>\<open>internal/storage/vacuum.go\<close>. A value is
  cut into chunks of at most 4060 bytes, one per linked overflow page, and the cell keeps eight
  bytes of metadata. \<open>holds_value\<close> says that the pages starting at an id spell out a value; creating
  a chain establishes it, reading returns the value, freeing returns every page to the free list.
\<close>

section \<open>Operations\<close>

function createLoop ::
  "bytes \<Rightarrow> u32 \<Rightarrow> u32 option \<Rightarrow> 'a BufferManager_scheme \<Rightarrow> ((goerr + u32) \<times> 'a BufferManager_scheme) option" where
  "createLoop dataRemaining firstPageID prevPage bm =
     (if dataRemaining = [] then Some (Inr firstPageID, bm)
      else
        andThen (allocatePage PageTypeOverflow bm) (\<lambda>newPageID bm.
        andThen (FetchPageForWrite newPageID PageTypeOverflow bm) (\<lambda>page bm. do {
          let firstPageID = (if firstPageID = 0 then newPageID else firstPageID);
          bm \<leftarrow> (case prevPage of
                   None \<Rightarrow> Some bm
                 | Some prev \<Rightarrow> do {
                     p \<leftarrow> getPage prev bm;
                     let p = SetNextOverflowPageID p newPageID;
                     (_, bm) \<leftarrow> UnpinPage (GetPageID p) True True (putPage prev p bm);
                     Some bm
                   });
          let chunkSize = (if length dataRemaining > MaxOverflowDataSize then MaxOverflowDataSize
                           else length dataRemaining);
          let page = SetNextOverflowPageID page 0;
          let page = WriteOverflowData page (take chunkSize dataRemaining);
          let bm = putPage newPageID page bm;
          (if drop chunkSize dataRemaining = []
           then do {
             (_, bm) \<leftarrow> UnpinPage newPageID True True bm;
             createLoop (drop chunkSize dataRemaining) firstPageID prevPage bm
           }
           else createLoop (drop chunkSize dataRemaining) firstPageID (Some newPageID) bm)
        })))"
  by pat_completeness auto
termination by (relation "measure (\<lambda>(d, _, _, _). length d)") auto

declare createLoop.simps [simp del]

definition createOverflowChain ::
  "bytes \<Rightarrow> 'a BufferManager_scheme \<Rightarrow> ((goerr + bytes) \<times> 'a BufferManager_scheme) option" where
  "createOverflowChain val bm =
     andThen (createLoop val 0 None bm) (\<lambda>firstPageID bm.
       Some (Inr (PutUint32 firstPageID @ PutUint32 (of_nat (length val))), bm))"

partial_function (option) readLoop ::
  "u32 \<Rightarrow> u32 \<Rightarrow> u32 \<Rightarrow> bytes \<Rightarrow> 'a BufferManager_scheme \<Rightarrow> ((goerr + bytes) \<times> 'a BufferManager_scheme) option" where
  "readLoop currPageID totalLength bytesRead result bm =
     (if currPageID = 0 then Some (Inr result, bm)
      else
        andThen (FetchPageForRead currPageID PageTypeOverflow bm) (\<lambda>page bm.
          let chunkSize = totalLength - bytesRead;
              chunkSize = (if chunkSize > MaxOverflowDataSize then MaxOverflowDataSize else chunkSize);
              chunk = ReadOverflowData page chunkSize;
              nextPageID = GetNextOverflowPageID page
          in Option.bind (UnpinPage currPageID False False bm) (\<lambda>(_, bm).
               readLoop nextPageID totalLength (bytesRead + chunkSize) (result @ chunk) bm)))"

definition readOverflowChain ::
  "bytes \<Rightarrow> 'a BufferManager_scheme \<Rightarrow> ((goerr + bytes) \<times> 'a BufferManager_scheme) option" where
  "readOverflowChain metadata bm = do {
     m1 \<leftarrow> goslice metadata 0 4;
     m2 \<leftarrow> goslice metadata 4 8;
     readLoop (Uint32 m1) (Uint32 m2) 0 [] bm
   }"

text \<open>An error of \<^verbatim>\<open>deallocatePage\<close> is only printed; an error of the fetch ends the loop.\<close>

partial_function (option) freeLoop :: "u32 \<Rightarrow> 'a BufferManager_scheme \<Rightarrow> 'a BufferManager_scheme option" where
  "freeLoop currPageID bm =
     (if currPageID = 0 then Some bm
      else Option.bind (FetchPageForRead currPageID PageTypeOverflow bm) (\<lambda>(r, bm).
        case r of
          Inl e \<Rightarrow> Some bm
        | Inr page \<Rightarrow>
            Option.bind (UnpinPage currPageID False False bm) (\<lambda>(_, bm).
            Option.bind (deallocatePage currPageID bm) (\<lambda>(_, bm).
              freeLoop (GetNextOverflowPageID page) bm))))"

definition freeOverflowChain :: "bytes \<Rightarrow> 'a BufferManager_scheme \<Rightarrow> 'a BufferManager_scheme option" where
  "freeOverflowChain metadata bm = do {
     m1 \<leftarrow> goslice metadata 0 4;
     freeLoop (Uint32 m1) bm
   }"


section \<open>What a chain of overflow pages spells\<close>

fun spells :: "(u32 \<Rightarrow> page option) \<Rightarrow> u32 \<Rightarrow> u32 list \<Rightarrow> bytes \<Rightarrow> bool" where
  "spells V i [] val = (i = 0 \<and> val = [])"
| "spells V i (j # js) val =
     (i = j \<and> i \<noteq> 0 \<and> val \<noteq> [] \<and>
      (\<exists>p. V i = Some p \<and> sub p 36 (min 4060 (length val)) = take 4060 val \<and>
         spells V (GetNextOverflowPageID p) js (drop 4060 val)))"

lemma spells_cong:
  "(\<And>j. j \<in> set js \<Longrightarrow> V j = V' j) \<Longrightarrow> spells V i js val = spells V' i js val"
  by (induction js arbitrary: i val) auto

lemma spells_chain: "spells V i js val \<Longrightarrow> chain GetNextOverflowPageID V i js"
  by (induction js arbitrary: i val) auto

lemma spells_head: "spells V i js val \<Longrightarrow> val \<noteq> [] \<Longrightarrow> js \<noteq> [] \<and> hd js = i \<and> i \<noteq> 0"
  by (cases js) auto

section \<open>Reading a chain\<close>

lemma readLoop_spells:
  assumes "implements bm a" "pages_free a 1" "spells (pview a) i js val"
    and "\<forall>j \<in> set js. pheld a j = LFree" "r + length val < 2 ^ 32"
  shows "\<exists>bm'. readLoop i (of_nat (r + length val)) (of_nat r) res bm = Some (Inr (res @ val), bm') \<and>
    implements bm' a"
  using assms
proof (induction js arbitrary: bm i val r res)
  case Nil
  then show ?case by (simp add: readLoop.simps)
next
  case (Cons j js)
  obtain p where p: "i \<noteq> 0" "j = i" "val \<noteq> []" "pview a i = Some p"
    "sub p 36 (min 4060 (length val)) = take 4060 val"
    "spells (pview a) (GetNextOverflowPageID p) js (drop 4060 val)"
    using Cons.prems(3) unfolding spells.simps by blast
  have h: "pheld a i = LFree" "room a i"
    using Cons.prems(2,4) p(2) pages_free_room [of a 0] by simp_all
  obtain q bm1 bm2 where rd: "FetchPageForRead i PageTypeOverflow bm = Some (Inr q, bm1)" "norm_page q = p"
    "UnpinPage i False False bm1 = Some (Inr (), bm2)" "implements bm2 a"
    by (rule pool.read_once [OF Cons.prems(1) p(4) h(2,1)])
  have qlen: "length q = PageSize"
    using rd(2) pview_page(1) [OF Cons.prems(1) p(4)] by (metis length_norm_page)
  let ?n = "min 4060 (length val)"
  have diff: "(of_nat (r + length val) :: u32) - of_nat r = of_nat (length val)" by simp
  have un: "unat (of_nat (length val) :: u32) = length val" using Cons.prems(5) by simp
  have c: "(if (of_nat (length val) :: u32) > 4060 then 4060 else of_nat (length val)) = (of_nat ?n :: u32)"
    by (simp add: word_less_nat_alt un min_def)
  have rdd: "ReadOverflowData q (of_nat ?n) = take 4060 val"
  proof -
    have "unat (of_nat ?n :: u32) = ?n" using Cons.prems(5) by simp
    then have "ReadOverflowData p (of_nat ?n) = sub p 36 ?n"
      by (auto simp: ReadOverflowData_def Let_def word_less_nat_alt)
    then show ?thesis using norm_page_get(7) [OF qlen] rd(2) p(5) by metis
  qed
  have nx: "GetNextOverflowPageID q = GetNextOverflowPageID p" using norm_page_get(3) [OF qlen] rd(2) by simp
  have len: "r + ?n + length (drop 4060 val) = r + length val" by (simp add: min_def)
  have "readLoop i (of_nat (r + length val)) (of_nat r) res bm =
      readLoop (GetNextOverflowPageID p) (of_nat (r + length val)) (of_nat r + of_nat ?n) (res @ take 4060 val) bm2"
    using p(1) rd(1,3) rdd nx by (subst readLoop.simps) (simp only: andThen_simps if_False diff c Let_def bind.simps prod.case)
  then have e: "readLoop i (of_nat (r + length val)) (of_nat r) res bm =
      readLoop (GetNextOverflowPageID p) (of_nat (r + ?n + length (drop 4060 val))) (of_nat (r + ?n)) (res @ take 4060 val) bm2"
    by (simp only: len of_nat_add)
  have "\<exists>bm'. readLoop (GetNextOverflowPageID p) (of_nat (r + ?n + length (drop 4060 val))) (of_nat (r + ?n))
      (res @ take 4060 val) bm2 = Some (Inr ((res @ take 4060 val) @ drop 4060 val), bm') \<and> implements bm' a"
    by (rule Cons.IH [OF rd(4) Cons.prems(2) p(6)]) (use Cons.prems(4,5) len in auto)
  then show ?case using e by simp
qed

section \<open>Creating a chain\<close>

lemma overflow_page:
  fixes val :: bytes
  assumes "length p = PageSize"
  defines "pg \<equiv> WriteOverflowData (SetNextOverflowPageID p 0) (take 4060 val)"
  shows "length pg = PageSize" "sub (SetNextOverflowPageID pg x) 36 (min 4060 (length val)) = take 4060 val"
    "GetNextOverflowPageID (SetNextOverflowPageID pg x) = x" "GetPageID (SetNextOverflowPageID pg x) = GetPageID p"
    "GetPageID pg = GetPageID p" "GetNextOverflowPageID pg = 0" "sub pg 36 (min 4060 (length val)) = take 4060 val"
proof -
  have len: "length (take 4060 val) = min 4060 (length val)" by simp
  show "length pg = PageSize" using assms(1) by (simp add: pg_def)
  have s: "sub pg 36 (min 4060 (length val)) = take 4060 val"
    using assms(1) sub_blit_same [of 36 "take 4060 val" "SetNextOverflowPageID p 0"]
    by (simp add: pg_def WriteOverflowData_def min_def)
  then show "sub pg 36 (min 4060 (length val)) = take 4060 val" .
  show "sub (SetNextOverflowPageID pg x) 36 (min 4060 (length val)) = take 4060 val"
    using s by (simp add: SetNextOverflowPageID_def sub_blit_other)
  show "GetNextOverflowPageID (SetNextOverflowPageID pg x) = x" "GetPageID (SetNextOverflowPageID pg x) = GetPageID p"
    "GetPageID pg = GetPageID p" "GetNextOverflowPageID pg = 0"
    using assms(1) by (simp_all add: pg_def page_getters page_setters sub_blit_other)
qed

lemma createLoop_fetch:
  assumes "store bm a fs" "pages_free a 2" "fs = [] \<longrightarrow> pfile a div PageSize < 2 ^ 32"
  obtains new bm1 a1 q bm2 p where "allocatePage PageTypeOverflow bm = Some (Inr new, bm1)"
    "store bm1 a1 (tl fs)" "allocated PageTypeOverflow new a fs a1"
    "FetchPageForWrite new PageTypeOverflow bm1 = Some (Inr q, bm2)" "length q = PageSize"
    "implements bm2 (a1\<lparr>pheld := (pheld a)(new := LWrite)\<rparr>)" "pview a1 new = Some p" "norm_page q = p"
    "GetPageID p = new" "length p = PageSize" "new \<notin> ptouched a" "new \<notin> set (tl fs)"
proof -
  obtain new bm1 a1 where al: "allocatePage PageTypeOverflow bm = Some (Inr new, bm1)"
    "store bm1 a1 (tl fs)" "allocated PageTypeOverflow new a fs a1"
    by (rule allocatePage_ok [OF assms])
  note ad = allocatedD [OF al(3)] and st = storeD [OF al(2)]
  obtain p where p: "pview a1 new = Some p" using ad(13) by blast
  have r: "room a1 new" using ad(12) assms(2) pages_free_room [of a1 1] by (simp add: numeral_2_eq_2)
  have h: "pheld a1 new = LFree" using ad(3,5) by simp
  obtain q bm2 where f: "FetchPageForWrite new PageTypeOverflow bm1 = Some (Inr q, bm2)" "norm_page q = p"
    "implements bm2 (a1\<lparr>pheld := (pheld a1)(new := LWrite)\<rparr>)"
    using pool.fetchW_free [OF st(1) p r h st(5), of PageTypeOverflow] by blast
  have len: "length p = PageSize" by (rule pview_page(1) [OF st(1) p])
  then have qlen: "length q = PageSize" using f(2) by (metis length_norm_page)
  have nt: "new \<notin> ptouched a" using pool.touched_held [OF storeD(1) [OF assms(1)]] ad(3) by auto
  have nfs: "new \<notin> set (tl fs)"
    using al(3) storeD(2) [OF assms(1)] by (cases fs) (auto simp: allocated_def)
  show ?thesis
    by (rule that [OF al f(1) qlen _ p f(2) st(3) [OF p] len nt nfs]) (use f(3) ad(5) in simp)
qed


text \<open>What creating a chain leaves alone, relative to the state it started in.\<close>

definition chain_frame :: "'m pool \<Rightarrow> u32 list \<Rightarrow> u32 list \<Rightarrow> 'm pool \<Rightarrow> bool" where
  "chain_frame a fs js a' \<longleftrightarrow> distinct js \<and> 0 \<notin> set js \<and> set js \<inter> set (drop (length js) fs) = {} \<and>
     (\<forall>j \<in> set js. pheld a j = LFree \<and> (j \<in> set fs \<or> pview a j = None)) \<and>
     (\<exists>m m'. pview a 0 = Some m \<and> pview a' 0 = Some m' \<and> GetRootPageID m' = GetRootPageID m) \<and>
     pcap a' = pcap a \<and> plog a' = plog a \<and> plogopen a' = plogopen a \<and> pmore a' = pmore a \<and>
     pfile a' \<le> pfile a + PageSize * length js"

lemma pages_free_swap:
  assumes "pages_free a n" "pheld a prev \<noteq> LFree" "pheld b = (pheld a)(new := l, prev := LFree)" "pcap b = pcap a"
  shows "pages_free b n"
proof -
  have fin: "finite (busy a)" "prev \<in> busy a" using assms(1,2) by (auto simp: pages_free_def busy_def)
  have sub: "busy b \<subseteq> insert new (busy a - {prev})" using assms(3) by (auto simp: busy_def)
  have "card (insert new (busy a - {prev})) \<le> Suc (card (busy a - {prev}))" using fin by (simp add: card_insert_if)
  also have "\<dots> = card (busy a)" using fin by (rule card_Suc_Diff1)
  finally have "card (busy b) \<le> card (busy a)" using card_mono [OF _ sub] fin(1) by simp
  then show ?thesis using assms(1,4) sub fin(1) by (auto simp: pages_free_def intro: finite_subset)
qed

lemma createLoop_some:
  assumes "store bm a fs" "pages_free a 2" "pheld a prev = LWrite" "pview a prev = Some pp"
    and "data \<noteq> []" "first \<noteq> 0" "pfile a div PageSize + length data \<le> 2 ^ 32"
  shows "\<exists>js bm' a'. createLoop data first (Some prev) bm = Some (Inr first, bm') \<and>
    store bm' a' (drop (length js) fs) \<and> chain_frame a fs js a' \<and> prev \<notin> set js \<and>
    spells (pview a') (hd js) js data \<and> js \<noteq> [] \<and> pview a' prev = Some (SetNextOverflowPageID pp (hd js)) \<and>
    pheld a' = (pheld a)(prev := LFree) \<and> ptouched a' = ptouched a - {prev} \<and>
    (\<forall>k. k \<noteq> 0 \<and> k \<noteq> prev \<and> k \<notin> set js \<longrightarrow> pview a' k = pview a k)"
  using assms
proof (induction data arbitrary: bm a fs prev pp rule: length_induct)
  case (1 data)
  have fsp: "fs = [] \<longrightarrow> pfile a div PageSize < 2 ^ 32" using 1(8,6) by (cases data) auto
  obtain new bm1 a1 q bm2 p where al: "allocatePage PageTypeOverflow bm = Some (Inr new, bm1)"
    "store bm1 a1 (tl fs)" "allocated PageTypeOverflow new a fs a1"
    and f: "FetchPageForWrite new PageTypeOverflow bm1 = Some (Inr q, bm2)" "length q = PageSize"
    "implements bm2 (a1\<lparr>pheld := (pheld a)(new := LWrite)\<rparr>)"
    and p: "pview a1 new = Some p" "norm_page q = p" "GetPageID p = new" "length p = PageSize"
    and nt: "new \<notin> ptouched a" and nfs: "new \<notin> set (tl fs)"
    by (rule createLoop_fetch [OF 1(2,3) fsp])
  note ad = allocatedD [OF al(3)] and st = storeD [OF 1(2)]
  have np: "new \<noteq> prev" using ad(3) 1(4) by auto
  have p0: "prev \<noteq> 0" using 1(4) st(6) by auto
  have pfs: "prev \<notin> set fs" "prev \<notin> set (tl fs)" using st(7) 1(4) by (cases fs; auto)+
  have ppl: "length pp = PageSize" "norm_page pp = pp" "GetPageID pp = prev"
    using pview_page [OF st(1) 1(5)] st(3) [OF 1(5)] by auto
  let ?a2 = "a1\<lparr>pheld := (pheld a)(new := LWrite)\<rparr>"
  have v2: "pview a1 prev = Some pp" using ad(4) [OF p0 np [symmetric]] 1(5) by simp
  have h2: "pheld ?a2 prev = LWrite" using np 1(4) by simp
  obtain r where r: "getPage prev bm2 = Some r" "pview ?a2 prev = Some (norm_page r)" "length r = PageSize"
    by (rule impl_getPage [OF f(3), of prev]) (use h2 in auto)
  have nr: "norm_page r = pp" using r(2) v2 by simp
  define r' where "r' = SetNextOverflowPageID r new"
  have r': "norm_page r' = SetNextOverflowPageID pp new" "length r' = PageSize" "GetPageID r' = prev"
  proof -
    show "norm_page r' = SetNextOverflowPageID pp new" "length r' = PageSize"
      using norm_page_set(5) [OF r(3)] nr r(3) by (simp_all add: r'_def)
    have "GetPageID r = prev" using norm_page_get(1) [OF r(3)] nr ppl(3) by simp
    then show "GetPageID r' = prev"
      using r(3) by (simp add: r'_def page_getters page_setters sub_blit_other)
  qed
  let ?a3 = "?a2\<lparr>pview := (pview a1)(prev \<mapsto> SetNextOverflowPageID pp new), ptouched := insert prev (ptouched a)\<rparr>"
  have i3: "implements (putPage prev r' bm2) ?a3"
    using pool.write_held [OF f(3) h2 r'(2)] r'(1) ad(6) by simp
  let ?h4 = "(pheld a)(new := LWrite, prev := LFree)"
  let ?a4 = "a1\<lparr>pview := (pview a1)(prev \<mapsto> SetNextOverflowPageID pp new), pheld := ?h4, ptouched := ptouched a - {prev}\<rparr>"
  obtain bm4 where u4: "UnpinPage prev True True (putPage prev r' bm2) = Some (Inr (), bm4)" "implements bm4 ?a4"
    using pool.unpin_write [OF i3, of prev True] h2 by auto
  define pg where "pg = WriteOverflowData (SetNextOverflowPageID q 0) (take 4060 data)"
  define npg where "npg = WriteOverflowData (SetNextOverflowPageID p 0) (take 4060 data)"
  have pg: "norm_page pg = npg" "length pg = PageSize"
    using norm_page_set(5) [OF f(2)] norm_page_set(6) [of "SetNextOverflowPageID q 0"] p(2) f(2)
    by (simp_all add: pg_def npg_def)
  note op = overflow_page [OF p(4), of data, folded npg_def]
  let ?V = "(pview a1)(prev \<mapsto> SetNextOverflowPageID pp new, new \<mapsto> npg)"
  let ?a5 = "a1\<lparr>pheld := ?h4, pview := ?V, ptouched := insert new (ptouched a - {prev})\<rparr>"
  have i5: "implements (putPage new pg bm4) ?a5"
    using pool.write_held [OF u4(2) _ pg(2), of new] pg(1) np by simp
  have tk: "take (if length data > 4060 then 4060 else length data) data = take 4060 data"
    "drop (if length data > 4060 then 4060 else length data) data = drop 4060 data" by simp_all
  have step: "createLoop data first (Some prev) bm =
      (if drop 4060 data = []
       then Option.bind (UnpinPage new True True (putPage new pg bm4)) (\<lambda>(_, bm). createLoop (drop 4060 data) first (Some prev) bm)
       else createLoop (drop 4060 data) first (Some new) (putPage new pg bm4))"
    using 1(6,7) al(1) f(1) r(1) r'(3) u4(1) tk
    by (subst createLoop.simps) (simp add: Let_def r'_def pg_def)
  have meta: "\<exists>m m'. pview a 0 = Some m \<and> ?V 0 = Some m' \<and> GetRootPageID m' = GetRootPageID m"
    using ad(14) p0 ad(1) by auto
  have cf: "chain GetNextFreePageID ?V x (tl fs) = chain GetNextFreePageID (pview a1) x (tl fs)" for x
    using pfs nfs by (intro chain_cong) auto
  have s5: "store (putPage new pg bm4) ?a5 (tl fs)"
  proof -
    have "GetPageID (SetNextOverflowPageID pp new) = prev"
      using ppl by (simp add: page_getters page_setters sub_blit_other)
    then show ?thesis
      using al(2) i5 cf op(5) p(3) p0 ad(1) nfs np ad(5) pfs
      by (auto simp: store_def store_ok_def)
  qed
  show ?case
  proof (cases "drop 4060 data = []")
    case True
    let ?a6 = "?a5\<lparr>pheld := ?h4(new := LFree), ptouched := ptouched a - {prev}\<rparr>"
    have t6: "insert new (ptouched a - {prev}) - {new} = ptouched a - {prev}" using nt by auto
    obtain bm6 where u6: "UnpinPage new True True (putPage new pg bm4) = Some (Inr (), bm6)" "implements bm6 ?a6"
      using pool.unpin_write [OF i5, of new True] np t6 by auto
    have h6: "?h4(new := LFree) = (pheld a)(prev := LFree)" using ad(3) np by (auto simp: fun_eq_iff)
    have s6: "store bm6 ?a6 (tl fs)"
      using s5 u6(2) by (auto simp: store_def store_ok_def)
    have fr: "chain_frame a fs [new] ?a6"
      using ad meta nfs by (auto simp: chain_frame_def drop_Suc)
    have "createLoop data first (Some prev) bm = Some (Inr first, bm6)"
      using step True u6(1) by (simp add: createLoop.simps)
    moreover have "spells (pview ?a6) (hd [new]) [new] data"
      using op 1(6) True ad(1) by simp
    moreover have "pview ?a6 prev = Some (SetNextOverflowPageID pp new)" "pheld ?a6 = (pheld a)(prev := LFree)"
      "ptouched ?a6 = ptouched a - {prev}"
      "\<forall>k. k \<noteq> 0 \<and> k \<noteq> prev \<and> k \<notin> set [new] \<longrightarrow> pview ?a6 k = pview a k"
      using np h6 ad(4) by simp_all
    moreover have "store bm6 ?a6 (drop (length [new]) fs)" using s6 by (simp add: drop_Suc)
    ultimately show ?thesis
      using fr np by (intro exI [of _ "[new]"] exI [of _ bm6] exI [of _ ?a6] conjI) (assumption | simp)+
  next
    case False
    have pf5: "pages_free ?a5 2"
      by (rule pages_free_swap [OF 1(3), of prev _ new LWrite]) (use 1(4) ad(7) in simp_all)
    have bound: "pfile ?a5 div PageSize + length (drop 4060 data) \<le> 2 ^ 32"
    proof -
      have "pfile a1 div PageSize \<le> Suc (pfile a div PageSize)" using ad(11) by (auto split: if_splits)
      moreover have "length (drop 4060 data) + 1 \<le> length data" using 1(6) by (cases data) auto
      ultimately show ?thesis using 1(8) by simp
    qed
    obtain js bm' a' where ih: "createLoop (drop 4060 data) first (Some new) (putPage new pg bm4) = Some (Inr first, bm')"
      "store bm' a' (drop (length js) (tl fs))" "chain_frame ?a5 (tl fs) js a'" "new \<notin> set js"
      "spells (pview a') (hd js) js (drop 4060 data)" "js \<noteq> []"
      "pview a' new = Some (SetNextOverflowPageID npg (hd js))"
      "pheld a' = ?h4(new := LFree)" "ptouched a' = insert new (ptouched a - {prev}) - {new}"
      "\<forall>k. k \<noteq> 0 \<and> k \<noteq> new \<and> k \<notin> set js \<longrightarrow> pview a' k = pview ?a5 k"
      using 1(1) [rule_format, of "drop 4060 data" "putPage new pg bm4" ?a5 "tl fs" new npg] s5 pf5 False 1(6,7) bound np
      by auto
    have cfr: "distinct js" "0 \<notin> set js" "\<And>j. j \<in> set js \<Longrightarrow> ?h4 j = LFree \<and> (j \<in> set (tl fs) \<or> ?V j = None)"
      "\<exists>m m'. ?V 0 = Some m \<and> pview a' 0 = Some m' \<and> GetRootPageID m' = GetRootPageID m"
      "pcap a' = pcap a" "plog a' = plog a" "plogopen a' = plogopen a" "pmore a' = pmore a"
      using ih(3) ad by (auto simp: chain_frame_def)
    have pfl: "pfile a' \<le> pfile a + PageSize * length (new # js)"
      using ih(3) ad(11) by (simp add: chain_frame_def split: if_splits)
    have pj: "prev \<notin> set js"
    proof
      assume "prev \<in> set js"
      from cfr(3) [OF this] show False using pfs np by auto
    qed
    have inj: "pheld a j = LFree \<and> (j \<in> set fs \<or> pview a j = None)" if "j \<in> set js" for j
    proof -
      have "j \<noteq> new" "j \<noteq> prev" "j \<noteq> 0" using that ih(4) pj cfr(2) by auto
      then show ?thesis using cfr(3) [OF that] ad(4) [of j] by (cases fs) auto
    qed
    have dj: "set (new # js) \<inter> set (drop (length (new # js)) fs) = {}"
      using ih(3) nfs by (auto simp: chain_frame_def drop_Suc dest: in_set_dropD)
    have fr: "chain_frame a fs (new # js) a'"
    proof -
      have "\<exists>m m'. pview a 0 = Some m \<and> pview a' 0 = Some m' \<and> GetRootPageID m' = GetRootPageID m"
        using meta cfr(4) by auto
      then show ?thesis using cfr inj ih(4) ad(1,2,3) dj pfl by (simp add: chain_frame_def)
    qed
    have sp: "spells (pview a') new (new # js) data"
      using op ih(5,7) 1(6) ad(1) by simp
    have vp: "pview a' prev = Some (SetNextOverflowPageID pp new)" using ih(10) p0 np pj by simp
    have "\<forall>k. k \<noteq> 0 \<and> k \<noteq> prev \<and> k \<notin> set (new # js) \<longrightarrow> pview a' k = pview a k"
      using ih(10) ad(4) by auto
    moreover have "pheld a' = (pheld a)(prev := LFree)" "ptouched a' = ptouched a - {prev}"
      using ih(8,9) ad(3) nt np by (auto simp: fun_eq_iff)
    moreover have "createLoop data first (Some prev) bm = Some (Inr first, bm')" using step False ih(1) by simp
    ultimately show ?thesis
      using ih(2) fr sp vp np pj
      by (intro exI [of _ "new # js"] exI [of _ bm'] exI [of _ a']) (simp add: drop_Suc del: spells.simps)
  qed
qed


lemma createLoop_none:
  assumes "store bm a fs" "pages_free a 3" "data \<noteq> []" "pfile a div PageSize + length data \<le> 2 ^ 32"
  shows "\<exists>js bm' a'. createLoop data 0 None bm = Some (Inr (hd js), bm') \<and>
    store bm' a' (drop (length js) fs) \<and> chain_frame a fs js a' \<and>
    spells (pview a') (hd js) js data \<and> js \<noteq> [] \<and> pheld a' = pheld a \<and> ptouched a' = ptouched a \<and>
    (\<forall>k. k \<noteq> 0 \<and> k \<notin> set js \<longrightarrow> pview a' k = pview a k)"
proof -
  have pf2: "pages_free a 2" using assms(2) by (rule pages_free_less) simp
  have fsp: "fs = [] \<longrightarrow> pfile a div PageSize < 2 ^ 32" using assms(3,4) by (cases data) auto
  obtain new bm1 a1 q bm2 p where al: "allocatePage PageTypeOverflow bm = Some (Inr new, bm1)"
    "store bm1 a1 (tl fs)" "allocated PageTypeOverflow new a fs a1"
    and f: "FetchPageForWrite new PageTypeOverflow bm1 = Some (Inr q, bm2)" "length q = PageSize"
    "implements bm2 (a1\<lparr>pheld := (pheld a)(new := LWrite)\<rparr>)"
    and p: "pview a1 new = Some p" "norm_page q = p" "GetPageID p = new" "length p = PageSize"
    and nt: "new \<notin> ptouched a" and nfs: "new \<notin> set (tl fs)"
    by (rule createLoop_fetch [OF assms(1) pf2 fsp])
  note ad = allocatedD [OF al(3)] and st = storeD [OF assms(1)]
  define pg where "pg = WriteOverflowData (SetNextOverflowPageID q 0) (take 4060 data)"
  define npg where "npg = WriteOverflowData (SetNextOverflowPageID p 0) (take 4060 data)"
  have pg: "norm_page pg = npg" "length pg = PageSize"
    using norm_page_set(5) [OF f(2)] norm_page_set(6) [of "SetNextOverflowPageID q 0"] p(2) f(2)
    by (simp_all add: pg_def npg_def)
  note op = overflow_page [OF p(4), of data, folded npg_def]
  let ?V = "(pview a1)(new \<mapsto> npg)"
  let ?a5 = "a1\<lparr>pheld := (pheld a)(new := LWrite), pview := ?V, ptouched := insert new (ptouched a)\<rparr>"
  have i5: "implements (putPage new pg bm2) ?a5"
    using pool.write_held [OF f(3) _ pg(2), of new] pg(1) ad(6) by simp
  have tk: "take (if length data > 4060 then 4060 else length data) data = take 4060 data"
    "drop (if length data > 4060 then 4060 else length data) data = drop 4060 data" by simp_all
  have step: "createLoop data 0 None bm =
      (if drop 4060 data = []
       then Option.bind (UnpinPage new True True (putPage new pg bm2)) (\<lambda>(_, bm). createLoop (drop 4060 data) new None bm)
       else createLoop (drop 4060 data) new (Some new) (putPage new pg bm2))"
    using assms(3) al(1) f(1) tk by (subst createLoop.simps) (simp add: Let_def pg_def)
  have cf: "chain GetNextFreePageID ?V x (tl fs) = chain GetNextFreePageID (pview a1) x (tl fs)" for x
    using nfs by (intro chain_cong) auto
  have s5: "store (putPage new pg bm2) ?a5 (tl fs)"
    using al(2) i5 cf op(5) p(3) ad(1) nfs ad(5) by (auto simp: store_def store_ok_def)
  show ?thesis
  proof (cases "drop 4060 data = []")
    case True
    let ?a6 = "a1\<lparr>pview := ?V, pheld := pheld a, ptouched := ptouched a\<rparr>"
    have h: "(pheld a)(new := LFree) = pheld a" using ad(3) by (simp add: fun_upd_idem)
    obtain bm6 where u6: "UnpinPage new True True (putPage new pg bm2) = Some (Inr (), bm6)" "implements bm6 ?a6"
      using pool.unpin_write [OF i5, of new True] nt h by auto
    have s6: "store bm6 ?a6 (drop (length [new]) fs)"
      using s5 u6(2) ad(3) by (auto simp: store_def store_ok_def drop_Suc split: if_splits)
    have fr: "chain_frame a fs [new] ?a6" using ad nfs by (auto simp: chain_frame_def drop_Suc)
    have "createLoop data 0 None bm = Some (Inr (hd [new]), bm6)"
      using step True u6(1) by (simp add: createLoop.simps)
    moreover have "spells (pview ?a6) (hd [new]) [new] data"
      using op assms(3) True ad(1) by simp
    moreover have "\<forall>k. k \<noteq> 0 \<and> k \<notin> set [new] \<longrightarrow> pview ?a6 k = pview a k"
      using ad(4) by simp
    ultimately show ?thesis
      using fr s6 by (intro exI [of _ "[new]"] exI [of _ bm6] exI [of _ ?a6] conjI) (assumption | simp)+
  next
    case False
    have pf5: "pages_free ?a5 2"
    proof -
      have "pages_free (a1\<lparr>pheld := (pheld a1)(new := LWrite)\<rparr>) 2"
        by (rule pages_free_hold) (use assms(2) ad(12) in \<open>simp add: numeral_3_eq_3\<close>)
      then show ?thesis using ad(5) by (simp add: pages_free_def busy_def)
    qed
    have bound: "pfile ?a5 div PageSize + length (drop 4060 data) \<le> 2 ^ 32"
    proof -
      have "pfile a1 div PageSize \<le> Suc (pfile a div PageSize)" using ad(11) by (auto split: if_splits)
      moreover have "length (drop 4060 data) + 1 \<le> length data" using assms(3) by (cases data) auto
      ultimately show ?thesis using assms(4) by simp
    qed
    obtain js bm' a' where ih: "createLoop (drop 4060 data) new (Some new) (putPage new pg bm2) = Some (Inr new, bm')"
      "store bm' a' (drop (length js) (tl fs))" "chain_frame ?a5 (tl fs) js a'" "new \<notin> set js"
      "spells (pview a') (hd js) js (drop 4060 data)" "js \<noteq> []"
      "pview a' new = Some (SetNextOverflowPageID npg (hd js))"
      "pheld a' = (pheld a)(new := LWrite, new := LFree)" "ptouched a' = insert new (ptouched a) - {new}"
      "\<forall>k. k \<noteq> 0 \<and> k \<noteq> new \<and> k \<notin> set js \<longrightarrow> pview a' k = pview ?a5 k"
      using createLoop_some [OF s5 pf5, of new npg "drop 4060 data" new] False ad(1) bound by auto
    have cfr: "distinct js" "0 \<notin> set js" "\<And>j. j \<in> set js \<Longrightarrow> (j \<in> set (tl fs) \<or> ?V j = None) \<and> ((pheld a)(new := LWrite)) j = LFree"
      "\<exists>m m'. ?V 0 = Some m \<and> pview a' 0 = Some m' \<and> GetRootPageID m' = GetRootPageID m"
      "pcap a' = pcap a" "plog a' = plog a" "plogopen a' = plogopen a" "pmore a' = pmore a"
      using ih(3) ad by (auto simp: chain_frame_def)
    have pfl: "pfile a' \<le> pfile a + PageSize * length (new # js)"
      using ih(3) ad(11) by (simp add: chain_frame_def split: if_splits)
    have inj: "pheld a j = LFree \<and> (j \<in> set fs \<or> pview a j = None)" if "j \<in> set js" for j
    proof -
      have "j \<noteq> new" "j \<noteq> 0" using that ih(4) cfr(2) by auto
      then show ?thesis using cfr(3) [OF that] ad(4) [of j] by (cases fs) auto
    qed
    have dj: "set (new # js) \<inter> set (drop (length (new # js)) fs) = {}"
      using ih(3) nfs by (auto simp: chain_frame_def drop_Suc dest: in_set_dropD)
    have "\<exists>m m'. pview a 0 = Some m \<and> pview a' 0 = Some m' \<and> GetRootPageID m' = GetRootPageID m"
      using ad(14) ad(1) cfr(4) by auto
    then have fr: "chain_frame a fs (new # js) a'"
      using cfr inj ih(4) ad(1,2,3) dj pfl by (simp add: chain_frame_def)
    have sp: "spells (pview a') (hd (new # js)) (new # js) data"
      using op ih(5,7) assms(3) ad(1) by simp
    have oth: "\<forall>k. k \<noteq> 0 \<and> k \<notin> set (new # js) \<longrightarrow> pview a' k = pview a k"
      using ih(10) ad(4) by auto
    have "pheld a' = pheld a" "ptouched a' = ptouched a"
      using ih(8,9) ad(3) nt by (auto simp: fun_eq_iff)
    moreover have "createLoop data 0 None bm = Some (Inr (hd (new # js)), bm')" using step False ih(1) by simp
    moreover have "store bm' a' (drop (length (new # js)) fs)" using ih(2) by (simp add: drop_Suc)
    ultimately show ?thesis
      using fr sp oth by (intro exI [of _ "new # js"] exI [of _ bm'] exI [of _ a'] conjI) (assumption | simp)+
  qed
qed

lemma createOverflowChain_ok:
  assumes "store bm a fs" "pages_free a 3" "val \<noteq> []" "pfile a div PageSize + length val \<le> 2 ^ 32"
  obtains js bm' a' where
    "createOverflowChain val bm = Some (Inr (PutUint32 (hd js) @ PutUint32 (of_nat (length val))), bm')"
    "store bm' a' (drop (length js) fs)" "chain_frame a fs js a'" "spells (pview a') (hd js) js val"
    "pheld a' = pheld a" "ptouched a' = ptouched a"
    "\<And>k. k \<noteq> 0 \<Longrightarrow> k \<notin> set js \<Longrightarrow> pview a' k = pview a k"
  using createLoop_none [OF assms] by (auto simp: createOverflowChain_def)

lemma readOverflowChain_ok:
  assumes "implements bm a" "pages_free a 1" "spells (pview a) i js val"
    and "\<forall>j \<in> set js. pheld a j = LFree" "length val < 2 ^ 32"
  obtains bm' where "readOverflowChain (PutUint32 i @ PutUint32 (of_nat (length val))) bm = Some (Inr val, bm')"
    "implements bm' a"
  using readLoop_spells [OF assms(1-4), of 0 "[]"] assms(5) by (auto simp: readOverflowChain_def)

section \<open>Freeing a chain\<close>

lemma freeLoop_ok:
  assumes "store bm a fs" "pages_free a 2" "chain GetNextOverflowPageID (pview a) i js" "distinct js"
    and "\<forall>j \<in> set js. pheld a j = LFree \<and> j \<notin> set fs"
  shows "\<exists>bm' a'. freeLoop i bm = Some bm' \<and> store bm' a' (rev js @ fs) \<and>
    a' = a\<lparr>pview := pview a'\<rparr> \<and> (\<forall>k. k \<noteq> 0 \<and> k \<notin> set js \<longrightarrow> pview a' k = pview a k) \<and>
    (\<exists>m m'. pview a 0 = Some m \<and> pview a' 0 = Some m' \<and> GetRootPageID m' = GetRootPageID m)"
  using assms
proof (induction js arbitrary: bm a fs i)
  case Nil
  obtain m where "pview a 0 = Some m" using store_meta [OF Nil.prems(1)] by metis
  then show ?case using Nil.prems by (intro exI [of _ bm] exI [of _ a]) (simp add: freeLoop.simps)
next
  case (Cons j js)
  obtain p where p: "i \<noteq> 0" "j = i" "pview a i = Some p" "chain GetNextOverflowPageID (pview a) (GetNextOverflowPageID p) js"
    using Cons.prems(3) unfolding chain.simps by blast
  note st = storeD [OF Cons.prems(1)]
  have h: "pheld a i = LFree" "room a i" "i \<notin> set fs" "i \<notin> set js"
    using Cons.prems(2,4,5) p(2) pages_free_room [of a 1] by (auto simp: numeral_2_eq_2)
  obtain q bm1 bm2 where rd: "FetchPageForRead i PageTypeOverflow bm = Some (Inr q, bm1)" "norm_page q = p"
    "UnpinPage i False False bm1 = Some (Inr (), bm2)" "implements bm2 a"
    by (rule pool.read_once [OF st(1) p(3) h(2,1)])
  have "length q = PageSize" using rd(2) pview_page(1) [OF st(1) p(3)] by (metis length_norm_page)
  then have nx: "GetNextOverflowPageID q = GetNextOverflowPageID p" using norm_page_get(3) [of q] rd(2) by simp
  have s2: "store bm2 a fs" using Cons.prems(1) rd(4) by (simp add: store_def)
  obtain bm3 a3 m' where d: "deallocatePage i bm2 = Some (Inr (), bm3)" "store bm3 a3 (i # fs)"
    "\<exists>m. pview a 0 = Some m \<and> m' = SetFirstFreePageID m i"
    "a3 = a\<lparr>pview := (pview a)(i \<mapsto> SetNextFreePageID (Page_Init p PageTypeFree)
       (if fs = [] then 0 else hd fs), 0 \<mapsto> m')\<rparr>"
    using deallocatePage_ok [OF s2 Cons.prems(2) p(3,1) h(3,1)] by metis
  have v3: "pview a3 k = pview a k" if "k \<noteq> 0" "k \<noteq> i" for k using that d(4) by simp
  obtain m where m: "pview a 0 = Some m" "pview a3 0 = Some m'" "GetRootPageID m' = GetRootPageID m"
  proof -
    obtain m where m: "pview a 0 = Some m" "m' = SetFirstFreePageID m i" using d(3) by blast
    have "length m = PageSize" by (rule pview_page(1) [OF st(1) m(1)])
    then have "GetRootPageID m' = GetRootPageID m"
      by (simp add: m(2) page_getters page_setters sub_blit_other)
    then show ?thesis using that m(1) d(4) by simp
  qed
  have nz: "0 \<notin> set js" using chain_ids [OF p(4)] by simp
  have ch3: "chain GetNextOverflowPageID (pview a3) (GetNextOverflowPageID p) js"
  proof -
    have "pview a3 k = pview a k" if "k \<in> set js" for k
      by (rule v3) (use that nz h(4) in auto)
    then show ?thesis using p(4) chain_cong [of js "pview a3" "pview a"] by simp
  qed
  have pf3: "pages_free a3 2" "pheld a3 = pheld a" using Cons.prems(2) d(4) by simp_all
  have dj: "distinct js" "\<forall>k \<in> set js. pheld a3 k = LFree \<and> k \<notin> set (i # fs)"
    using Cons.prems(4,5) pf3(2) p(2) by auto
  obtain bm' a' where ih: "freeLoop (GetNextOverflowPageID p) bm3 = Some bm'" "store bm' a' (rev js @ i # fs)"
    "a' = a3\<lparr>pview := pview a'\<rparr>" "\<forall>k. k \<noteq> 0 \<and> k \<notin> set js \<longrightarrow> pview a' k = pview a3 k"
    "\<exists>m m'. pview a3 0 = Some m \<and> pview a' 0 = Some m' \<and> GetRootPageID m' = GetRootPageID m"
    using Cons.IH [OF d(2) pf3(1) ch3 dj] by blast
  have run: "freeLoop i bm = Some bm'"
    using p(1) rd(1,3) d(1) nx ih(1) by (subst freeLoop.simps) simp
  have "a' = a\<lparr>pview := pview a'\<rparr>"
    by (rule trans [OF ih(3)]) (simp add: d(4))
  moreover have "\<forall>k. k \<noteq> 0 \<and> k \<notin> set (j # js) \<longrightarrow> pview a' k = pview a k"
    using ih(4) v3 p(2) by auto
  moreover have "\<exists>m m'. pview a 0 = Some m \<and> pview a' 0 = Some m' \<and> GetRootPageID m' = GetRootPageID m"
    using m ih(5) by auto
  moreover have "store bm' a' (rev (j # js) @ fs)" using ih(2) p(2) by simp
  ultimately show ?case using run by blast
qed


lemma freeOverflowChain_ok:
  assumes "store bm a fs" "pages_free a 2" "spells (pview a) i js val" "distinct js"
    and "\<forall>j \<in> set js. pheld a j = LFree \<and> j \<notin> set fs"
  obtains bm' a' where "freeOverflowChain (PutUint32 i @ xs) bm = Some bm'" "store bm' a' (rev js @ fs)"
    "a' = a\<lparr>pview := pview a'\<rparr>" "\<And>k. k \<noteq> 0 \<Longrightarrow> k \<notin> set js \<Longrightarrow> pview a' k = pview a k"
    "\<exists>m m'. pview a 0 = Some m \<and> pview a' 0 = Some m' \<and> GetRootPageID m' = GetRootPageID m"
  using freeLoop_ok [OF assms(1,2) spells_chain [OF assms(3)] assms(4,5)]
  by (auto simp: freeOverflowChain_def)

section \<open>Properties of overflow chains\<close>

lemma fresh_pool_file: "length (fbytes (pager fresh_pool)) = 8192"
  by (simp add: fresh_pool_def NewBufferManager_def NewPager_def OpenFile_def empty_pages_def)


text \<open>C22: Large values survive. From a consistent store with three unpinned frames, writing a
  non-empty value to overflow pages and reading it back through the returned metadata gives exactly
  the value, and every page that existed, other than the meta page and pages of the free list, is
  unchanged.\<close>

theorem overflow_roundtrip:
  assumes "store bm a fs" "pages_free a 3" "val \<noteq> []" "length val < 2 ^ 32"
    and "pfile a div PageSize + length val \<le> 2 ^ 32"
  shows "\<exists>meta bm1 bm2. createOverflowChain val bm = Some (Inr meta, bm1) \<and> length meta = 8 \<and>
    readOverflowChain meta bm1 = Some (Inr val, bm2) \<and>
    (\<forall>k. k \<noteq> 0 \<and> k \<notin> set fs \<and> page_view bm k \<noteq> None \<longrightarrow> page_view bm2 k = page_view bm k)"
proof -
  obtain js bm1 a1 where c: "createOverflowChain val bm = Some (Inr (PutUint32 (hd js) @ PutUint32 (of_nat (length val))), bm1)"
    "store bm1 a1 (drop (length js) fs)" "chain_frame a fs js a1" "spells (pview a1) (hd js) js val"
    "pheld a1 = pheld a" "\<And>k. k \<noteq> 0 \<Longrightarrow> k \<notin> set js \<Longrightarrow> pview a1 k = pview a k"
    using createOverflowChain_ok [OF assms(1-3,5)] by metis
  have pf: "pages_free a1 1"
    using assms(2) c(3,5) by (simp add: pages_free_def busy_def chain_frame_def)
  have fr: "\<forall>j \<in> set js. pheld a1 j = LFree" using c(3,5) by (simp add: chain_frame_def)
  obtain bm2 where r: "readOverflowChain (PutUint32 (hd js) @ PutUint32 (of_nat (length val))) bm1 = Some (Inr val, bm2)"
    "implements bm2 a1"
    by (rule readOverflowChain_ok [OF storeD(1) [OF c(2)] pf c(4) fr assms(4)])
  have "page_view bm2 k = page_view bm k" if "k \<noteq> 0" "k \<notin> set fs" "page_view bm k \<noteq> None" for k
  proof -
    have v: "page_view bm = pview a" "page_view bm2 = pview a1"
      using implements_sel(1) [OF storeD(1) [OF assms(1)]] implements_sel(1) [OF r(2)] by simp_all
    have "k \<notin> set js" using c(3) that v(1) by (auto simp: chain_frame_def)
    then show ?thesis using c(6) that(1) v by simp
  qed
  then show ?thesis using c(1) r(1) by (intro exI conjI) auto
qed

theorem overflow_roundtrip_witness:
  "\<exists>meta bm1 bm2. createOverflowChain [1, 2, 3] fresh_pool = Some (Inr meta, bm1) \<and>
     readOverflowChain meta bm1 = Some (Inr [1, 2, 3], bm2)"
  using overflow_roundtrip [OF fresh_pool_store(1) pages_free_less [OF fresh_pool_store(2)], of "[1, 2, 3]"]
  by (simp add: fresh_pool_file) blast

text \<open>C25: Freeing a chain leaks nothing: every page that createOverflowChain took for a value is on
  the free list after freeOverflowChain on its metadata, last page first, the rest of the free list
  is as creation left it, and pages outside the chain keep their content.\<close>

theorem overflow_free_returns_pages:
  assumes "store bm a fs" "pages_free a 3" "val \<noteq> []" "pfile a div PageSize + length val \<le> 2 ^ 32"
  shows "\<exists>meta bm1 bm2 a2 js. createOverflowChain val bm = Some (Inr meta, bm1) \<and>
    freeOverflowChain meta bm1 = Some bm2 \<and> js \<noteq> [] \<and> distinct js \<and>
    store bm2 a2 (rev js @ drop (length js) fs) \<and>
    (\<forall>k. k \<noteq> 0 \<and> k \<notin> set js \<longrightarrow> page_view bm2 k = page_view bm k)"
proof -
  obtain js bm1 a1 where c: "createOverflowChain val bm = Some (Inr (PutUint32 (hd js) @ PutUint32 (of_nat (length val))), bm1)"
    "store bm1 a1 (drop (length js) fs)" "chain_frame a fs js a1" "spells (pview a1) (hd js) js val"
    "pheld a1 = pheld a" "\<And>k. k \<noteq> 0 \<Longrightarrow> k \<notin> set js \<Longrightarrow> pview a1 k = pview a k"
    using createOverflowChain_ok [OF assms] by metis
  have pf: "pages_free a1 2"
    using assms(2) c(3,5) by (simp add: pages_free_def busy_def chain_frame_def)
  have nfs: "\<forall>j \<in> set js. pheld a1 j = LFree \<and> j \<notin> set (drop (length js) fs)"
    using c(3,5) by (auto simp: chain_frame_def)
  have dj: "distinct js" using c(3) by (simp add: chain_frame_def)
  obtain bm2 a2 where d: "freeOverflowChain (PutUint32 (hd js) @ PutUint32 (of_nat (length val))) bm1 = Some bm2"
    "store bm2 a2 (rev js @ drop (length js) fs)" "\<And>k. k \<noteq> 0 \<Longrightarrow> k \<notin> set js \<Longrightarrow> pview a2 k = pview a1 k"
    by (rule freeOverflowChain_ok [OF c(2) pf c(4) dj nfs, of "PutUint32 (of_nat (length val))"]) blast
  have v: "page_view bm = pview a" "page_view bm2 = pview a2"
    using implements_sel(1) [OF storeD(1) [OF assms(1)]] implements_sel(1) [OF storeD(1) [OF d(2)]] by simp_all
  have "js \<noteq> []" "distinct js" using c(3) spells_head [OF c(4) assms(3)] by (simp_all add: chain_frame_def)
  then show ?thesis using c(1,6) d v by (intro exI conjI) auto
qed

theorem overflow_free_returns_pages_witness:
  "\<exists>meta bm1 bm2. createOverflowChain [1, 2, 3] fresh_pool = Some (Inr meta, bm1) \<and>
     freeOverflowChain meta bm1 = Some bm2"
  using overflow_free_returns_pages [OF fresh_pool_store(1) pages_free_less [OF fresh_pool_store(2)], of "[1, 2, 3]"]
  by (simp add: fresh_pool_file) blast

end
