(* ===== verification/Txn.thy ===== *)
theory Txn
  imports Prelude "HOL-Library.AList"
begin

text \<open>
  Transactions, \<^verbatim>\<open>internal/storage/txn.go\<close>: the transaction manager with its status and last-LSN
  tables, and the multi-version keys \<^verbatim>\<open>[UserKey] 0x00 [TxID big-endian]\<close>.

  The Go maps are association lists with at most one entry per key. The clock read by
  \<open>GenerateTxID\<close> is an argument of \<open>Begin\<close>. The mutex makes every method atomic, so each method is
  one function on the state.
\<close>

section \<open>The transaction manager\<close>

datatype TxnStatus = TXN_RUNNING | TXN_COMMITED | TXN_ROLLINGBACK | TXN_ROLLEDBACK

record TransactionManager =
  txnTable :: "(u64 \<times> TxnStatus) list"
  lsnTable :: "(u64 \<times> u64) list"

definition NewTransactionManager :: TransactionManager where
  "NewTransactionManager = \<lparr>txnTable = [], lsnTable = []\<rparr>"

definition SetStatus :: "TransactionManager \<Rightarrow> u64 \<Rightarrow> TxnStatus \<Rightarrow> TransactionManager" where
  "SetStatus t txid status = t\<lparr>txnTable := AList.update txid status (txnTable t)\<rparr>"

definition SetLastLSN :: "TransactionManager \<Rightarrow> u64 \<Rightarrow> u64 \<Rightarrow> TransactionManager" where
  "SetLastLSN t txid lsn = t\<lparr>lsnTable := AList.update txid lsn (lsnTable t)\<rparr>"

definition GetLastLSN :: "TransactionManager \<Rightarrow> u64 \<Rightarrow> u64" where
  "GetLastLSN t txid = (case map_of (lsnTable t) txid of Some lsn \<Rightarrow> lsn | None \<Rightarrow> 0)"

definition GetStatus :: "TransactionManager \<Rightarrow> u64 \<Rightarrow> TxnStatus" where
  "GetStatus t txid =
     (case map_of (txnTable t) txid of Some status \<Rightarrow> status | None \<Rightarrow> TXN_COMMITED)"

definition GenerateTxID :: "u64 \<Rightarrow> u64" where
  "GenerateTxID now = now"

definition Begin :: "TransactionManager \<Rightarrow> u64 \<Rightarrow> u64 \<times> TransactionManager" where
  "Begin t now =
     (let txId = GenerateTxID now
      in (txId, t\<lparr>txnTable := AList.update txId TXN_RUNNING (txnTable t)\<rparr>))"

definition Txn_Commit :: "TransactionManager \<Rightarrow> u64 \<Rightarrow> TransactionManager" where
  "Txn_Commit t txid = t\<lparr>txnTable := AList.update txid TXN_COMMITED (txnTable t)\<rparr>"

definition Txn_Rollback :: "TransactionManager \<Rightarrow> u64 \<Rightarrow> TransactionManager" where
  "Txn_Rollback t txid = t\<lparr>txnTable := AList.update txid TXN_ROLLEDBACK (txnTable t)\<rparr>"

definition GetMinActiveTxID :: "TransactionManager \<Rightarrow> u64" where
  "GetMinActiveTxID t =
     fold (\<lambda>(txid, status) minTxID.
         if status = TXN_RUNNING then (if txid < minTxID then txid else minTxID) else minTxID)
       (txnTable t) (- 1)"

fun pruneLoop :: "u64 \<Rightarrow> (u64 \<times> TxnStatus) list \<Rightarrow> TransactionManager \<Rightarrow> TransactionManager" where
  "pruneLoop minActive [] t = t"
| "pruneLoop minActive ((txid, status) # es) t =
     pruneLoop minActive es
       (if status \<noteq> TXN_RUNNING \<and> txid < minActive
        then t\<lparr>txnTable := AList.delete txid (txnTable t), lsnTable := AList.delete txid (lsnTable t)\<rparr>
        else t)"

definition PruneTables :: "TransactionManager \<Rightarrow> u64 \<Rightarrow> TransactionManager" where
  "PruneTables t minActive = pruneLoop minActive (txnTable t) t"

section \<open>Multi-version keys\<close>

definition BuildMVCCKey :: "bytes \<Rightarrow> u64 \<Rightarrow> bytes" where
  "BuildMVCCKey key txID =
     (let mvccKey = replicate (length key + 9) 0;
          mvccKey = blit mvccKey 0 key;
          mvccKey = blit mvccKey (length key) [0]
      in blit mvccKey (length key + 1) (BigPutUint64 txID))"

definition ExtractMVCCKey :: "bytes \<Rightarrow> bytes \<times> u64" where
  "ExtractMVCCKey mvccKey =
     (if length mvccKey < 9 then (mvccKey, 0)
      else if mvccKey ! (length mvccKey - 9) \<noteq> 0 then (mvccKey, 0)
      else (take (length mvccKey - 9) mvccKey, BigUint64 (drop (length mvccKey - 8) mvccKey)))"

section \<open>Lemmas on the tables\<close>

definition wf_txn :: "TransactionManager \<Rightarrow> bool" where
  "wf_txn t \<longleftrightarrow> distinct (map fst (txnTable t)) \<and> distinct (map fst (lsnTable t))"

lemma wf_txn_ops [intro, simp]:
  "wf_txn NewTransactionManager"
  "wf_txn t \<Longrightarrow> wf_txn (SetStatus t x s)"
  "wf_txn t \<Longrightarrow> wf_txn (SetLastLSN t x l)"
  "wf_txn t \<Longrightarrow> wf_txn (snd (Begin t now))"
  "wf_txn t \<Longrightarrow> wf_txn (Txn_Commit t x)"
  "wf_txn t \<Longrightarrow> wf_txn (Txn_Rollback t x)"
  by (simp_all add: wf_txn_def NewTransactionManager_def SetStatus_def SetLastLSN_def Begin_def
      Txn_Commit_def Txn_Rollback_def Let_def distinct_update)

lemma GetStatus_simps [simp]:
  "GetStatus (SetStatus t x s) y = (if y = x then s else GetStatus t y)"
  "GetStatus (SetLastLSN t x l) y = GetStatus t y"
  "GetStatus (Txn_Commit t x) y = (if y = x then TXN_COMMITED else GetStatus t y)"
  "GetStatus (Txn_Rollback t x) y = (if y = x then TXN_ROLLEDBACK else GetStatus t y)"
  "GetStatus (snd (Begin t now)) y = (if y = now then TXN_RUNNING else GetStatus t y)"
  "GetStatus NewTransactionManager y = TXN_COMMITED"
  by (simp_all add: GetStatus_def SetStatus_def SetLastLSN_def Txn_Commit_def Txn_Rollback_def
      Begin_def GenerateTxID_def NewTransactionManager_def Let_def update_conv)

lemma GetLastLSN_simps [simp]:
  "GetLastLSN (SetLastLSN t x l) y = (if y = x then l else GetLastLSN t y)"
  "GetLastLSN (SetStatus t x s) y = GetLastLSN t y"
  by (simp_all add: GetLastLSN_def SetLastLSN_def SetStatus_def update_conv)

lemma min_fold:
  fixes m :: u64
  defines "f \<equiv> (\<lambda>(txid, status) m.
    if status = TXN_RUNNING then (if txid < m then txid else m) else m)"
  shows "fold f xs m \<le> m"
    and "(x, TXN_RUNNING) \<in> set xs \<Longrightarrow> fold f xs m \<le> x"
    and "fold f xs m = m \<or> (fold f xs m, TXN_RUNNING) \<in> set xs"
proof -
  have step: "f y m \<le> m" for y m by (auto simp: f_def split: prod.splits)
  have le_all: "fold f xs m \<le> m" for xs m
    by (induction xs arbitrary: m) (auto intro: order_trans step)
  show "fold f xs m \<le> m" by (rule le_all)
  show "fold f xs m \<le> x" if "(x, TXN_RUNNING) \<in> set xs"
    using that
  proof (induction xs arbitrary: m)
    case Nil
    then show ?case by simp
  next
    case (Cons y xs)
    have "fold f xs (f (x, TXN_RUNNING) m) \<le> f (x, TXN_RUNNING) m" by (rule le_all)
    moreover have "f (x, TXN_RUNNING) m \<le> x" by (auto simp: f_def)
    ultimately show ?case using Cons by auto
  qed
  show "fold f xs m = m \<or> (fold f xs m, TXN_RUNNING) \<in> set xs"
  proof (induction xs arbitrary: m)
    case Nil
    then show ?case by simp
  next
    case (Cons y xs)
    show ?case using Cons [of "f y m"] by (auto simp: f_def split: prod.splits if_splits)
  qed
qed

lemma min_active_le: "GetStatus tm w = TXN_RUNNING \<Longrightarrow> GetMinActiveTxID tm \<le> w"
  unfolding GetMinActiveTxID_def
  by (rule min_fold(2)) (auto simp: GetStatus_def dest: map_of_SomeD split: option.splits)

fun prunes :: "u64 \<Rightarrow> (u64 \<times> TxnStatus) list \<Rightarrow> u64 \<Rightarrow> bool" where
  "prunes m [] x = False"
| "prunes m ((y, s) # es) x = (y = x \<and> s \<noteq> TXN_RUNNING \<and> y < m \<or> prunes m es x)"

lemma txnTable_pruneLoop:
  "map_of (txnTable (pruneLoop m xs t)) x = (if prunes m xs x then None else map_of (txnTable t) x)"
  by (induction m xs t rule: pruneLoop.induct) (simp_all add: delete_conv)

lemma lsnTable_pruneLoop:
  "map_of (lsnTable (pruneLoop m xs t)) x = (if prunes m xs x then None else map_of (lsnTable t) x)"
  by (induction m xs t rule: pruneLoop.induct) (simp_all add: delete_conv)

text \<open>A transaction with an entry that is not running, below the watermark.\<close>

definition pruned :: "TransactionManager \<Rightarrow> u64 \<Rightarrow> u64 \<Rightarrow> bool" where
  "pruned t m x \<longleftrightarrow> (\<exists>s. map_of (txnTable t) x = Some s \<and> s \<noteq> TXN_RUNNING) \<and> x < m"

lemma prunes_iff:
  "distinct (map fst xs) \<Longrightarrow>
   prunes m xs x \<longleftrightarrow> (\<exists>s. map_of xs x = Some s \<and> s \<noteq> TXN_RUNNING) \<and> x < m"
  by (induction xs) (auto simp: map_of_eq_None_iff image_iff dest: map_of_SomeD)

lemma wf_txn_PruneTables [simp]: "wf_txn t \<Longrightarrow> wf_txn (PruneTables t m)"
proof -
  have "wf_txn t \<Longrightarrow> wf_txn (pruneLoop m xs t)" for xs
    by (induction m xs t rule: pruneLoop.induct) (simp_all add: wf_txn_def distinct_delete)
  then show "wf_txn t \<Longrightarrow> wf_txn (PruneTables t m)" by (simp add: PruneTables_def)
qed

lemma GetStatus_PruneTables:
  assumes "wf_txn t"
  shows "GetStatus (PruneTables t m) x =
    (if GetStatus t x \<noteq> TXN_RUNNING \<and> x < m then TXN_COMMITED else GetStatus t x)"
  using assms prunes_iff [of "txnTable t" m x]
  by (auto simp: GetStatus_def PruneTables_def txnTable_pruneLoop wf_txn_def split: option.split
      dest: eq_key_imp_eq_value)

lemma GetLastLSN_PruneTables:
  assumes "wf_txn t" "GetStatus t x = TXN_RUNNING"
  shows "GetLastLSN (PruneTables t m) x = GetLastLSN t x"
  using assms prunes_iff [of "txnTable t" m x]
  by (simp add: GetLastLSN_def PruneTables_def lsnTable_pruneLoop wf_txn_def)
    (auto simp: GetStatus_def split: option.splits dest: eq_key_imp_eq_value)

section \<open>The order of multi-version keys\<close>

lemma BuildMVCCKey_layout: "BuildMVCCKey key txID = key @ 0 # BigPutUint64 txID"
  using blits_fresh_0 [of "[key, [0], BigPutUint64 txID]" "length key + 9" 0]
  by (simp add: BuildMVCCKey_def Let_def del: replicate_Suc)

lemma ExtractMVCCKey_Build [simp]: "ExtractMVCCKey (BuildMVCCKey key txID) = (key, txID)"
  by (simp add: ExtractMVCCKey_def BuildMVCCKey_layout nth_append)

lemma append_less_same [simp]: "xs @ ys < xs @ zs \<longleftrightarrow> ys < (zs :: 'a::linorder list)"
  by (induction xs) auto

lemma snoc_less_snoc:
  fixes xs :: "'a::linorder list"
  shows "length xs = length ys \<Longrightarrow> xs @ [a] < ys @ [b] \<longleftrightarrow> xs < ys \<or> xs = ys \<and> a < b"
  by (induction xs ys rule: list_induct2) auto

lemma div_mod_less:
  fixes a b :: nat
  shows "a div 256 < b div 256 \<or> a div 256 = b div 256 \<and> a mod 256 < b mod 256 \<longleftrightarrow> a < b"
proof (cases "a div 256" "b div 256" rule: linorder_cases)
  case less
  then show ?thesis by (metis div_le_mono leD leI)
next
  case equal
  then show ?thesis by (metis div_mult_mod_eq less_not_refl nat_add_left_cancel_less)
next
  case greater
  then show ?thesis by (metis div_le_mono leD less_imp_le nless_le)
qed

lemma be_bytes_less:
  "a < 256 ^ n \<Longrightarrow> b < 256 ^ n \<Longrightarrow> rev (le_bytes n a) < rev (le_bytes n b) \<longleftrightarrow> a < b"
proof (induction n arbitrary: a b)
  case 0
  then show ?case by simp
next
  case (Suc n)
  have d: "a div 256 < 256 ^ n" "b div 256 < 256 ^ n"
    using Suc.prems by (simp_all add: less_mult_imp_div_less mult.commute)
  have inj: "rev (le_bytes n (a div 256)) = rev (le_bytes n (b div 256)) \<longleftrightarrow> a div 256 = b div 256"
    using d by (metis le_nat_le_bytes mod_less rev_rev_ident)
  have w: "(of_nat (a mod 256) :: byte) < of_nat (b mod 256) \<longleftrightarrow> a mod 256 < b mod 256"
    by (simp add: word_less_nat_alt unat_of_nat)
  have "rev (le_bytes (Suc n) a) < rev (le_bytes (Suc n) b) \<longleftrightarrow>
      a div 256 < b div 256 \<or> a div 256 = b div 256 \<and> a mod 256 < b mod 256"
    using Suc.IH [OF d] inj w by (simp add: snoc_less_snoc)
  also have "\<dots> \<longleftrightarrow> a < b" by (rule div_mod_less)
  finally show ?case .
qed

lemma BigPutUint64_less: "BigPutUint64 a < BigPutUint64 b \<longleftrightarrow> a < b"
  using unat_lt_len [of a] unat_lt_len [of b]
  by (simp add: BigPutUint64_def be_bytes_less word_less_nat_alt)

lemma zero_sep_less:
  assumes "0 \<notin> set k" "0 \<notin> set l" "k < (l :: bytes)"
  shows "k @ 0 # xs < l @ 0 # ys"
  using assms
proof (induction k arbitrary: l)
  case Nil
  then obtain c cs where "l = c # cs" by (cases l) auto
  then show ?case using Nil by (auto simp: word_neq_0_conv)
next
  case (Cons a k)
  then obtain c cs where l: "l = c # cs" by (cases l) auto
  then show ?case using Cons by auto
qed

lemma BuildMVCCKey_less:
  assumes "0 \<notin> set k" "0 \<notin> set l"
  shows "BuildMVCCKey k a < BuildMVCCKey l b \<longleftrightarrow> k < l \<or> k = l \<and> a < b"
proof (cases k l rule: linorder_cases)
  case less
  then show ?thesis using zero_sep_less [OF assms less] by (simp add: BuildMVCCKey_layout)
next
  case equal
  then show ?thesis by (simp add: BuildMVCCKey_layout BigPutUint64_less)
next
  case greater
  then show ?thesis
    using zero_sep_less [OF assms(2,1) greater, of "BigPutUint64 b" "BigPutUint64 a"]
    by (auto simp: BuildMVCCKey_layout)
qed

section \<open>The status-table contract\<close>

text \<open>What the multi-version layer needs to know about transactions: the status that was set last
  is the one that is read, other transactions are unaffected, and a transaction nobody knows about
  counts as committed.\<close>

locale status_table =
  fixes status :: "'t \<Rightarrow> u64 \<Rightarrow> TxnStatus"
    and set_status :: "'t \<Rightarrow> u64 \<Rightarrow> TxnStatus \<Rightarrow> 't"
    and fresh :: 't
  assumes status_set: "status (set_status t x s) y = (if y = x then s else status t y)"
    and status_fresh: "status fresh y = TXN_COMMITED"
begin

lemma status_after_end:
  "s \<noteq> TXN_RUNNING \<Longrightarrow> status (set_status (set_status t x TXN_RUNNING) x s) x \<noteq> TXN_RUNNING"
  by (simp add: status_set)

lemma status_order_irrelevant:
  "x \<noteq> y \<Longrightarrow> status (set_status (set_status t x a) y b) z = status (set_status (set_status t y b) x a) z"
  by (simp add: status_set)

end

interpretation txn_status: status_table GetStatus SetStatus NewTransactionManager
  by unfold_locales simp_all

section \<open>Properties of transactions\<close>

text \<open>Multi-version keys decode: ExtractMVCCKey returns the user key and the transaction id that
  BuildMVCCKey was given, whatever bytes the user key holds.\<close>

lemma mvcc_key_roundtrip: "ExtractMVCCKey (BuildMVCCKey key txID) = (key, txID)"
  by simp

text \<open>C37: The byte order of multi-version keys is the order on (user key, transaction id): for user
  keys without zero bytes, all versions of one key are adjacent and sorted by transaction id, so
  the newest version of a key is the largest.\<close>

theorem mvcc_key_order:
  assumes "0 \<notin> set k" "0 \<notin> set l"
  shows "Compare (BuildMVCCKey k a) (BuildMVCCKey l b) < 0 \<longleftrightarrow> Compare k l < 0 \<or> k = l \<and> a < b"
  using BuildMVCCKey_less [OF assms] by simp

theorem mvcc_key_order_witness:
  "Compare (BuildMVCCKey [97] 255) (BuildMVCCKey [97] 256) < 0"
  using mvcc_key_order [of "[97]" "[97]" 255 256] by simp

text \<open>C35: GetMinActiveTxID is the watermark of the running transactions: no running transaction has
  a smaller id, and it is the id of a running transaction or, when none runs, the largest 64-bit
  value.\<close>

theorem min_active_is_watermark:
  assumes "wf_txn t"
  shows "(\<forall>x. GetStatus t x = TXN_RUNNING \<longrightarrow> GetMinActiveTxID t \<le> x) \<and>
    (GetStatus t (GetMinActiveTxID t) = TXN_RUNNING \<or> GetMinActiveTxID t = - 1)"
proof -
  have mem: "(x, TXN_RUNNING) \<in> set (txnTable t) \<longleftrightarrow> GetStatus t x = TXN_RUNNING" for x
    using assms
    by (auto simp: GetStatus_def wf_txn_def split: option.splits dest: eq_key_imp_eq_value)
  show ?thesis
    using min_fold(2) [of _ "txnTable t" "- 1"] min_fold(3) [of "txnTable t" "- 1"]
    unfolding GetMinActiveTxID_def mem by blast
qed

theorem min_active_is_watermark_witness:
  "GetMinActiveTxID (snd (Begin NewTransactionManager 5)) \<le> 5"
  using min_active_is_watermark [of "snd (Begin NewTransactionManager 5)"] by simp

text \<open>C36: Pruning forgets exactly the finished transactions below the watermark. An entry of the status table is
  removed if and only if its transaction is not running and its id is below the watermark; the same
  transactions lose their entry in the table of last LSNs, and every other entry of both tables stays as it
  is. A forgotten transaction, also one that was rolled back, reads as committed from then on.\<close>

theorem prune_exact:
  assumes "wf_txn t"
  shows "map_of (txnTable (PruneTables t m)) x =
      (if pruned t m x then None else map_of (txnTable t) x) \<and>
    map_of (lsnTable (PruneTables t m)) x = (if pruned t m x then None else map_of (lsnTable t) x) \<and>
    (pruned t m x \<longrightarrow> GetStatus (PruneTables t m) x = TXN_COMMITED)"
  using assms prunes_iff [of "txnTable t" m x]
  by (simp add: PruneTables_def txnTable_pruneLoop lsnTable_pruneLoop wf_txn_def pruned_def GetStatus_def)

theorem prune_exact_witness:
  "map_of (txnTable (PruneTables (SetStatus (SetStatus NewTransactionManager 3 TXN_ROLLEDBACK) 5 TXN_RUNNING) 10)) 3 = None \<and>
   map_of (txnTable (PruneTables (SetStatus (SetStatus NewTransactionManager 3 TXN_ROLLEDBACK) 5 TXN_RUNNING) 10)) 5 = Some TXN_RUNNING"
proof -
  let ?t = "SetStatus (SetStatus NewTransactionManager 3 TXN_ROLLEDBACK) 5 TXN_RUNNING"
  have "pruned ?t 10 3" "\<not> pruned ?t 10 5" "map_of (txnTable ?t) 5 = Some TXN_RUNNING"
    by (simp_all add: pruned_def SetStatus_def NewTransactionManager_def)
  then show ?thesis using prune_exact [of ?t 10 3] prune_exact [of ?t 10 5] by simp
qed

end
