(* ===== verification/BTree.thy ===== *)
theory BTree
  imports Overflow Txn
begin

text \<open>
  The tree of \<^verbatim>\<open>internal/storage/btree.go\<close>. \<open>BTree\<close> extends the state of the pool, so every pool
  operation applies to a tree as it is. A page pointer held by the Go code is the id of the pinned
  frame together with the page's content at that point.
\<close>

section \<open>State\<close>

record BTree = BufferManager +
  treeWal :: bool              \<comment> \<open>the wal pointer of the tree is not nil; it is the pool's log\<close>
  rootPageID :: u32
  chkFile :: "bytes option"    \<comment> \<open>contents of the file checkpoint.meta\<close>

text \<open>Calls whose error result the code drops.\<close>

definition dropUnpin :: "u32 \<Rightarrow> bool \<Rightarrow> bool \<Rightarrow> 'a BufferManager_scheme \<Rightarrow> 'a BufferManager_scheme option" where
  "dropUnpin i d w t = map_option snd (UnpinPage i d w t)"

definition dropAppend :: "u64 \<Rightarrow> u32 \<Rightarrow> u64 \<Rightarrow> u8 \<Rightarrow> bytes \<Rightarrow> bytes \<Rightarrow> 'a BufferManager_scheme \<Rightarrow> u64 \<times> 'a BufferManager_scheme" where
  "dropAppend txn pageID prev opType key val t =
     (case Append (wal t) txn pageID prev opType key val of
        (Inl e, w) \<Rightarrow> (0, t\<lparr>wal := w\<rparr>)
      | (Inr lsn, w) \<Rightarrow> (lsn, t\<lparr>wal := w\<rparr>))"

definition getCell :: "page \<Rightarrow> nat \<Rightarrow> bytes option" where
  "getCell p i =
     (case Page_Get p (of_nat i) of
        None \<Rightarrow> None
      | Some (Inl e) \<Rightarrow> Some []
      | Some (Inr c) \<Rightarrow> Some c)"

abbreviation (input) slots :: "page \<Rightarrow> nat list" where
  "slots p \<equiv> [0..<unat (getSlotCount p)]"

text \<open>The full-page record the tree writes after it has changed a page (the page it holds in frame i,
  logged under the page id pid), and the stamp of its LSN.\<close>

definition logFullPage :: "u32 \<Rightarrow> u32 \<Rightarrow> BTree \<Rightarrow> BTree option" where
  "logFullPage i pid t =
     (if treeWal t
      then do {
        p \<leftarrow> getPage i t;
        let (lsn, t) = dropAppend 0 pid 0 LogOpFullPage [] p t;
        Some (putPage i (SetLSN p lsn) t)
      }
      else Some t)"

section \<open>Closing and checkpoints\<close>

definition BTree_Close :: "BTree \<Rightarrow> (goerr + unit) \<times> BTree" where
  "BTree_Close t =
     (let t = (if treeWal t then t\<lparr>wal := snd (WAL_Close (wal t))\<rparr> else t)
      in BM_Close t)"

definition Checkpoint :: "BTree \<Rightarrow> (goerr + unit) \<times> BTree" where
  "Checkpoint t =
     (if \<not> treeWal t then (Inr (), t)
      else
        let dpt = GetDirtyPageTable t;
            t = t\<lparr>ticks := Suc (ticks t)\<rparr>
        in case WriteCheckpoint (wal t) dpt of
             (Inl e, w) \<Rightarrow> (Inl (ErrWrap ''failed to write checkpoint to WAL'' e), t\<lparr>wal := w\<rparr>)
           | (Inr lsn, w) \<Rightarrow> (Inr (), t\<lparr>wal := w, chkFile := Some (PutUint64 lsn)\<rparr>))"

section \<open>Search\<close>

fun pickChild :: "bytes \<Rightarrow> page \<Rightarrow> nat list \<Rightarrow> bytes option \<Rightarrow> u32 \<Rightarrow> (bytes option \<times> u32) option" where
  "pickChild key page [] maxMatchedKey nextChildID = Some (maxMatchedKey, nextChildID)"
| "pickChild key page (i # is) maxMatchedKey nextChildID = do {
     cellData \<leftarrow> getCell page i;
     kCell \<leftarrow> DeserializeKeyCell cellData;
     (if Compare (kcKey kCell) key \<le> 0 \<and>
         (case maxMatchedKey of None \<Rightarrow> True | Some mk \<Rightarrow> Compare (kcKey kCell) mk > 0)
      then pickChild key page is (Some (kcKey kCell)) (ChildPageID kCell)
      else pickChild key page is maxMatchedKey nextChildID)
   }"

definition nextChild :: "page \<Rightarrow> bytes \<Rightarrow> u32 option" where
  "nextChild page key = do {
     (maxMatchedKey, nextChildID) \<leftarrow> pickChild key page (slots page) None 0;
     (if maxMatchedKey = None \<and> 0 < getSlotCount page
      then do {
        cellData \<leftarrow> getCell page 0;
        kCell \<leftarrow> DeserializeKeyCell cellData;
        Some (ChildPageID kCell)
      }
      else Some nextChildID)
   }"

text \<open>The leaf is returned as the id of its frame, its content and the path of page ids above it.\<close>

partial_function (option) findLoop ::
  "bytes \<Rightarrow> bool \<Rightarrow> u32 \<Rightarrow> u32 list \<Rightarrow> BTree \<Rightarrow> ((goerr + (u32 \<times> page \<times> u32 list)) \<times> BTree) option" where
  "findLoop key forWrite currPageID path t =
     Option.bind (FetchPageForRead currPageID PageTypeLeaf t) (\<lambda>(r, t).
       case r of
         Inl e \<Rightarrow> Some (Inl (ErrWrap ''failed to fetch page'' e), t)
       | Inr page \<Rightarrow>
           if GetPageType page = PageTypeLeaf
           then
             if forWrite
             then Option.bind (dropUnpin currPageID False False t) (\<lambda>t.
                  Option.bind (FetchPageForWrite currPageID PageTypeLeaf t) (\<lambda>(r, t).
                    case r of
                      Inl e \<Rightarrow> Some (Inl (ErrWrap ''failed to fetch page for write'' e), t)
                    | Inr page \<Rightarrow> Some (Inr (currPageID, page, path), t)))
             else Some (Inr (currPageID, page, path), t)
           else
             Option.bind (nextChild page key) (\<lambda>nextChildID.
             Option.bind (dropUnpin currPageID False False t) (\<lambda>t.
               if nextChildID = 0 then Some (Inl ErrChildZero, t)
               else findLoop key forWrite nextChildID (path @ [currPageID]) t)))"

definition findLeafPage ::
  "bytes \<Rightarrow> bool \<Rightarrow> BTree \<Rightarrow> ((goerr + (u32 \<times> page \<times> u32 list)) \<times> BTree) option" where
  "findLeafPage key forWrite t = findLoop key forWrite (rootPageID t) [] t"

definition isVersionVisible :: "bytes \<Rightarrow> bytes \<Rightarrow> TransactionManager option \<Rightarrow> bool" where
  "isVersionVisible kvKey mvccUserKey txMgr =
     (let (userKey, readerTxID) = ExtractMVCCKey mvccUserKey;
          (kvKey, versionTxID) = ExtractMVCCKey kvKey
      in if kvKey \<noteq> userKey then False
      else if versionTxID > readerTxID then False
      else if versionTxID = readerTxID then True
      else (case txMgr of
              None \<Rightarrow> True
            | Some tm \<Rightarrow> GetStatus tm versionTxID = TXN_COMMITED))"

fun latestLoop :: "page \<Rightarrow> bytes \<Rightarrow> TransactionManager option \<Rightarrow> nat list \<Rightarrow> KVCell option \<Rightarrow> KVCell option option" where
  "latestLoop leaf mvccUserKey txMgr [] bestKV = Some bestKV"
| "latestLoop leaf mvccUserKey txMgr (i # is) bestKV = do {
     c \<leftarrow> getCell leaf i;
     kv \<leftarrow> DeserializeKVCell c;
     (if isVersionVisible (Key kv) mvccUserKey txMgr \<and>
         (case bestKV of None \<Rightarrow> True | Some b \<Rightarrow> Compare (Key kv) (Key b) > 0)
      then latestLoop leaf mvccUserKey txMgr is (Some kv)
      else latestLoop leaf mvccUserKey txMgr is bestKV)
   }"

definition FindLatest :: "bytes \<Rightarrow> TransactionManager option \<Rightarrow> BTree \<Rightarrow> ((goerr + bytes) \<times> BTree) option" where
  "FindLatest mvccUserKey txMgr t =
     andThen (findLeafPage mvccUserKey False t) (\<lambda>(_, leaf, _) t.
     deferUnpin (GetPageID leaf) False False (do {
       bestKV \<leftarrow> latestLoop leaf mvccUserKey txMgr (slots leaf) None;
       (case bestKV of
          None \<Rightarrow> Some (Inl ErrKeyNotFound, t)
        | Some kv \<Rightarrow>
            if Flag kv = KEY_DELETED_FLAG then Some (Inl ErrKeyDeleted, t)
            else if IsOverflow kv then readOverflowChain (Value kv) t
            else Some (Inr (Value kv), t))
     }))"

fun matchLoop :: "page \<Rightarrow> bytes \<Rightarrow> nat list \<Rightarrow> KVCell option option" where
  "matchLoop leaf key [] = Some None"
| "matchLoop leaf key (i # is) = do {
     cellData \<leftarrow> getCell leaf i;
     kv \<leftarrow> DeserializeKVCell cellData;
     (if Key kv = key then Some (Some kv) else matchLoop leaf key is)
   }"

definition Find :: "bytes \<Rightarrow> BTree \<Rightarrow> ((goerr + bytes) \<times> BTree) option" where
  "Find key t =
     andThen (findLeafPage key False t) (\<lambda>(_, leaf, _) t.
     deferUnpin (GetPageID leaf) False False (do {
       m \<leftarrow> matchLoop leaf key (slots leaf);
       (case m of
          None \<Rightarrow> Some (Inl ErrKeyNotFound, t)
        | Some kv \<Rightarrow>
            if IsDeleted kv then Some (Inl ErrKeyNotFound, t)
            else if IsOverflow kv then readOverflowChain (Value kv) t
            else Some (Inr (Value kv), t))
     }))"

section \<open>Sorting the cells of a page\<close>

text \<open>The comparisons decode the cells, so sorting two or more cells panics on a malformed one.
  \<open>routing_less\<close> is the comparison of the internal nodes, where the empty key is least.\<close>

definition sortCells :: "(bytes \<Rightarrow> bytes option) \<Rightarrow> (bytes \<Rightarrow> bytes \<Rightarrow> bool) \<Rightarrow> bytes list \<Rightarrow> bytes list option" where
  "sortCells key_of lt cells =
     (if length cells \<le> 1 then Some cells
      else do {
        keys \<leftarrow> those (map key_of cells);
        Some (map snd (sortSlice (\<lambda>x y. lt (fst x) (fst y)) (zip keys cells)))
      })"

definition kv_key :: "bytes \<Rightarrow> bytes option" where
  "kv_key c = map_option Key (DeserializeKVCell c)"

definition routing_key :: "bytes \<Rightarrow> bytes option" where
  "routing_key c = map_option kcKey (DeserializeKeyCell c)"

definition kv_less :: "bytes \<Rightarrow> bytes \<Rightarrow> bool" where
  "kv_less ki kj \<longleftrightarrow> Compare ki kj < 0"

definition routing_less :: "bytes \<Rightarrow> bytes \<Rightarrow> bool" where
  "routing_less ki kj \<longleftrightarrow> (if ki = [] then True else if kj = [] then False else Compare ki kj < 0)"

section \<open>Structure modifications\<close>

definition newRoot :: "u32 \<Rightarrow> bytes \<Rightarrow> BTree \<Rightarrow> ((goerr + unit) \<times> BTree) option" where
  "newRoot leftChildID routingCell t = do {
     (r, t) \<leftarrow> allocatePage PageTypeInternal t;
     let newRootID = (case r of Inl e \<Rightarrow> 0 | Inr i \<Rightarrow> i);
     (r, t) \<leftarrow> FetchPageForWrite newRootID PageTypeInternal t;
     newRoot \<leftarrow> (case r of Inl e \<Rightarrow> None | Inr p \<Rightarrow> Some p);
     let leftPointer = KeyCell_Serialize (NewKeyCell leftChildID []);
     newRoot \<leftarrow> each Page_Insert newRoot [leftPointer, routingCell];
     let t = putPage newRootID newRoot t;
     let t = t\<lparr>rootPageID := newRootID\<rparr>;
     t \<leftarrow> logFullPage newRootID newRootID t;
     (r, t) \<leftarrow> FetchPageForWrite MetaPageID PageTypeMeta t;
     t \<leftarrow> (case r of
             Inl e \<Rightarrow> Some t
           | Inr metaPage \<Rightarrow> do {
               let t = putPage MetaPageID (SetRootPageID metaPage newRootID) t;
               t \<leftarrow> logFullPage MetaPageID MetaPageID t;
               dropUnpin MetaPageID True True t
             });
     UnpinPage newRootID True True t
   }"

text \<open>The cells of a page, copied out one by one.\<close>

definition copyCells :: "page \<Rightarrow> bytes list option" where
  "copyCells p = those (map (getCell p) (slots p))"

text \<open>\<^verbatim>\<open>splitInternal\<close> up to its last line, which passes the returned id and cell to the parent.\<close>

definition splitInternalNode :: "u32 \<Rightarrow> bytes \<Rightarrow> BTree \<Rightarrow> ((goerr + u32 \<times> bytes) \<times> BTree) option" where
  "splitInternalNode nodeID newCell t = do {
     internalNode \<leftarrow> getPage nodeID t;
     cells \<leftarrow> copyCells internalNode;
     let cells = cells @ [newCell];
     cells \<leftarrow> sortCells routing_key routing_less cells;
     let t = putPage nodeID (Page_Init internalNode PageTypeInternal) t;
     (r, t) \<leftarrow> allocatePage PageTypeInternal t;
     let newInternalID = (case r of Inl e \<Rightarrow> 0 | Inr i \<Rightarrow> i);
     (r, t) \<leftarrow> FetchPageForWrite newInternalID PageTypeInternal t;
     let mid = length cells div 2;
     internalNode \<leftarrow> getPage nodeID t;
     internalNode \<leftarrow> each Page_Insert internalNode (take mid cells);
     let t = putPage nodeID internalNode t;
     midCell \<leftarrow> DeserializeKeyCell (cells ! mid);
     let routingKey = kcKey midCell;
     let firstRightCell = KeyCell_Serialize (NewKeyCell (ChildPageID midCell) []);
     newInternal \<leftarrow> (case r of Inl e \<Rightarrow> None | Inr p \<Rightarrow> Some p);
     newInternal \<leftarrow> each Page_Insert newInternal (firstRightCell # drop (mid + 1) cells);
     let t = putPage newInternalID newInternal t;
     let routingCell = KeyCell_Serialize (NewKeyCell newInternalID routingKey);
     t \<leftarrow> logFullPage nodeID (GetPageID internalNode) t;
     t \<leftarrow> logFullPage newInternalID newInternalID t;
     t \<leftarrow> dropUnpin (GetPageID internalNode) True True t;
     t \<leftarrow> dropUnpin newInternalID True True t;
     Some (Inr (GetPageID internalNode, routingCell), t)
   }"

function insertIntoParent ::
  "u32 \<Rightarrow> bytes \<Rightarrow> u32 list \<Rightarrow> BTree \<Rightarrow> ((goerr + unit) \<times> BTree) option" where
  "insertIntoParent leftChildID routingCell path t =
     (if path = [] then newRoot leftChildID routingCell t
      else
        let parentID = last path
        in andThen (FetchPageForWrite parentID PageTypeInternal t) (\<lambda>parent t. do {
             (r, parent) \<leftarrow> Page_Insert parent routingCell;
             (case r of
                Inr slot \<Rightarrow> do {
                  cells \<leftarrow> copyCells parent;
                  cells \<leftarrow> sortCells routing_key routing_less cells;
                  let parent = Page_Init parent PageTypeInternal;
                  parent \<leftarrow> each Page_Insert parent cells;
                  let t = putPage parentID parent t;
                  t \<leftarrow> logFullPage parentID parentID t;
                  UnpinPage parentID True True t
                }
              | Inl e \<Rightarrow>
                  if e = ErrPageFull
                  then andThen (splitInternalNode parentID routingCell t) (\<lambda>(l, rc) t.
                         insertIntoParent l rc (butlast path) t)
                  else do {
                    t \<leftarrow> dropUnpin parentID False True t;
                    Some (Inl e, t)
                  })
           }))"
  by pat_completeness auto
termination by (relation "measure (\<lambda>(_, _, p, _). length p)") auto

declare insertIntoParent.simps [simp del]

definition splitInternal :: "u32 \<Rightarrow> u32 list \<Rightarrow> bytes \<Rightarrow> BTree \<Rightarrow> ((goerr + unit) \<times> BTree) option" where
  "splitInternal nodeID path newCell t =
     andThen (splitInternalNode nodeID newCell t) (\<lambda>(l, rc) t. insertIntoParent l rc path t)"

definition splitLeafCells ::
  "u32 \<Rightarrow> u32 list \<Rightarrow> bytes list \<Rightarrow> BTree \<Rightarrow> ((goerr + unit) \<times> BTree) option" where
  "splitLeafCells leafID path cells t = do {
     cells \<leftarrow> sortCells kv_key kv_less cells;
     leaf \<leftarrow> getPage leafID t;
     let t = putPage leafID (Page_Init leaf PageTypeLeaf) t;
     andThen (allocatePage PageTypeLeaf t) (\<lambda>newLeafID t.
     andThen (FetchPageForWrite newLeafID PageTypeLeaf t) (\<lambda>newLeaf t. do {
       let mid = length cells div 2;
       leaf \<leftarrow> getPage leafID t;
       leaf \<leftarrow> each Page_Insert leaf (take mid cells);
       let t = putPage leafID leaf t;
       newLeaf \<leftarrow> each Page_Insert newLeaf (drop mid cells);
       let t = putPage newLeafID newLeaf t;
       routingKey \<leftarrow> (if mid < length cells then kv_key (cells ! mid) else None);
       let routingCell = KeyCell_Serialize (NewKeyCell newLeafID routingKey);
       t \<leftarrow> logFullPage leafID (GetPageID leaf) t;
       t \<leftarrow> logFullPage newLeafID (GetPageID newLeaf) t;
       t \<leftarrow> dropUnpin (GetPageID leaf) True True t;
       t \<leftarrow> dropUnpin newLeafID True True t;
       insertIntoParent (GetPageID leaf) routingCell path t
     }))
   }"


section \<open>Upserts\<close>

definition writeConflict :: "bytes \<Rightarrow> u64 \<Rightarrow> TransactionManager option \<Rightarrow> bytes \<Rightarrow> goerr option" where
  "writeConflict writerUserKey writerTxID txMgr kvKey =
     (let (kvUserKey, kvTxID) = ExtractMVCCKey kvKey
      in case txMgr of
           None \<Rightarrow> None
         | Some tm \<Rightarrow>
             if kvUserKey = writerUserKey \<and> kvTxID \<noteq> writerTxID
             then
               let status = GetStatus tm kvTxID
               in if status = TXN_RUNNING then Some (ErrConflictRunning writerUserKey kvTxID)
               else if status = TXN_COMMITED \<and> kvTxID > writerTxID
                    then Some (ErrConflictNewer writerUserKey kvTxID)
               else None
             else None)"

fun upsertLoop ::
  "bytes \<Rightarrow> bytes \<Rightarrow> TransactionManager option \<Rightarrow> page \<Rightarrow> nat list \<Rightarrow> bytes list \<Rightarrow> bool \<Rightarrow> nat \<Rightarrow> BTree \<Rightarrow>
   ((goerr + (bytes list \<times> bool \<times> nat)) \<times> BTree) option" where
  "upsertLoop key cellBytes txMgr leaf [] cells keyExists totalSpaceNeeded t =
     Some (Inr (cells, keyExists, totalSpaceNeeded), t)"
| "upsertLoop key cellBytes txMgr leaf (i # is) cells keyExists totalSpaceNeeded t = do {
     let (writerUserKey, writerTxID) = ExtractMVCCKey key;
     c \<leftarrow> getCell leaf i;
     kv \<leftarrow> DeserializeKVCell c;
     (case writeConflict writerUserKey writerTxID txMgr (Key kv) of
        Some e \<Rightarrow> do {
          t \<leftarrow> dropUnpin (GetPageID leaf) False True t;
          Some (Inl e, t)
        }
      | None \<Rightarrow>
          if Key kv = key
          then do {
            t \<leftarrow> (if IsOverflow kv then freeOverflowChain (Value kv) t else Some t);
            upsertLoop key cellBytes txMgr leaf is (cells @ [cellBytes]) True
              (totalSpaceNeeded + (SlotSize + length cellBytes)) t
          }
          else upsertLoop key cellBytes txMgr leaf is (cells @ [c]) keyExists
                 (totalSpaceNeeded + (SlotSize + length c)) t)
   }"

abbreviation (input) MaxInlineValueSize :: nat where "MaxInlineValueSize \<equiv> 1024"

text \<open>The rewrite of a leaf whose cells fit, its log record and the release of the page.\<close>

definition rewriteLeaf ::
  "bytes \<Rightarrow> bytes \<Rightarrow> u8 \<Rightarrow> u32 \<Rightarrow> bytes list \<Rightarrow> TransactionManager option \<times> BTree \<Rightarrow>
   ((goerr + unit) \<times> (TransactionManager option \<times> BTree)) option" where
  "rewriteLeaf key val flag leafID cells = (\<lambda>(txMgr, t). do {
     cells \<leftarrow> sortCells kv_key kv_less cells;
     leaf \<leftarrow> getPage leafID t;
     leaf \<leftarrow> each Page_Insert (Page_Init leaf PageTypeLeaf) cells;
     let t = putPage leafID leaf t;
     (if treeWal t
      then
        let op = (if flag = KEY_DELETED_FLAG then LogOpDelete else LogOpInsert);
            writerTxID = snd (ExtractMVCCKey key);
            prevLSN = (case txMgr of None \<Rightarrow> 0 | Some tm \<Rightarrow> GetLastLSN tm writerTxID)
        in case Append (wal t) writerTxID (GetPageID leaf) prevLSN op key val of
             (Inl e, w) \<Rightarrow> do {
               t \<leftarrow> dropUnpin (GetPageID leaf) True True (t\<lparr>wal := w\<rparr>);
               Some (Inl e, (txMgr, t))
             }
           | (Inr lsn, w) \<Rightarrow> do {
               let txMgr = map_option (\<lambda>tm. SetLastLSN tm writerTxID lsn) txMgr;
               let t = putPage leafID (SetLSN leaf lsn) (t\<lparr>wal := w\<rparr>);
               (r, t) \<leftarrow> UnpinPage (GetPageID leaf) True True t;
               Some (r, (txMgr, t))
             }
      else do {
        (r, t) \<leftarrow> UnpinPage (GetPageID leaf) True True t;
        Some (r, (txMgr, t))
      })
   })"

text \<open>Runs an operation on the tree beside the transaction table.\<close>

definition onTree ::
  "'m \<Rightarrow> ((goerr + 'a) \<times> BTree) option \<Rightarrow> ((goerr + 'a) \<times> ('m \<times> BTree)) option" where
  "onTree m r = map_option (\<lambda>(x, t). (x, (m, t))) r"

lemma onTree_eq_Some: "onTree m x = Some (r, (m', t)) \<longleftrightarrow> m' = m \<and> x = Some (r, t)"
  by (auto simp: onTree_def)

text \<open>A value too large for a page goes to a chain of overflow pages; the cell gets its metadata.\<close>

definition upsertValue ::
  "bytes \<Rightarrow> u8 \<Rightarrow> 'm \<Rightarrow> BTree \<Rightarrow> ((goerr + (bytes \<times> u8)) \<times> ('m \<times> BTree)) option" where
  "upsertValue val flag txMgr t =
     (if length val > MaxInlineValueSize
      then andThen (onTree txMgr (createOverflowChain val t)) (\<lambda>metadata s.
             Some (Inr (metadata, flag OR KEY_OVERFLOW_FLAG), s))
      else Some (Inr (val, flag), (txMgr, t)))"

definition upsertCell ::
  "bytes \<Rightarrow> bytes \<Rightarrow> u8 \<Rightarrow> TransactionManager option \<Rightarrow> BTree \<Rightarrow>
   ((goerr + unit) \<times> (TransactionManager option \<times> BTree)) option" where
  "upsertCell key val flag txMgr t =
     andThen (onTree txMgr (findLeafPage key True t)) (\<lambda>(leafID, leaf, path) (txMgr, t).
     andThen (upsertValue val flag txMgr t) (\<lambda>(val, flag) (txMgr, t).
     let cellBytes = KVCell_Serialize (NewKVCell flag key val)
     in andThen (onTree txMgr (upsertLoop key cellBytes txMgr leaf (slots leaf) [] False HeaderSize t))
          (\<lambda>(cells, keyExists, totalSpaceNeeded) (txMgr, t).
          let (cells, totalSpaceNeeded) =
                (if keyExists then (cells, totalSpaceNeeded)
                 else (cells @ [cellBytes], totalSpaceNeeded + (SlotSize + length cellBytes)))
          in if totalSpaceNeeded \<le> PageSize
             then rewriteLeaf key val flag leafID cells (txMgr, t)
             else onTree txMgr (splitLeafCells leafID path cells t))))"

definition Insert ::
  "bytes \<Rightarrow> bytes \<Rightarrow> TransactionManager option \<Rightarrow> BTree \<Rightarrow>
   ((goerr + unit) \<times> (TransactionManager option \<times> BTree)) option" where
  "Insert key val txMgr t = upsertCell key val 0 txMgr t"

definition Delete ::
  "bytes \<Rightarrow> TransactionManager option \<Rightarrow> BTree \<Rightarrow>
   ((goerr + unit) \<times> (TransactionManager option \<times> BTree)) option" where
  "Delete key txMgr t = upsertCell key [] KEY_DELETED_FLAG txMgr t"

section \<open>Ending a transaction\<close>

text \<open>\<^verbatim>\<open>redoUpsertOnPage\<close> of \<^verbatim>\<open>recovery.go\<close>, which rollback uses to undo an operation on its page.\<close>

fun redoLoop :: "page \<Rightarrow> bytes \<Rightarrow> bytes \<Rightarrow> u8 \<Rightarrow> nat list \<Rightarrow> bytes list \<Rightarrow> bool \<Rightarrow> (bytes list \<times> bool) option" where
  "redoLoop p key cellBytes opType [] cells keyExists = Some (cells, keyExists)"
| "redoLoop p key cellBytes opType (i # is) cells keyExists = do {
     c \<leftarrow> getCell p i;
     kv \<leftarrow> DeserializeKVCell c;
     (if Key kv = key
      then redoLoop p key cellBytes opType is
             (if opType \<noteq> LogOpUndoInsert then cells @ [cellBytes] else cells) True
      else redoLoop p key cellBytes opType is (cells @ [c]) keyExists)
   }"

definition redoUpsertOnPage :: "page \<Rightarrow> bytes \<Rightarrow> bytes \<Rightarrow> u8 \<Rightarrow> page option" where
  "redoUpsertOnPage p key val opType = do {
     let flag = (if opType = LogOpDelete then KEY_DELETED_FLAG else 0);
     let cellBytes = KVCell_Serialize (NewKVCell flag key val);
     (cells, keyExists) \<leftarrow> redoLoop p key cellBytes opType (slots p) [] False;
     let cells = (if \<not> keyExists \<and> opType \<noteq> LogOpUndoInsert then cells @ [cellBytes] else cells);
     let pageType = GetPageType p;
     each Page_Insert (Page_Init p pageType) cells
   }"

text \<open>Undoing one log record: the inverse operation on the page, a compensation record, the stamp.\<close>

definition undoRecord :: "u64 \<Rightarrow> LogRecord \<Rightarrow> BTree \<Rightarrow> BTree option" where
  "undoRecord txid rec t =
     (if OpType rec = LogOpInsert \<or> OpType rec = LogOpDelete
      then do {
        (r, t) \<leftarrow> FetchPageForWrite (PageID rec) PageTypeLeaf t;
        (case r of
           Inl e \<Rightarrow> Some t
         | Inr page \<Rightarrow> do {
             let inverseOp = (if OpType rec = LogOpDelete then LogOpInsert else LogOpUndoInsert);
             page \<leftarrow> redoUpsertOnPage page (recKey rec) (recValue rec) inverseOp;
             let (clrLSN, t) = dropAppend txid (PageID rec) (PrevLSN rec) LogOpCLR (recKey rec) (recValue rec) t;
             let t = putPage (PageID rec) (SetLSN page clrLSN) t;
             dropUnpin (PageID rec) True True t
           })
      }
      else Some t)"

partial_function (option) rollbackLoop :: "u64 \<Rightarrow> u64 \<Rightarrow> BTree \<Rightarrow> ((goerr + unit) \<times> BTree) option" where
  "rollbackLoop txid lsn t =
     (if lsn = 0 then Some (Inr (), t)
      else if \<not> treeWal t then None
      else Option.bind (ReadRecord (wal t) lsn) (\<lambda>r.
        case r of
          Inl e \<Rightarrow> Some (Inl e, t)
        | Inr (rec, _) \<Rightarrow>
            Option.bind (undoRecord txid rec t) (\<lambda>t. rollbackLoop txid (PrevLSN rec) t)))"

definition Rollback :: "u64 \<Rightarrow> TransactionManager \<Rightarrow> BTree \<Rightarrow> ((goerr + unit) \<times> (TransactionManager \<times> BTree)) option" where
  "Rollback txid txMgr t =
     (let txMgr = SetStatus txMgr txid TXN_ROLLINGBACK;
          lsn = GetLastLSN txMgr txid
      in andThen (onTree txMgr (rollbackLoop txid lsn t)) (\<lambda>_ (txMgr, t).
           let t = (if treeWal t then snd (dropAppend txid 0 0 LogOpAbort [] [] t) else t)
           in Some (Inr (), (SetStatus txMgr txid TXN_ROLLEDBACK, t))))"

definition Commit :: "u64 \<Rightarrow> TransactionManager \<Rightarrow> BTree \<Rightarrow> (goerr + unit) \<times> (TransactionManager \<times> BTree)" where
  "Commit txid txMgr t =
     (if treeWal t
      then
        let prevLSN = GetLastLSN txMgr txid
        in case Append (wal t) txid 0 prevLSN LogOpCommit [] [] of
             (Inl e, w) \<Rightarrow> (Inl e, (txMgr, t\<lparr>wal := w\<rparr>))
           | (Inr lsn, w) \<Rightarrow>
               (Inr (), (SetStatus (SetLastLSN txMgr txid lsn) txid TXN_COMMITED, t\<lparr>wal := w\<rparr>))
      else (Inr (), (SetStatus txMgr txid TXN_COMMITED, t)))"

end
