(* ===== verification/Engine.thy ===== *)
theory Engine
  imports BTree
begin

text \<open>
  The coordinator of \<^verbatim>\<open>internal/engine/db.go\<close>: it turns a key and a transaction into a multi-version
  key, calls the tree, and rolls the transaction back when the tree reports a write-write conflict.
  The interface \<^verbatim>\<open>storage.Index\<close> has one implementation, the tree.
\<close>

record DB =
  index :: BTree
  txMgr :: TransactionManager

definition NewDB :: "BTree \<Rightarrow> TransactionManager \<Rightarrow> DB" where
  "NewDB i m = \<lparr>index = i, txMgr = m\<rparr>"

text \<open>The error text starts with "write-write conflict".\<close>

fun isConflict :: "goerr \<Rightarrow> bool" where
  "isConflict (ErrConflictRunning k t) = True"
| "isConflict (ErrConflictNewer k t) = True"
| "isConflict e = False"

definition DB_Rollback :: "u64 \<Rightarrow> DB \<Rightarrow> ((goerr + unit) \<times> DB) option" where
  "DB_Rollback txID db =
     map_option (\<lambda>(r, (m, t)). (r, \<lparr>index = t, txMgr = m\<rparr>)) (Rollback txID (txMgr db) (index db))"

definition DB_Commit :: "u64 \<Rightarrow> DB \<Rightarrow> (goerr + unit) \<times> DB" where
  "DB_Commit txID db = (case Commit txID (txMgr db) (index db) of (r, (m, t)) \<Rightarrow> (r, \<lparr>index = t, txMgr = m\<rparr>))"

text \<open>What Set and Delete do with the result of the index: on a conflict the transaction is rolled
  back, and its own error is dropped.\<close>

definition finishWrite ::
  "u64 \<Rightarrow> DB \<Rightarrow> ((goerr + unit) \<times> (TransactionManager option \<times> BTree)) option \<Rightarrow> ((goerr + unit) \<times> DB) option" where
  "finishWrite txID db r = do {
     (err, (m, t)) \<leftarrow> r;
     let db = \<lparr>index = t, txMgr = (case m of Some m \<Rightarrow> m | None \<Rightarrow> txMgr db)\<rparr>;
     (case err of
        Inl e \<Rightarrow>
          if isConflict e
          then do {
            (_, db) \<leftarrow> DB_Rollback txID db;
            Some (Inl e, db)
          }
          else Some (Inl e, db)
      | Inr _ \<Rightarrow> Some (Inr (), db))
   }"

definition DB_Set :: "u64 \<Rightarrow> bytes \<Rightarrow> bytes \<Rightarrow> DB \<Rightarrow> ((goerr + unit) \<times> DB) option" where
  "DB_Set txID key val db =
     (let mvccKey = BuildMVCCKey key txID
      in finishWrite txID db (Insert mvccKey val (Some (txMgr db)) (index db)))"

definition DB_Get :: "u64 \<Rightarrow> bytes \<Rightarrow> DB \<Rightarrow> ((goerr + bytes) \<times> DB) option" where
  "DB_Get txID key db =
     (let mvccKey = BuildMVCCKey key txID
      in map_option (\<lambda>(r, t). (r, db\<lparr>index := t\<rparr>)) (FindLatest mvccKey (Some (txMgr db)) (index db)))"

definition DB_Delete :: "u64 \<Rightarrow> bytes \<Rightarrow> DB \<Rightarrow> ((goerr + unit) \<times> DB) option" where
  "DB_Delete txID key db =
     (let mvccKey = BuildMVCCKey key txID
      in finishWrite txID db (Delete mvccKey (Some (txMgr db)) (index db)))"

end
