(* ===== verification/Server.thy ===== *)
theory Server
  imports Engine
begin

text \<open>
  The server of \<^verbatim>\<open>server.go\<close>: one client connection as a state machine over the lines it sends. A line
  is its bytes; the text functions are those of Go on ASCII input. The clock reading that BEGIN and
  the auto-commit mode use is part of the input. What the server prints is a list of replies; the
  measured durations in them are left out.
\<close>

section \<open>Text\<close>

definition is_space :: "byte \<Rightarrow> bool" where
  "is_space b \<longleftrightarrow> b = 32 \<or> (9 \<le> b \<and> b \<le> 13)"

definition TrimSpace :: "bytes \<Rightarrow> bytes" where
  "TrimSpace s = rev (dropWhile is_space (rev (dropWhile is_space s)))"

definition ToUpper :: "bytes \<Rightarrow> bytes" where
  "ToUpper s = map (\<lambda>b. if 97 \<le> b \<and> b \<le> 122 then b - 32 else b) s"

text \<open>The first word of \<^verbatim>\<open>strings.Fields\<close> of a text that is not blank.\<close>

definition firstField :: "bytes \<Rightarrow> bytes" where
  "firstField s = takeWhile (\<lambda>b. \<not> is_space b) (dropWhile is_space s)"

text \<open>\<^verbatim>\<open>strings.SplitN(line, " ", n)\<close>.\<close>

fun SplitN :: "bytes \<Rightarrow> nat \<Rightarrow> bytes list" where
  "SplitN s 0 = []"
| "SplitN s (Suc 0) = [s]"
| "SplitN s (Suc (Suc n)) =
     (case dropWhile (\<lambda>b. b \<noteq> 32) s of
        [] \<Rightarrow> [s]
      | _ # rest \<Rightarrow> takeWhile (\<lambda>b. b \<noteq> 32) s # SplitN rest (Suc n))"

definition ascii :: "string \<Rightarrow> bytes" where
  "ascii s = map of_char s"

section \<open>Commands\<close>

datatype reply =
    ROk
  | RErr string
  | RUsage string
  | RError goerr
  | RValue bytes
  | RUnknown bytes
  | RAborted
  | RGoodbye
  | RWelcome

record ClientState =
  InTx :: bool
  TxID :: u64

definition NewClientState :: ClientState where
  "NewClientState = \<lparr>InTx = False, TxID = 0\<rparr>"

definition executeCommand :: "u64 \<Rightarrow> bytes \<Rightarrow> DB \<Rightarrow> (reply \<times> (goerr + unit) \<times> DB) option" where
  "executeCommand txID line db =
     (let parts = SplitN line 3;
          command = ToUpper (parts ! 0)
      in if command = ascii ''SET''
         then
           if length parts < 3 then Some (RUsage ''SET <key> <value>'', Inr (), db)
           else do {
             (r, db) \<leftarrow> DB_Set txID (parts ! 1) (parts ! 2) db;
             Some (case r of Inl e \<Rightarrow> (RError e, Inl e, db) | Inr _ \<Rightarrow> (ROk, Inr (), db))
           }
         else if command = ascii ''GET''
         then
           if length parts < 2 then Some (RUsage ''GET <key>'', Inr (), db)
           else do {
             (r, db) \<leftarrow> DB_Get txID (parts ! 1) db;
             Some (case r of Inl e \<Rightarrow> (RError e, Inl e, db) | Inr val \<Rightarrow> (RValue val, Inr (), db))
           }
         else if command = ascii ''DELETE''
         then
           if length parts < 2 then Some (RUsage ''DELETE <key>'', Inr (), db)
           else do {
             (r, db) \<leftarrow> DB_Delete txID (parts ! 1) db;
             Some (case r of Inl e \<Rightarrow> (RError e, Inl e, db) | Inr _ \<Rightarrow> (ROk, Inr (), db))
           }
         else Some (RUnknown command, Inr (), db))"

text \<open>One iteration of the read loop: the replies, whether the client quits, and the new states.\<close>

definition handleLine ::
  "u64 \<Rightarrow> bytes \<Rightarrow> ClientState \<times> DB \<Rightarrow> (reply list \<times> bool \<times> ClientState \<times> DB) option" where
  "handleLine now line = (\<lambda>(client, db).
     (let text = TrimSpace line
      in if text = [] then Some ([], False, client, db)
      else
        let cmd = ToUpper (firstField text)
        in if cmd = ascii ''BEGIN''
           then
             if InTx client then Some ([RErr ''BEGIN calls can not be nested''], False, client, db)
             else
               let (txID, m) = Begin (txMgr db) now
               in Some ([ROk], False, client\<lparr>InTx := True, TxID := txID\<rparr>, db\<lparr>txMgr := m\<rparr>)
           else if cmd = ascii ''COMMIT''
           then
             if \<not> InTx client then Some ([RErr ''COMMIT without BEGIN''], False, client, db)
             else Some ([ROk], False, client\<lparr>InTx := False\<rparr>, snd (DB_Commit (TxID client) db))
           else if cmd = ascii ''ROLLBACK''
           then
             if \<not> InTx client then Some ([RErr ''ROLLBACK without BEGIN''], False, client, db)
             else do {
               (_, db) \<leftarrow> DB_Rollback (TxID client) db;
               Some ([ROk], False, client\<lparr>InTx := False\<rparr>, db)
             }
           else if cmd = ascii ''QUIT'' \<or> cmd = ascii ''EXIT''
           then Some ([RGoodbye], True, client, db)
           else if InTx client
           then do {
             (rep, err, db) \<leftarrow> executeCommand (TxID client) text db;
             (case err of
                Inl e \<Rightarrow>
                  if isConflict e then Some ([rep, RAborted], False, client\<lparr>InTx := False\<rparr>, db)
                  else Some ([rep], False, client, db)
              | Inr _ \<Rightarrow> Some ([rep], False, client, db))
           }
           else do {
             let (txID, m) = Begin (txMgr db) now;
             (rep, err, db) \<leftarrow> executeCommand txID text (db\<lparr>txMgr := m\<rparr>);
             (case err of
                Inl e \<Rightarrow> Some ([rep], False, client, db)
              | Inr _ \<Rightarrow> Some ([rep], False, client, snd (DB_Commit txID db)))
           }))"

text \<open>
  The head of the read loop. \<^verbatim>\<open>bufio.Scanner\<close> holds at most \<^verbatim>\<open>MaxScanTokenSize\<close> bytes, the newline included: a line
  that is longer ends the loop. A line is given as it is sent, without its newline.
\<close>

definition MaxScanTokenSize :: nat where
  "MaxScanTokenSize = 65536"

definition scanLine ::
  "u64 \<Rightarrow> bytes \<Rightarrow> ClientState \<times> DB \<Rightarrow> (reply list \<times> bool \<times> ClientState \<times> DB) option" where
  "scanLine now line s =
     (if MaxScanTokenSize \<le> length line then Some ([], True, s)
      else handleLine now line s)"

fun handleLines ::
  "(u64 \<times> bytes) list \<Rightarrow> ClientState \<times> DB \<Rightarrow> (reply list \<times> ClientState \<times> DB) option" where
  "handleLines [] s = Some ([], s)"
| "handleLines ((now, line) # ls) s = do {
     (out, quit, s) \<leftarrow> scanLine now line s;
     (if quit then Some (out, s)
      else do {
        (out', s) \<leftarrow> handleLines ls s;
        Some (out @ out', s)
      })
   }"

text \<open>The deferred function of a connection: the rollback of a transaction that is still open.\<close>

definition deferredRollback :: "ClientState \<Rightarrow> DB \<Rightarrow> DB option" where
  "deferredRollback client db =
     (if InTx client
      then do {
        (_, db) \<leftarrow> DB_Rollback (TxID client) db;
        Some db
      }
      else Some db)"

definition handleConnection :: "(u64 \<times> bytes) list \<Rightarrow> DB \<Rightarrow> (reply list \<times> DB) option" where
  "handleConnection ls db = do {
     (out, client, db) \<leftarrow> handleLines ls (NewClientState, db);
     db \<leftarrow> deferredRollback client db;
     Some (RWelcome # out, db)
   }"

end
