(* ===== verification/Tree_Search.thy ===== *)
theory Tree_Search
  imports BTree
begin

text \<open>
  Nodes of the tree and the search for a key. \<open>leaf_page\<close> and \<open>node_page\<close> read a page as the list of
  its decoded cells; the loops of \<^verbatim>\<open>findLeafPage\<close>, \<^verbatim>\<open>Find\<close> and \<^verbatim>\<open>FindLatest\<close> over the slots of a page are
  then functions of that list. \<open>tree_at\<close> is the search-tree invariant on the page contents, with the
  interval of keys a subtree covers; the search theorems say that the descent ends in the leaf whose
  interval holds the key.
\<close>

section \<open>Greatest element of a scan\<close>

definition scan_max :: "('a \<Rightarrow> bool) \<Rightarrow> ('a \<Rightarrow> 'k::linorder) \<Rightarrow> 'a list \<Rightarrow> 'a option \<Rightarrow> 'a option" where
  "scan_max P f xs b =
     fold (\<lambda>x b. if P x \<and> (case b of None \<Rightarrow> True | Some y \<Rightarrow> f y < f x) then Some x else b) xs b"

lemma scan_max_simps [simp]:
  "scan_max P f [] b = b"
  "scan_max P f (x # xs) b =
     scan_max P f xs (if P x \<and> (case b of None \<Rightarrow> True | Some y \<Rightarrow> f y < f x) then Some x else b)"
  by (simp_all add: scan_max_def)

lemma scan_max_Some:
  "scan_max P f xs (Some b) = Some r \<Longrightarrow> P b \<Longrightarrow>
     r \<in> insert b (set xs) \<and> P r \<and> f b \<le> f r \<and> (\<forall>y \<in> set xs. P y \<longrightarrow> f y \<le> f r)"
proof (induction xs arbitrary: b)
  case Nil
  then show ?case by simp
next
  case (Cons x xs)
  show ?case
  proof (cases "P x \<and> f b < f x")
    case True
    then have "scan_max P f xs (Some x) = Some r" using Cons.prems(1) by simp
    from Cons.IH [OF this] show ?thesis using True by auto
  next
    case False
    then have "scan_max P f xs (Some b) = Some r" using Cons.prems(1) by auto
    from Cons.IH [OF this Cons.prems(2)] show ?thesis using False by auto
  qed
qed

lemma scan_max_not_None: "scan_max P f xs (Some b) \<noteq> None"
  by (induction xs arbitrary: b) auto

lemma scan_max_None_iff: "scan_max P f xs None = None \<longleftrightarrow> (\<forall>x \<in> set xs. \<not> P x)"
  by (induction xs) (auto simp: scan_max_not_None simp del: not_None_eq)

lemma scan_max_greatest:
  "scan_max P f xs None = Some r \<Longrightarrow> r \<in> set xs \<and> P r \<and> (\<forall>y \<in> set xs. P y \<longrightarrow> f y \<le> f r)"
proof (induction xs)
  case Nil
  then show ?case by simp
next
  case (Cons x xs)
  show ?case
  proof (cases "P x")
    case True
    then have "scan_max P f xs (Some x) = Some r" using Cons.prems by simp
    from scan_max_Some [OF this True] show ?thesis by auto
  next
    case False
    then show ?thesis using Cons by simp
  qed
qed

lemma scan_max_unique:
  assumes "inj_on f (set xs)" "x \<in> set xs" "P x" "\<And>y. y \<in> set xs \<Longrightarrow> P y \<Longrightarrow> f y \<le> f x"
  shows "scan_max P f xs None = Some x"
proof -
  obtain r where r: "scan_max P f xs None = Some r"
    using scan_max_None_iff [of P f xs] assms(2,3) by fastforce
  from scan_max_greatest [OF r] assms have "f r = f x" "r \<in> set xs" by (auto intro: antisym)
  then show ?thesis using r assms(1,2) by (simp add: inj_on_def)
qed

section \<open>Pages as lists of cells\<close>

definition leaf_page :: "page \<Rightarrow> KVCell list \<Rightarrow> bool" where
  "leaf_page p kvs \<longleftrightarrow> wf_slotted p \<and> GetPageType p = PageTypeLeaf \<and>
     page_cells p = map KVCell_Serialize kvs \<and> list_all kv_cell_fits kvs"

definition node_page :: "page \<Rightarrow> KeyCell list \<Rightarrow> bool" where
  "node_page p ks \<longleftrightarrow> wf_slotted p \<and> GetPageType p = PageTypeInternal \<and>
     page_cells p = map KeyCell_Serialize ks \<and> list_all key_cell_fits ks"

lemma getCell_nth: "wf_slotted p \<Longrightarrow> i < unat (getSlotCount p) \<Longrightarrow> getCell p i = Some (page_cells p ! i)"
  by (simp add: getCell_def Page_Get_cell)

lemma leaf_page_slots: "leaf_page p kvs \<Longrightarrow> unat (getSlotCount p) = length kvs"
  unfolding leaf_page_def by (metis length_map length_page_cells)

lemma node_page_slots: "node_page p ks \<Longrightarrow> unat (getSlotCount p) = length ks"
  unfolding node_page_def by (metis length_map length_page_cells)

lemma leaf_page_unique: "leaf_page p kvs \<Longrightarrow> leaf_page p kvs' \<Longrightarrow> kvs = kvs'"
  using kv_cell.dec_all [of kvs] kv_cell.dec_all [of kvs'] by (simp add: leaf_page_def list_all_iff)

lemma leaf_page_cell:
  assumes "leaf_page p kvs" "i < length kvs"
  shows "getCell p i = Some (KVCell_Serialize (kvs ! i))"
    "DeserializeKVCell (KVCell_Serialize (kvs ! i)) = Some (kvs ! i)"
proof -
  have "i < unat (getSlotCount p)" using assms leaf_page_slots by metis
  then show "getCell p i = Some (KVCell_Serialize (kvs ! i))"
    using assms by (simp add: leaf_page_def getCell_nth)
  show "DeserializeKVCell (KVCell_Serialize (kvs ! i)) = Some (kvs ! i)"
    using assms by (intro kv_cell.dec_enc) (simp add: leaf_page_def list_all_length)
qed

lemma node_page_cell:
  assumes "node_page p ks" "i < length ks"
  shows "getCell p i = Some (KeyCell_Serialize (ks ! i))"
    "DeserializeKeyCell (KeyCell_Serialize (ks ! i)) = Some (ks ! i)"
proof -
  have "i < unat (getSlotCount p)" using assms node_page_slots by metis
  then show "getCell p i = Some (KeyCell_Serialize (ks ! i))"
    using assms by (simp add: node_page_def getCell_nth)
  show "DeserializeKeyCell (KeyCell_Serialize (ks ! i)) = Some (ks ! i)"
    using assms by (intro key_cell.dec_enc) (simp add: node_page_def list_all_length)
qed

lemma map_nth_upt: "map ((!) xs) [0..<length xs] = xs"
  by (rule map_nth)

section \<open>The loops over the slots of a page\<close>

lemma pickChild_scan:
  assumes "node_page p ks" "set is \<subseteq> {0..<length ks}"
  shows "pickChild key p is (map_option kcKey b) (case b of None \<Rightarrow> 0 | Some k \<Rightarrow> ChildPageID k) =
    (let r = scan_max (\<lambda>k. kcKey k \<le> key) kcKey (map ((!) ks) is) b
     in Some (map_option kcKey r, case r of None \<Rightarrow> 0 | Some k \<Rightarrow> ChildPageID k))"
  using assms(2)
proof (induction "is" arbitrary: b)
  case Nil
  then show ?case by simp
next
  case (Cons i "is")
  have i: "i < length ks" "set is \<subseteq> {0..<length ks}" using Cons.prems by auto
  note c = node_page_cell [OF assms(1) i(1)]
  show ?case
    using c Cons.IH [OF i(2), of b] Cons.IH [OF i(2), of "Some (ks ! i)"]
    by (cases b) (simp_all add: Let_def)
qed

lemma nextChild_scan:
  assumes "node_page p ks" "ks \<noteq> []"
  shows "nextChild p key = Some (ChildPageID
    (case scan_max (\<lambda>k. kcKey k \<le> key) kcKey ks None of Some k \<Rightarrow> k | None \<Rightarrow> hd ks))"
proof -
  note n = node_page_slots [OF assms(1)]
  have "pickChild key p (slots p) None 0 =
      (let r = scan_max (\<lambda>k. kcKey k \<le> key) kcKey ks None
       in Some (map_option kcKey r, case r of None \<Rightarrow> 0 | Some k \<Rightarrow> ChildPageID k))"
    using pickChild_scan [OF assms(1), of "[0..<length ks]" key None] by (simp add: n map_nth)
  moreover have "0 < getSlotCount p" using n assms(2) by (simp add: word_less_nat_alt)
  moreover have "getCell p 0 = Some (KeyCell_Serialize (hd ks))"
    "DeserializeKeyCell (KeyCell_Serialize (hd ks)) = Some (hd ks)"
    using node_page_cell [OF assms(1), of 0] assms(2) by (simp_all add: hd_conv_nth)
  ultimately show ?thesis by (auto simp: nextChild_def Let_def split: option.splits)
qed

lemma latestLoop_scan:
  assumes "leaf_page p kvs" "set is \<subseteq> {0..<length kvs}"
  shows "latestLoop p ukey tm is b = Some (scan_max (\<lambda>kv. isVersionVisible (Key kv) ukey tm) Key (map ((!) kvs) is) b)"
  using assms(2)
proof (induction "is" arbitrary: b)
  case Nil
  then show ?case by simp
next
  case (Cons i "is")
  have i: "i < length kvs" "set is \<subseteq> {0..<length kvs}" using Cons.prems by auto
  note c = leaf_page_cell [OF assms(1) i(1)]
  show ?case
    using c Cons.IH [OF i(2), of b] Cons.IH [OF i(2), of "Some (kvs ! i)"]
    by (cases b) (simp_all add: Let_def)
qed

lemma latestLoop_leaf:
  assumes "leaf_page p kvs"
  shows "latestLoop p ukey tm (slots p) None = Some (scan_max (\<lambda>kv. isVersionVisible (Key kv) ukey tm) Key kvs None)"
  using latestLoop_scan [OF assms, of "[0..<length kvs]"] leaf_page_slots [OF assms] by (simp add: map_nth)

lemma matchLoop_scan:
  assumes "leaf_page p kvs" "set is \<subseteq> {0..<length kvs}"
  shows "matchLoop p key is = Some (find (\<lambda>kv. Key kv = key) (map ((!) kvs) is))"
  using assms(2)
proof (induction "is")
  case Nil
  then show ?case by simp
next
  case (Cons i "is")
  have i: "i < length kvs" "set is \<subseteq> {0..<length kvs}" using Cons.prems by auto
  note c = leaf_page_cell [OF assms(1) i(1)]
  show ?case using c Cons.IH [OF i(2)] by simp
qed

lemma matchLoop_leaf:
  assumes "leaf_page p kvs"
  shows "matchLoop p key (slots p) = Some (find (\<lambda>kv. Key kv = key) kvs)"
  using matchLoop_scan [OF assms, of "[0..<length kvs]"] leaf_page_slots [OF assms] by (simp add: map_nth)


section \<open>Stamping the LSN keeps the cells\<close>

lemma SetLSN_get:
  assumes "length p = PageSize"
  shows "GetPageType (SetLSN p l) = GetPageType p" "getSlotCount (SetLSN p l) = getSlotCount p"
    "getFreeSpaceOffset (SetLSN p l) = getFreeSpaceOffset p" "GetPageID (SetLSN p l) = GetPageID p"
    "slot_off (SetLSN p l) i = slot_off p i" "slot_len (SetLSN p l) i = slot_len p i"
  using assms
  by (simp_all add: page_getters page_setters sub_blit_other nth_blit_other slot_off_def slot_len_def)

lemma SetLSN_cells:
  assumes "wf_slotted p"
  shows "page_cells (SetLSN p l) = page_cells p" "wf_slotted (SetLSN p l)"
proof -
  have len: "length p = PageSize" using assms by (simp add: wf_slotted_def)
  have off: "20 \<le> slot_off p i" if "i < unat (getSlotCount p)" for i
    using assms that by (fastforce simp: wf_slotted_def)
  have "sub (SetLSN p l) (slot_off p i) (slot_len p i) = sub p (slot_off p i) (slot_len p i)"
    if "i < unat (getSlotCount p)" for i
    using off [OF that] by (simp add: SetLSN_def sub_blit_other)
  then show pc: "page_cells (SetLSN p l) = page_cells p"
    using len by (simp add: page_cells_def SetLSN_get)
  show "wf_slotted (SetLSN p l)"
    using assms len pc by (simp add: wf_slotted_def SetLSN_get is_slotted_def)
qed

lemma norm_cells:
  assumes "length p = PageSize"
  shows "wf_slotted (norm_page p) \<longleftrightarrow> wf_slotted p"
    "wf_slotted p \<Longrightarrow> page_cells (norm_page p) = page_cells p"
proof -
  have restamp: "p = SetLSN (norm_page p) (GetLSN p)"
  proof -
    have "blit (blit p 12 (PutUint64 0)) 12 (sub p 12 8) = blit p 12 (sub p 12 8)"
      using assms by (intro blit_idem) simp
    then show ?thesis
      using assms blit_self [of 12 8 p] Put64_Uint64 [of "sub p 12 8"]
      by (simp add: norm_page_def SetLSN_def GetLSN_def)
  qed
  show "wf_slotted (norm_page p) \<longleftrightarrow> wf_slotted p"
    using SetLSN_cells(2) restamp norm_page_def by metis
  show "wf_slotted p \<Longrightarrow> page_cells (norm_page p) = page_cells p"
    by (simp add: norm_page_def SetLSN_cells)
qed

lemma leaf_page_norm: "length p = PageSize \<Longrightarrow> leaf_page (norm_page p) kvs \<longleftrightarrow> leaf_page p kvs"
  using norm_cells [of p] norm_page_get(2) [of p] by (auto simp: leaf_page_def)

lemma node_page_norm: "length p = PageSize \<Longrightarrow> node_page (norm_page p) ks \<longleftrightarrow> node_page p ks"
  using norm_cells [of p] norm_page_get(2) [of p] by (auto simp: node_page_def)

section \<open>The search tree\<close>

definition in_range :: "bytes \<Rightarrow> bytes option \<Rightarrow> bytes \<Rightarrow> bool" where
  "in_range lo hi k \<longleftrightarrow> lo \<le> k \<and> (case hi of None \<Rightarrow> True | Some u \<Rightarrow> k < u)"

text \<open>The interval of the j-th child of a node that covers \<open>lo\<close> to \<open>hi\<close>.\<close>

definition low_of :: "bytes \<Rightarrow> KeyCell list \<Rightarrow> nat \<Rightarrow> bytes" where
  "low_of lo ks j = (if j = 0 then lo else kcKey (ks ! j))"

definition high_of :: "bytes option \<Rightarrow> KeyCell list \<Rightarrow> nat \<Rightarrow> bytes option" where
  "high_of hi ks j = (if Suc j < length ks then Some (kcKey (ks ! Suc j)) else hi)"

text \<open>\<open>tree_at V h i lo hi es ps\<close>: in the page contents V, page i is the root of a search tree of height h
  that covers the keys from lo to hi, holds the cells es in key order, and uses the pages ps.\<close>

fun tree_at :: "(u32 \<Rightarrow> page option) \<Rightarrow> nat \<Rightarrow> u32 \<Rightarrow> bytes \<Rightarrow> bytes option \<Rightarrow> KVCell list \<Rightarrow> u32 list \<Rightarrow> bool" where
  "tree_at V 0 i lo hi es ps \<longleftrightarrow>
     ps = [i] \<and> i \<noteq> 0 \<and> (\<exists>p. V i = Some p \<and> leaf_page p es) \<and>
     sorted_wrt (<) (map Key es) \<and> (\<forall>e \<in> set es. in_range lo hi (Key e))"
| "tree_at V (Suc h) i lo hi es ps \<longleftrightarrow>
     i \<noteq> 0 \<and> (\<exists>p ks ess pss. V i = Some p \<and> node_page p ks \<and> ks \<noteq> [] \<and> kcKey (hd ks) = [] \<and>
       sorted_wrt (<) (map kcKey ks) \<and> (\<forall>j. 0 < j \<and> j < length ks \<longrightarrow> lo < kcKey (ks ! j) \<and> in_range lo hi (kcKey (ks ! j))) \<and>
       length ess = length ks \<and> length pss = length ks \<and> es = concat ess \<and> ps = i # concat pss \<and>
       (\<forall>j < length ks. tree_at V h (ChildPageID (ks ! j)) (low_of lo ks j) (high_of hi ks j) (ess ! j) (pss ! j)))"

lemma tree_at_nonzero: "tree_at V h i lo hi es ps \<Longrightarrow> i \<noteq> 0"
  by (cases h) auto

lemma tree_at_root: "tree_at V h i lo hi es ps \<Longrightarrow> i \<in> set ps"
  by (cases h) auto

lemma tree_at_cong:
  "(\<And>k. k \<in> set ps \<Longrightarrow> V k = V' k) \<Longrightarrow> tree_at V h i lo hi es ps \<Longrightarrow> tree_at V' h i lo hi es ps"
proof (induction h arbitrary: i lo hi es ps)
  case 0
  then show ?case by auto
next
  case (Suc h)
  obtain p ks ess pss where t: "V i = Some p" "node_page p ks" "ks \<noteq> []" "kcKey (hd ks) = []"
    "sorted_wrt (<) (map kcKey ks)" "\<forall>j. 0 < j \<and> j < length ks \<longrightarrow> lo < kcKey (ks ! j) \<and> in_range lo hi (kcKey (ks ! j))"
    "length ess = length ks" "length pss = length ks" "es = concat ess" "ps = i # concat pss"
    "\<forall>j < length ks. tree_at V h (ChildPageID (ks ! j)) (low_of lo ks j) (high_of hi ks j) (ess ! j) (pss ! j)"
    "i \<noteq> 0"
    using Suc.prems(2) unfolding tree_at.simps by blast
  have "tree_at V' h (ChildPageID (ks ! j)) (low_of lo ks j) (high_of hi ks j) (ess ! j) (pss ! j)"
    if j: "j < length ks" for j
  proof (rule Suc.IH)
    show "V k = V' k" if "k \<in> set (pss ! j)" for k
      using that j t(8,10) by (intro Suc.prems(1)) (auto intro!: nth_mem)
    show "tree_at V h (ChildPageID (ks ! j)) (low_of lo ks j) (high_of hi ks j) (ess ! j) (pss ! j)"
      using t(11) j by blast
  qed
  moreover have "V' i = Some p" using t(1,10) Suc.prems(1) [of i] by simp
  ultimately show ?case unfolding tree_at.simps using t by blast
qed

text \<open>The child that covers a key is the one with the greatest separator not above it, and the
  interval bounds follow.\<close>

lemma child_index:
  assumes "sorted_wrt (<) (map kcKey ks)" "ks \<noteq> []" "kcKey (hd ks) = []"
  obtains j where "j < length ks" "kcKey (ks ! j) \<le> key" "Suc j < length ks \<longrightarrow> key < kcKey (ks ! Suc j)"
    "scan_max (\<lambda>k. kcKey k \<le> key) kcKey ks None = Some (ks ! j)"
proof -
  let ?J = "{j. j < length ks \<and> kcKey (ks ! j) \<le> key}"
  have "0 \<in> ?J" using assms(2,3) by (simp add: hd_conv_nth)
  moreover have fin: "finite ?J" by simp
  ultimately have mx: "Max ?J \<in> ?J" using Max_in by blast
  define j where "j = Max ?J"
  have j: "j < length ks" "kcKey (ks ! j) \<le> key" using mx by (simp_all add: j_def)
  have up: "\<not> kcKey (ks ! i) \<le> key" if "j < i" "i < length ks" for i
  proof
    assume "kcKey (ks ! i) \<le> key"
    then have "i \<le> j" unfolding j_def using that(2) by (intro Max_ge [OF fin]) simp
    then show False using that(1) by simp
  qed
  have mono: "kcKey (ks ! i) \<le> kcKey (ks ! j)" if "i \<le> j" for i
    using that j(1) sorted_wrt_nth_less [OF assms(1), of i j] by (cases "i = j") (auto simp: less_imp_le)
  have "inj_on kcKey (set ks)"
    using assms(1) by (metis distinct_map strict_sorted_iff)
  then have "scan_max (\<lambda>k. kcKey k \<le> key) kcKey ks None = Some (ks ! j)"
  proof (rule scan_max_unique)
    fix y assume "y \<in> set ks" "kcKey y \<le> key"
    then obtain i where "i < length ks" "y = ks ! i" by (metis in_set_conv_nth)
    then show "kcKey y \<le> kcKey (ks ! j)" using up [of i] mono [of i] \<open>kcKey y \<le> key\<close> by (cases "j < i") auto
  qed (use j in auto)
  moreover have "Suc j < length ks \<longrightarrow> key < kcKey (ks ! Suc j)" using up [of "Suc j"] by (auto simp: not_le)
  ultimately show ?thesis using that j by blast
qed

lemma tree_child:
  assumes "tree_at V (Suc h) i lo hi es ps" "in_range lo hi key"
  obtains p ks ess pss j where "V i = Some p" "node_page p ks" "j < length ks" "length ess = length ks"
    "length pss = length ks" "es = concat ess" "ps = i # concat pss"
    "nextChild p key = Some (ChildPageID (ks ! j))" "in_range (low_of lo ks j) (high_of hi ks j) key"
    "tree_at V h (ChildPageID (ks ! j)) (low_of lo ks j) (high_of hi ks j) (ess ! j) (pss ! j)"
    "\<forall>m < length ks. tree_at V h (ChildPageID (ks ! m)) (low_of lo ks m) (high_of hi ks m) (ess ! m) (pss ! m)"
    "sorted_wrt (<) (map kcKey ks)" "\<forall>m. 0 < m \<and> m < length ks \<longrightarrow> lo < kcKey (ks ! m) \<and> in_range lo hi (kcKey (ks ! m))" "kcKey (hd ks) = []"
proof -
  obtain p ks ess pss where t: "V i = Some p" "node_page p ks" "ks \<noteq> []" "kcKey (hd ks) = []"
    "sorted_wrt (<) (map kcKey ks)" "\<forall>j. 0 < j \<and> j < length ks \<longrightarrow> lo < kcKey (ks ! j) \<and> in_range lo hi (kcKey (ks ! j))"
    "length ess = length ks" "length pss = length ks" "es = concat ess" "ps = i # concat pss"
    "\<forall>j < length ks. tree_at V h (ChildPageID (ks ! j)) (low_of lo ks j) (high_of hi ks j) (ess ! j) (pss ! j)"
    using assms(1) unfolding tree_at.simps by blast
  obtain j where j: "j < length ks" "kcKey (ks ! j) \<le> key" "Suc j < length ks \<longrightarrow> key < kcKey (ks ! Suc j)"
    "scan_max (\<lambda>k. kcKey k \<le> key) kcKey ks None = Some (ks ! j)"
    by (rule child_index [OF t(5,3,4)])
  have n: "nextChild p key = Some (ChildPageID (ks ! j))" using nextChild_scan [OF t(2,3)] j(4) by simp
  have r: "in_range (low_of lo ks j) (high_of hi ks j) key"
    using assms(2) j(2,3) by (auto simp: in_range_def low_of_def high_of_def)
  show ?thesis using that [OF t(1,2) j(1) t(7-10) n r _ t(11) t(5,6,4)] t(11) j(1) by blast
qed


lemma concat_nthE:
  assumes "x \<in> set (concat xss)"
  obtains j where "j < length xss" "x \<in> set (xss ! j)"
proof -
  obtain xs where "xs \<in> set xss" "x \<in> set xs" using assms by auto
  then show ?thesis using that by (metis in_set_conv_nth)
qed

lemma range_child:
  assumes "j < length ks" "\<forall>m. 0 < m \<and> m < length ks \<longrightarrow> lo < kcKey (ks ! m) \<and> in_range lo hi (kcKey (ks ! m))"
    and "in_range (low_of lo ks j) (high_of hi ks j) k"
  shows "in_range lo hi k"
proof -
  have "lo \<le> low_of lo ks j" using assms(1,2) by (auto simp: low_of_def)
  moreover have "case hi of None \<Rightarrow> True | Some u \<Rightarrow> k < u"
  proof (cases "Suc j < length ks")
    case True
    then have "k < kcKey (ks ! Suc j)" "in_range lo hi (kcKey (ks ! Suc j))"
      using assms(2,3) by (auto simp: in_range_def high_of_def)
    then show ?thesis by (cases hi) (auto simp: in_range_def)
  next
    case False
    then show ?thesis using assms(3) by (simp add: in_range_def high_of_def)
  qed
  ultimately show ?thesis using assms(3) by (auto simp: in_range_def)
qed

lemma range_apart:
  assumes "m < j" "j < length ks" "sorted_wrt (<) (map kcKey ks)"
    and "in_range (low_of lo ks m) (high_of hi ks m) k" "in_range (low_of lo ks j) (high_of hi ks j) k'"
  shows "k < k'"
proof -
  have "k < kcKey (ks ! Suc m)" using assms(1,2,4) by (auto simp: in_range_def high_of_def)
  also have "\<dots> \<le> kcKey (ks ! j)"
    using sorted_wrt_nth_less [OF assms(3), of "Suc m" j] assms(1,2) by (cases "Suc m = j") auto
  also have "\<dots> \<le> k'" using assms(1,5) by (simp add: in_range_def low_of_def)
  finally show ?thesis .
qed

lemma tree_in_range:
  "tree_at V h i lo hi es ps \<Longrightarrow> e \<in> set es \<Longrightarrow> in_range lo hi (Key e)"
proof (induction h arbitrary: i lo hi es ps)
  case 0
  then show ?case by auto
next
  case (Suc h)
  obtain ks ess pss where t:
    "\<forall>j. 0 < j \<and> j < length ks \<longrightarrow> lo < kcKey (ks ! j) \<and> in_range lo hi (kcKey (ks ! j))"
    "length ess = length ks" "es = concat ess"
    "\<forall>j < length ks. tree_at V h (ChildPageID (ks ! j)) (low_of lo ks j) (high_of hi ks j) (ess ! j) (pss ! j)"
    using Suc.prems(1) unfolding tree_at.simps by blast
  obtain j where j: "j < length ks" "e \<in> set (ess ! j)"
    using concat_nthE [of e ess] Suc.prems(2) t(2,3) by metis
  show ?case by (rule range_child [OF j(1) t(1)]) (use Suc.IH t(4) j in blast)
qed

lemma sorted_concat:
  assumes "\<And>j. j < length xss \<Longrightarrow> sorted_wrt (<) (xss ! j)"
    and "\<And>m j x y. m < j \<Longrightarrow> j < length xss \<Longrightarrow> x \<in> set (xss ! m) \<Longrightarrow> y \<in> set (xss ! j) \<Longrightarrow> x < (y :: 'a::order)"
  shows "sorted_wrt (<) (concat xss)"
  using assms
proof (induction xss)
  case Nil
  then show ?case by simp
next
  case (Cons xs xss)
  have "sorted_wrt (<) (concat xss)"
  proof (rule Cons.IH)
    show "sorted_wrt (<) (xss ! j)" if "j < length xss" for j using Cons.prems(1) [of "Suc j"] that by simp
    show "x < y" if "m < j" "j < length xss" "x \<in> set (xss ! m)" "y \<in> set (xss ! j)" for m j x y
      using Cons.prems(2) [of "Suc m" "Suc j" x y] that by simp
  qed
  moreover have "x < y" if xy: "x \<in> set xs" "y \<in> set (concat xss)" for x y
  proof -
    obtain j where "j < length xss" "y \<in> set (xss ! j)" by (rule concat_nthE [OF xy(2)])
    then show ?thesis using Cons.prems(2) [of 0 "Suc j" x y] xy(1) by simp
  qed
  ultimately show ?case using Cons.prems(1) [of 0] by (simp add: sorted_wrt_append)
qed

lemma tree_sorted: "tree_at V h i lo hi es ps \<Longrightarrow> sorted_wrt (<) (map Key es)"
proof (induction h arbitrary: i lo hi es ps)
  case 0
  then show ?case by auto
next
  case (Suc h)
  obtain ks ess pss where t: "sorted_wrt (<) (map kcKey ks)"
    "length ess = length ks" "es = concat ess"
    "\<forall>j < length ks. tree_at V h (ChildPageID (ks ! j)) (low_of lo ks j) (high_of hi ks j) (ess ! j) (pss ! j)"
    using Suc.prems(1) unfolding tree_at.simps by blast
  have "sorted_wrt (<) (concat (map (map Key) ess))"
  proof (rule sorted_concat)
    show "sorted_wrt (<) (map (map Key) ess ! j)" if "j < length (map (map Key) ess)" for j
      using Suc.IH t(2,4) that by auto
    show "x < y" if m: "m < j" "j < length (map (map Key) ess)" "x \<in> set (map (map Key) ess ! m)"
      "y \<in> set (map (map Key) ess ! j)" for m j x y
    proof -
      have "in_range (low_of lo ks m) (high_of hi ks m) x" "in_range (low_of lo ks j) (high_of hi ks j) y"
      proof -
        obtain d e where "x = Key d" "d \<in> set (ess ! m)" "y = Key e" "e \<in> set (ess ! j)" using m by auto
        moreover have "m < length ks" "j < length ks" using m t(2) by auto
        ultimately show "in_range (low_of lo ks m) (high_of hi ks m) x" "in_range (low_of lo ks j) (high_of hi ks j) y"
          using t(4) tree_in_range by blast+
      qed
      then show ?thesis using range_apart [OF m(1) _ t(1)] m(2) t(2) by simp
    qed
  qed
  then show ?case by (simp add: t(3) map_concat)
qed

text \<open>The cells of a subtree are exactly the cells of the whole tree that lie in its interval.\<close>

lemma filter_concat_one:
  assumes "j < length xss" "\<And>m x. m < length xss \<Longrightarrow> m \<noteq> j \<Longrightarrow> x \<in> set (xss ! m) \<Longrightarrow> \<not> P x"
  shows "filter P (concat xss) = filter P (xss ! j)"
  using assms
proof (induction xss arbitrary: j)
  case Nil
  then show ?case by simp
next
  case (Cons xs xss)
  show ?case
  proof (cases j)
    case 0
    have "filter P (concat xss) = []"
    proof -
      have "\<not> P x" if x: "x \<in> set (concat xss)" for x
      proof -
        obtain m where "m < length xss" "x \<in> set (xss ! m)" by (rule concat_nthE [OF x])
        then show ?thesis using Cons.prems(2) [of "Suc m" x] 0 by simp
      qed
      then show ?thesis by (simp add: filter_empty_conv)
    qed
    then show ?thesis using 0 by simp
  next
    case (Suc n)
    have "filter P xs = []" using Cons.prems(2) [of 0] Suc by (auto simp: filter_empty_conv)
    moreover have "filter P (concat xss) = filter P (xss ! n)"
    proof (rule Cons.IH)
      show "\<not> P x" if "m < length xss" "m \<noteq> n" "x \<in> set (xss ! m)" for m x
        using Cons.prems(2) [of "Suc m" x] that Suc by simp
    qed (use Cons.prems(1) Suc in simp)
    ultimately show ?thesis using Suc by simp
  qed
qed

lemma child_entries:
  assumes "j < length ks" "length ess = length ks" "sorted_wrt (<) (map kcKey ks)"
    and "\<forall>m < length ks. tree_at V h (ChildPageID (ks ! m)) (low_of lo ks m) (high_of hi ks m) (ess ! m) (pss ! m)"
    and "\<And>k. in_range lo' hi' k \<Longrightarrow> in_range (low_of lo ks j) (high_of hi ks j) k"
  shows "filter (\<lambda>e. in_range lo' hi' (Key e)) (concat ess) = filter (\<lambda>e. in_range lo' hi' (Key e)) (ess ! j)"
proof (rule filter_concat_one)
  fix m e assume m: "m < length ess" "m \<noteq> j" "e \<in> set (ess ! m)"
  have r: "in_range (low_of lo ks m) (high_of hi ks m) (Key e)"
    using m assms(2,4) tree_in_range by metis
  show "\<not> in_range lo' hi' (Key e)"
  proof
    assume "in_range lo' hi' (Key e)"
    then have "in_range (low_of lo ks j) (high_of hi ks j) (Key e)" by (rule assms(5))
    note j = this
    consider "m < j" | "j < m" using m(2) by linarith
    then have "Key e < Key e"
    proof cases
      case 1
      then show ?thesis by (rule range_apart [OF _ assms(1,3) r j])
    next
      case 2
      then show ?thesis by (rule range_apart [OF _ _ assms(3) j r]) (use m(1) assms(2) in simp)
    qed
    then show False by simp
  qed
qed (use assms(1,2) in simp)


section \<open>Descending to the leaf of a key\<close>

definition leaf_for :: "(u32 \<Rightarrow> page option) \<Rightarrow> bytes \<Rightarrow> KVCell list \<Rightarrow> u32 \<Rightarrow> KVCell list \<Rightarrow> bytes \<Rightarrow> bytes option \<Rightarrow> bool" where
  "leaf_for V key es leafID kvs lo hi \<longleftrightarrow> tree_at V 0 leafID lo hi kvs [leafID] \<and> in_range lo hi key \<and>
     kvs = filter (\<lambda>e. in_range lo hi (Key e)) es"

definition leaf_latch :: "bool \<Rightarrow> latch" where
  "leaf_latch forWrite = (if forWrite then LWrite else LRead 1)"

lemma leaf_latch_simps [simp]: "leaf_latch True = LWrite" "leaf_latch False = LRead 1"
  by (simp_all add: leaf_latch_def)

text \<open>\<open>descent V h i key path l\<close>: from page i the search for key passes through the pages path and ends,
  h levels below, in page l.\<close>

fun descent :: "(u32 \<Rightarrow> page option) \<Rightarrow> nat \<Rightarrow> u32 \<Rightarrow> bytes \<Rightarrow> u32 list \<Rightarrow> u32 \<Rightarrow> bool" where
  "descent V 0 i key path l \<longleftrightarrow> path = [] \<and> l = i"
| "descent V (Suc h) i key path l \<longleftrightarrow>
     (\<exists>p c path'. V i = Some p \<and> nextChild p key = Some c \<and> path = i # path' \<and> descent V h c key path' l)"

lemma descent_unique: "descent V h i key path l \<Longrightarrow> descent V h i key path' l' \<Longrightarrow> path = path' \<and> l = l'"
proof (induction h arbitrary: i path path')
  case 0
  then show ?case by simp
next
  case (Suc h)
  then show ?case by fastforce
qed

lemma findLoop_ok:
  assumes "implements t a" "tree_at (pview a) h i lo hi es ps" "in_range lo hi key"
    and "\<forall>k \<in> set ps. pheld a k = LFree" "pages_free a 1" "fw \<longrightarrow> plog a \<longrightarrow> plogopen a"
  shows "\<exists>leafID leaf path' t' kvs lo' hi'. findLoop key fw i path t = Some (Inr (leafID, leaf, path'), t') \<and>
    implements t' (a\<lparr>pheld := (pheld a)(leafID := leaf_latch fw)\<rparr>) \<and>
    leaf_page leaf kvs \<and> pview a leafID = Some (norm_page leaf) \<and> length leaf = PageSize \<and>
    leafID \<in> set ps \<and> leaf_for (pview a) key es leafID kvs lo' hi' \<and>
    (\<exists>d. path' = path @ d \<and> descent (pview a) h i key d leafID) \<and>
    (\<forall>k. in_range lo' hi' k \<longrightarrow> in_range lo hi k)"
  using assms(1-4)
proof (induction h arbitrary: t i lo hi es ps path)
  case 0
  obtain p where p: "pview a i = Some p" "leaf_page p es" "ps = [i]" using 0(2) by auto
  have h: "pheld a i = LFree" "room a i" using 0(4) p(3) assms(5) pages_free_room [of a 0] by simp_all
  have len: "length p = PageSize" by (rule pview_page(1) [OF 0(1) p(1)])
  have lf: "leaf_for (pview a) key es i es lo hi"
    using 0(2,3) p(3) tree_in_range [OF 0(2)] by (auto simp: leaf_for_def intro!: filter_True [symmetric])
  have ty: "GetPageType p = PageTypeLeaf" using p(2) by (simp add: leaf_page_def)
  have q_facts: "leaf_page q es \<and> GetPageType q = PageTypeLeaf \<and> length q = PageSize" if "norm_page q = p" for q
  proof -
    have lq: "length q = PageSize" using that len by (metis length_norm_page)
    then show ?thesis using leaf_page_norm [OF lq, of es] p(2) norm_page_get(2) [OF lq] that ty by simp
  qed
  have ds: "\<exists>d. path = path @ d \<and> descent (pview a) 0 i key d i" by simp
  show ?case
  proof (cases fw)
    case False
    obtain q t1 where f: "FetchPageForRead i PageTypeLeaf t = Some (Inr q, t1)" "norm_page q = p"
      "implements t1 (a\<lparr>pheld := (pheld a)(i := LRead 1)\<rparr>)"
      using pool.fetchR_free [OF 0(1) p(1) h(2,1), of PageTypeLeaf] by blast
    have a1: "findLoop key fw i path t = Some (Inr (i, q, path), t1)"
      using f(1) False q_facts [OF f(2)] by (subst findLoop.simps) simp
    have a2: "implements t1 (a\<lparr>pheld := (pheld a)(i := leaf_latch fw)\<rparr>)" using f(3) False by (simp del: One_nat_def)
    have a3: "pview a i = Some (norm_page q)" "i \<in> set ps" using p f(2) by simp_all
    show ?thesis using a1 a2 a3 q_facts [OF f(2)] lf ds by blast
  next
    case True
    obtain q t1 t2 where f: "FetchPageForRead i PageTypeLeaf t = Some (Inr q, t1)" "norm_page q = p"
      "UnpinPage i False False t1 = Some (Inr (), t2)" "implements t2 a"
      by (rule pool.read_once [OF 0(1) p(1) h(2,1)])
    obtain w t3 where g: "FetchPageForWrite i PageTypeLeaf t2 = Some (Inr w, t3)" "norm_page w = p"
      "implements t3 (a\<lparr>pheld := (pheld a)(i := LWrite)\<rparr>)"
      using pool.fetchW_free [OF f(4) p(1) h(2,1), of PageTypeLeaf] assms(6) True by blast
    have a1: "findLoop key fw i path t = Some (Inr (i, w, path), t3)"
      using f(1,3) g(1) True q_facts [OF f(2)] by (subst findLoop.simps) (simp add: dropUnpin_def)
    have a2: "implements t3 (a\<lparr>pheld := (pheld a)(i := leaf_latch fw)\<rparr>)" using g(3) True by simp
    have a3: "pview a i = Some (norm_page w)" "i \<in> set ps" using p g(2) by simp_all
    show ?thesis using a1 a2 a3 q_facts [OF g(2)] lf ds by blast
  qed
next
  case (Suc h)
  obtain p ks ess pss j where c: "pview a i = Some p" "node_page p ks" "j < length ks" "length ess = length ks"
    "length pss = length ks" "es = concat ess" "ps = i # concat pss"
    "nextChild p key = Some (ChildPageID (ks ! j))" "in_range (low_of lo ks j) (high_of hi ks j) key"
    "tree_at (pview a) h (ChildPageID (ks ! j)) (low_of lo ks j) (high_of hi ks j) (ess ! j) (pss ! j)"
    "\<forall>m < length ks. tree_at (pview a) h (ChildPageID (ks ! m)) (low_of lo ks m) (high_of hi ks m) (ess ! m) (pss ! m)"
    "sorted_wrt (<) (map kcKey ks)" "\<forall>m. 0 < m \<and> m < length ks \<longrightarrow> lo < kcKey (ks ! m) \<and> in_range lo hi (kcKey (ks ! m))"
    by (rule tree_child [OF Suc.prems(2,3)])
  have h: "pheld a i = LFree" "room a i" using Suc.prems(4) c(7) assms(5) pages_free_room [of a 0] by simp_all
  have len: "length p = PageSize" by (rule pview_page(1) [OF Suc.prems(1) c(1)])
  obtain q t1 t2 where f: "FetchPageForRead i PageTypeLeaf t = Some (Inr q, t1)" "norm_page q = p"
    "UnpinPage i False False t1 = Some (Inr (), t2)" "implements t2 a"
    by (rule pool.read_once [OF Suc.prems(1) c(1) h(2,1)])
  have ql: "length q = PageSize" using f(2) len by (metis length_norm_page)
  have nq: "node_page q ks" using node_page_norm [OF ql, of ks] c(2) f(2) by simp
  have ty: "GetPageType q \<noteq> PageTypeLeaf" using nq by (simp add: node_page_def)
  have ksne: "ks \<noteq> []" using c(3) by auto
  have nc: "nextChild q key = Some (ChildPageID (ks ! j))"
    using nextChild_scan [OF nq ksne] nextChild_scan [OF c(2) ksne] c(8) by simp
  have nz: "ChildPageID (ks ! j) \<noteq> 0" by (rule tree_at_nonzero [OF c(10)])
  have step: "findLoop key fw i path t = findLoop key fw (ChildPageID (ks ! j)) (path @ [i]) t2"
    using f(1,3) ty nc nz by (subst findLoop.simps) (simp add: dropUnpin_def)
  have sub: "set (pss ! j) \<subseteq> set ps" using c(3,5,7) by auto
  obtain leafID leaf path' t' kvs lo' hi' where ih: "findLoop key fw (ChildPageID (ks ! j)) (path @ [i]) t2 = Some (Inr (leafID, leaf, path'), t')"
    "implements t' (a\<lparr>pheld := (pheld a)(leafID := leaf_latch fw)\<rparr>)"
    "leaf_page leaf kvs" "pview a leafID = Some (norm_page leaf)" "length leaf = PageSize"
    "leafID \<in> set (pss ! j)" "leaf_for (pview a) key (ess ! j) leafID kvs lo' hi'"
    "\<exists>d. path' = (path @ [i]) @ d \<and> descent (pview a) h (ChildPageID (ks ! j)) key d leafID"
    "\<forall>k. in_range lo' hi' k \<longrightarrow> in_range (low_of lo ks j) (high_of hi ks j) k"
    using Suc.IH [OF f(4) c(10,9), of "path @ [i]"] Suc.prems(4) sub by blast
  have "leaf_for (pview a) key es leafID kvs lo' hi'"
  proof -
    have "filter (\<lambda>e. in_range lo' hi' (Key e)) (concat ess) = filter (\<lambda>e. in_range lo' hi' (Key e)) (ess ! j)"
      by (rule child_entries [OF c(3,4,12,11)]) (use ih(9) in blast)
    then show ?thesis using ih(7) unfolding leaf_for_def c(6) by metis
  qed
  moreover have "\<forall>k. in_range lo' hi' k \<longrightarrow> in_range lo hi k" using ih(9) range_child [OF c(3,13)] by blast
  moreover have "leafID \<in> set ps" using ih(6) sub by blast
  moreover have "\<exists>d. path' = path @ d \<and> descent (pview a) (Suc h) i key d leafID"
    using ih(8) c(1,8) by auto
  ultimately show ?case unfolding step using ih(1-5) by blast
qed


section \<open>The database invariant\<close>

text \<open>The value a cell stands for: its bytes, or what its overflow chain js spells.\<close>

definition cell_value :: "(u32 \<Rightarrow> page option) \<Rightarrow> KVCell \<Rightarrow> u32 list \<Rightarrow> bytes \<Rightarrow> bool" where
  "cell_value V kv js val \<longleftrightarrow>
     (if IsOverflow kv
      then Value kv = PutUint32 (hd js) @ PutUint32 (of_nat (length val)) \<and> spells V (hd js) js val \<and>
        distinct js \<and> val \<noteq> [] \<and> length val < 2 ^ 32
      else js = [] \<and> val = Value kv)"

text \<open>\<open>db_ok t a h es ps fs ov\<close>: no latch is held; the meta page names the root; the tree of height h holds the cells es in the pages
  ps; fs are the free pages; \<open>ov\<close> gives every cell its overflow pages and its value; and no page has
  two of these roles.\<close>

definition root_is :: "(u32 \<Rightarrow> page option) \<Rightarrow> u32 \<Rightarrow> bool" where
  "root_is V r \<longleftrightarrow> (\<exists>m. V 0 = Some m \<and> GetRootPageID m = r)"

definition db_ok ::
  "BTree \<Rightarrow> _ pool \<Rightarrow> nat \<Rightarrow> KVCell list \<Rightarrow> u32 list \<Rightarrow> u32 list \<Rightarrow> (KVCell \<Rightarrow> u32 list \<times> bytes) \<Rightarrow> bool" where
  "db_ok t a h es ps fs ov \<longleftrightarrow> store t a fs \<and> (\<forall>k. pheld a k = LFree) \<and> 5 \<le> pcap a \<and>
     (treeWal t \<longrightarrow> plogopen a) \<and> root_is (pview a) (rootPageID t) \<and>
     tree_at (pview a) h (rootPageID t) [] None es ps \<and> distinct ps \<and> 0 \<notin> set ps \<and> set ps \<inter> set fs = {} \<and>
     (\<forall>kv \<in> set es. cell_value (pview a) kv (fst (ov kv)) (snd (ov kv)) \<and>
        set (fst (ov kv)) \<inter> (set ps \<union> set fs) = {}) \<and>
     (\<forall>kv \<in> set es. \<forall>kv' \<in> set es. kv \<noteq> kv' \<longrightarrow> set (fst (ov kv)) \<inter> set (fst (ov kv')) = {})"

lemma db_okD:
  assumes "db_ok t a h es ps fs ov"
  shows "store t a fs" "\<And>k. pheld a k = LFree" "pages_free a 5"
    "tree_at (pview a) h (rootPageID t) [] None es ps" "distinct ps" "set ps \<inter> set fs = {}"
    "\<And>kv. kv \<in> set es \<Longrightarrow> cell_value (pview a) kv (fst (ov kv)) (snd (ov kv))"
    "\<And>kv. kv \<in> set es \<Longrightarrow> set (fst (ov kv)) \<inter> (set ps \<union> set fs) = {}" "0 \<notin> set ps"
    "treeWal t \<longrightarrow> plogopen a" "ptouched a = {}"
    "\<And>kv kv'. kv \<in> set es \<Longrightarrow> kv' \<in> set es \<Longrightarrow> kv \<noteq> kv' \<Longrightarrow> set (fst (ov kv)) \<inter> set (fst (ov kv')) = {}"
    "root_is (pview a) (rootPageID t)"
proof -
  show "store t a fs" "\<And>k. pheld a k = LFree"
    "tree_at (pview a) h (rootPageID t) [] None es ps" "distinct ps" "set ps \<inter> set fs = {}" "0 \<notin> set ps"
    "\<And>kv. kv \<in> set es \<Longrightarrow> cell_value (pview a) kv (fst (ov kv)) (snd (ov kv))"
    "\<And>kv. kv \<in> set es \<Longrightarrow> set (fst (ov kv)) \<inter> (set ps \<union> set fs) = {}"
    "treeWal t \<longrightarrow> plogopen a"
    "\<And>kv kv'. kv \<in> set es \<Longrightarrow> kv' \<in> set es \<Longrightarrow> kv \<noteq> kv' \<Longrightarrow> set (fst (ov kv)) \<inter> set (fst (ov kv')) = {}"
    "root_is (pview a) (rootPageID t)"
    using assms by (simp_all add: db_ok_def)
  have "implements t a" using assms by (simp add: db_ok_def store_def)
  from pool.touched_held [OF this] show "ptouched a = {}" using assms by (auto simp: db_ok_def)
  have "busy a = {}" using assms by (simp add: db_ok_def busy_def)
  then show "pages_free a 5" using assms by (simp add: pages_free_def db_ok_def)
qed

lemma findLeafPage_ok:
  assumes "db_ok t a h es ps fs ov"
  obtains leafID leaf path t' kvs lo hi where
    "findLeafPage key fw t = Some (Inr (leafID, leaf, path), t')"
    "implements t' (a\<lparr>pheld := (pheld a)(leafID := leaf_latch fw)\<rparr>)"
    "leaf_page leaf kvs" "pview a leafID = Some (norm_page leaf)" "length leaf = PageSize"
    "leafID \<in> set ps" "leaf_for (pview a) key es leafID kvs lo hi" "GetPageID leaf = leafID"
    "descent (pview a) h (rootPageID t) key path leafID"
proof -
  note d = db_okD [OF assms]
  have pf: "pages_free a 1" using d(3) by (rule pages_free_less) simp
  have op: "fw \<longrightarrow> plog a \<longrightarrow> plogopen a" using storeD(5) [OF d(1)] by blast
  obtain leafID leaf path t' kvs lo hi where f: "findLoop key fw (rootPageID t) [] t = Some (Inr (leafID, leaf, path), t')"
    "implements t' (a\<lparr>pheld := (pheld a)(leafID := leaf_latch fw)\<rparr>)"
    "leaf_page leaf kvs" "pview a leafID = Some (norm_page leaf)" "length leaf = PageSize"
    "leafID \<in> set ps" "leaf_for (pview a) key es leafID kvs lo hi" "descent (pview a) h (rootPageID t) key path leafID"
    using findLoop_ok [OF storeD(1) [OF d(1)] d(4) _ _ pf op, of key "[]"] d(2) by (auto simp: in_range_def)
  have "GetPageID leaf = leafID" using storeD(3) [OF d(1) f(4)] norm_page_get(1) [OF f(5)] by simp
  then show ?thesis using that [OF _ f(2-7) _ f(8)] f(1) by (simp add: findLeafPage_def)
qed

text \<open>Releasing the leaf of a read.\<close>

lemma release_leaf:
  assumes "implements t (a\<lparr>pheld := (pheld a)(i := LRead 1)\<rparr>)" "pheld a i = LFree"
  obtains t' where "UnpinPage i False False t = Some (Inr (), t')" "implements t' a"
  using pool.unpin_read [OF assms(1), of i False] assms(2) by (auto simp: fun_upd_idem)

text \<open>Reading the value of a cell while its leaf is latched.\<close>

lemma read_value:
  assumes "db_ok t0 a h es ps fs ov" "implements t (a\<lparr>pheld := (pheld a)(i := LRead 1)\<rparr>)" "i \<in> set ps" "kv \<in> set es"
  obtains t' where
    "(if IsOverflow kv then readOverflowChain (Value kv) t else Some (Inr (Value kv), t)) = Some (Inr (snd (ov kv)), t')"
    "implements t' (a\<lparr>pheld := (pheld a)(i := LRead 1)\<rparr>)"
proof (cases "IsOverflow kv")
  case False
  then show ?thesis using that [of t] assms(2) db_okD(7) [OF assms(1,4)] by (simp add: cell_value_def)
next
  case True
  note d = db_okD [OF assms(1)]
  let ?js = "fst (ov kv)" and ?a = "a\<lparr>pheld := (pheld a)(i := LRead 1)\<rparr>"
  have cv: "Value kv = PutUint32 (hd ?js) @ PutUint32 (of_nat (length (snd (ov kv))))"
    "spells (pview a) (hd ?js) ?js (snd (ov kv))" "length (snd (ov kv)) < 2 ^ 32"
    using d(7) [OF assms(4)] True by (auto simp: cell_value_def)
  have pf: "pages_free ?a 1"
    by (rule pages_free_hold) (use d(3) in \<open>auto elim: pages_free_less\<close>)
  have "\<forall>j \<in> set ?js. pheld ?a j = LFree" using d(2) d(8) [OF assms(4)] assms(3) by auto
  then obtain t' where "readOverflowChain (Value kv) t = Some (Inr (snd (ov kv)), t')" "implements t' ?a"
    using readOverflowChain_ok [OF assms(2) pf _ _ cv(3), of "hd ?js" ?js] cv(1,2) by auto
  then show ?thesis using that True by simp
qed

lemma find_filter: "(\<And>x. P x \<Longrightarrow> Q x) \<Longrightarrow> find P (filter Q xs) = find P xs"
  by (induction xs) auto

section \<open>Find and FindLatest on a consistent database\<close>

definition find_result :: "(KVCell \<Rightarrow> u32 list \<times> bytes) \<Rightarrow> KVCell option \<Rightarrow> goerr + bytes" where
  "find_result ov m =
     (case m of None \<Rightarrow> Inl ErrKeyNotFound
      | Some kv \<Rightarrow> if IsDeleted kv then Inl ErrKeyNotFound else Inr (snd (ov kv)))"

definition latest_result :: "(KVCell \<Rightarrow> u32 list \<times> bytes) \<Rightarrow> KVCell option \<Rightarrow> goerr + bytes" where
  "latest_result ov m =
     (case m of None \<Rightarrow> Inl ErrKeyNotFound
      | Some kv \<Rightarrow> if Flag kv = KEY_DELETED_FLAG then Inl ErrKeyDeleted else Inr (snd (ov kv)))"

lemma Find_ok:
  assumes "db_ok t a h es ps fs ov"
  shows "\<exists>t'. Find key t = Some (find_result ov (find (\<lambda>kv. Key kv = key) es), t') \<and> implements t' a"
proof -
  obtain leafID leaf path t1 kvs lo hi where f: "findLeafPage key False t = Some (Inr (leafID, leaf, path), t1)"
    "implements t1 (a\<lparr>pheld := (pheld a)(leafID := leaf_latch False)\<rparr>)"
    "leaf_page leaf kvs" "leafID \<in> set ps" "leaf_for (pview a) key es leafID kvs lo hi" "GetPageID leaf = leafID"
    by (rule findLeafPage_ok [OF assms])
  note d = db_okD [OF assms]
  let ?a1 = "a\<lparr>pheld := (pheld a)(leafID := LRead 1)\<rparr>"
  have i1: "implements t1 ?a1" using f(2) by simp
  have fe: "find (\<lambda>kv. Key kv = key) kvs = find (\<lambda>kv. Key kv = key) es"
  proof -
    have k: "kvs = filter (\<lambda>e. in_range lo hi (Key e)) es" "in_range lo hi key"
      using f(5) unfolding leaf_for_def by blast+
    show ?thesis unfolding k(1) by (rule find_filter) (use k(2) in simp)
  qed
  let ?m = "find (\<lambda>kv. Key kv = key) es"
  obtain t2 where t2: "(case ?m of None \<Rightarrow> Some (Inl ErrKeyNotFound, t1)
        | Some kv \<Rightarrow>
            if IsDeleted kv then Some (Inl ErrKeyNotFound, t1)
            else if IsOverflow kv then readOverflowChain (Value kv) t1
            else Some (Inr (Value kv), t1)) = Some (find_result ov ?m, t2)" "implements t2 ?a1"
  proof (cases ?m)
    case None
    then show ?thesis using that [of t1] i1 by (simp add: find_result_def)
  next
    case (Some kv)
    then have kv: "kv \<in> set es" by (auto simp: find_Some_iff)
    obtain t2 where "(if IsOverflow kv then readOverflowChain (Value kv) t1 else Some (Inr (Value kv), t1)) = Some (Inr (snd (ov kv)), t2)"
      "implements t2 ?a1"
      by (rule read_value [OF assms i1 f(4) kv])
    then show ?thesis using that [of t1] that [of t2] i1 Some
      by (cases "IsDeleted kv") (simp_all add: find_result_def)
  qed
  obtain t3 where t3: "UnpinPage leafID False False t2 = Some (Inr (), t3)" "implements t3 a"
    by (rule release_leaf [OF t2(2) d(2)])
  have "Find key t = Some (find_result ov ?m, t3)"
    using f(1,6) matchLoop_leaf [OF f(3)] fe t2(1) t3(1) by (simp add: Find_def deferUnpin_def)
  then show ?thesis using t3(2) by blast
qed

lemma FindLatest_at:
  assumes "db_ok t a h es ps fs ov"
  obtains t' lo hi kvs l path p where "in_range lo hi ukey" "implements t' a"
    "FindLatest ukey tm t = Some (latest_result ov (scan_max (\<lambda>kv. isVersionVisible (Key kv) ukey tm) Key kvs None), t')"
    "kvs = filter (\<lambda>e. in_range lo hi (Key e)) es" "descent (pview a) h (rootPageID t) ukey path l" "l \<in> set ps"
    "pview a l = Some p" "leaf_page p kvs"
proof -
  obtain leafID leaf path t1 kvs lo hi where f: "findLeafPage ukey False t = Some (Inr (leafID, leaf, path), t1)"
    "implements t1 (a\<lparr>pheld := (pheld a)(leafID := leaf_latch False)\<rparr>)"
    "leaf_page leaf kvs" "pview a leafID = Some (norm_page leaf)" "length leaf = PageSize" "leafID \<in> set ps" "leaf_for (pview a) ukey es leafID kvs lo hi" "GetPageID leaf = leafID"
    "descent (pview a) h (rootPageID t) ukey path leafID"
    by (rule findLeafPage_ok [OF assms])
  note d = db_okD [OF assms]
  let ?a1 = "a\<lparr>pheld := (pheld a)(leafID := LRead 1)\<rparr>"
  have i1: "implements t1 ?a1" using f(2) by simp
  have kvs: "kvs = filter (\<lambda>e. in_range lo hi (Key e)) es" "in_range lo hi ukey"
    using f(7) unfolding leaf_for_def by blast+
  let ?m = "scan_max (\<lambda>kv. isVersionVisible (Key kv) ukey tm) Key kvs None"
  obtain t2 where t2: "(case ?m of None \<Rightarrow> Some (Inl ErrKeyNotFound, t1)
        | Some kv \<Rightarrow>
            if Flag kv = KEY_DELETED_FLAG then Some (Inl ErrKeyDeleted, t1)
            else if IsOverflow kv then readOverflowChain (Value kv) t1
            else Some (Inr (Value kv), t1)) = Some (latest_result ov ?m, t2)" "implements t2 ?a1"
  proof (cases ?m)
    case None
    then show ?thesis using that [of t1] i1 by (simp add: latest_result_def)
  next
    case (Some kv)
    then have kv: "kv \<in> set es" using scan_max_greatest [OF Some] kvs(1) by auto
    obtain t2 where "(if IsOverflow kv then readOverflowChain (Value kv) t1 else Some (Inr (Value kv), t1)) = Some (Inr (snd (ov kv)), t2)"
      "implements t2 ?a1"
      by (rule read_value [OF assms i1 f(6) kv])
    then show ?thesis using that [of t1] that [of t2] i1 Some
      by (cases "Flag kv = KEY_DELETED_FLAG") (simp_all add: latest_result_def)
  qed
  obtain t3 where t3: "UnpinPage leafID False False t2 = Some (Inr (), t3)" "implements t3 a"
    by (rule release_leaf [OF t2(2) d(2)])
  have "FindLatest ukey tm t = Some (latest_result ov ?m, t3)"
    using f(1,8) latestLoop_leaf [OF f(3)] t2(1) t3(1) by (simp add: FindLatest_def deferUnpin_def)
  moreover have "leaf_page (norm_page leaf) kvs" using f(3) leaf_page_norm [OF f(5)] by simp
  ultimately show ?thesis using that [OF kvs(2) t3(2) _ kvs(1) f(9,6,4)] by blast
qed

lemma FindLatest_ok:
  assumes "db_ok t a h es ps fs ov"
  shows "\<exists>t' lo hi. in_range lo hi ukey \<and> implements t' a \<and> FindLatest ukey tm t =
    Some (latest_result ov (scan_max (\<lambda>kv. isVersionVisible (Key kv) ukey tm) Key
      (filter (\<lambda>e. in_range lo hi (Key e)) es) None), t') \<and>
    (h = 0 \<longrightarrow> filter (\<lambda>e. in_range lo hi (Key e)) es = es)"
proof -
  obtain t' lo hi kvs l path p where f: "in_range lo hi ukey" "implements t' a"
    "FindLatest ukey tm t = Some (latest_result ov (scan_max (\<lambda>kv. isVersionVisible (Key kv) ukey tm) Key kvs None), t')"
    "kvs = filter (\<lambda>e. in_range lo hi (Key e)) es" "l \<in> set ps" "pview a l = Some p" "leaf_page p kvs"
    by (rule FindLatest_at [OF assms])
  have "kvs = es" if "h = 0" using db_okD(4) [OF assms] that f(5-7) leaf_page_unique by auto
  then show ?thesis using f by metis
qed

section \<open>A database with one leaf\<close>

definition one_leaf :: "page \<Rightarrow> BTree" where
  "one_leaf p = BufferManager.extend
     (NewBufferManager (Some (SetRootPageID (SetPageID (NewPage PageTypeMeta) 0) 1 @ p)) 100 (NewWAL None) True (\<lambda>_ xs. xs))
     (BTree.fields True 1 None)"

lemma extend_obs [simp]:
  "page_view (BufferManager.extend (bm :: BufferManager) m) = page_view bm" "held (BufferManager.extend bm m) = held bm"
  "touched (BufferManager.extend bm m) = touched bm" "wf_bm (BufferManager.extend bm m) = wf_bm bm"
  "frame_at (BufferManager.extend bm m) = frame_at bm"
  "maxSize (BufferManager.extend bm m) = maxSize bm" "wal (BufferManager.extend bm m) = wal bm"
  "bmWal (BufferManager.extend bm m) = bmWal bm" "pager (BufferManager.extend bm m) = pager bm"
  "BufferManager.more (BufferManager.extend bm m) = m"
proof -
  have f: "frame_at (BufferManager.extend bm m) = frame_at bm"
    by (simp add: fun_eq_iff frame_at_def BufferManager.defs)
  then show "frame_at (BufferManager.extend bm m) = frame_at bm" .
  show "page_view (BufferManager.extend bm m) = page_view bm" "held (BufferManager.extend bm m) = held bm"
    "touched (BufferManager.extend bm m) = touched bm" "wf_bm (BufferManager.extend bm m) = wf_bm bm"
    by (simp_all add: fun_eq_iff page_view_def held_def touched_def wf_bm_def f, simp_all add: BufferManager.defs split: option.split)
qed (simp_all add: BufferManager.defs)

lemma one_leaf_ok:
  assumes "leaf_page p kvs" "GetPageID p = 1" "norm_page p = p" "sorted_wrt (<) (map Key kvs)"
    and "\<forall>kv \<in> set kvs. \<not> IsOverflow kv"
  shows "db_ok (one_leaf p) (abs_pool (one_leaf p)) 0 kvs [1] [] (\<lambda>kv. ([], Value kv))"
proof -
  let ?m = "SetRootPageID (SetPageID (NewPage PageTypeMeta) 0) 1" and ?t = "one_leaf p"
  have mf: "GetPageID ?m = 0" "GetFirstFreePageID ?m = 0" "GetRootPageID ?m = 1" "norm_page ?m = ?m"
  proof -
    have "GetPageID (SetRootPageID q x) = GetPageID q" "GetFirstFreePageID (SetRootPageID q x) = GetFirstFreePageID q"
      if "length q = PageSize" for q x
      using that by (simp_all add: page_getters page_setters sub_blit_other)
    then show "GetPageID ?m = 0" "GetFirstFreePageID ?m = 0" by (simp_all add: meta_fields_new page_set_same)
    show "GetRootPageID ?m = 1" by (simp add: page_set_same)
    show "norm_page ?m = ?m" by (simp add: norm_page_set norm_NewPage)
  qed
  let ?f = "OpenFile (Some (?m @ p))"
  have len: "length p = PageSize" using assms(1) by (simp add: leaf_page_def wf_slotted_def)
  have pc: "page_count ?f = 2" using len by (simp add: page_count_def OpenFile_def)
  have d: "disk_page ?f 0 = Some ?m" "disk_page ?f 1 = Some p"
    using len by (simp_all add: disk_page_single disk_page_second)
  have dn: "disk_page ?f i = None" if "i \<noteq> 0" "i \<noteq> 1" for i
  proof -
    have "unat i \<noteq> 0" "unat i \<noteq> 1"
      using that by (metis unat_eq_0, metis that(2) unsigned_1 word_unat_eq_iff)
    then show ?thesis using disk_page_iff_count [of ?f i] pc by auto
  qed
  have v: "page_view ?t i = (if i = 0 then Some ?m else if i = 1 then Some p else None)" for i
    using d dn [of i] assms(3) mf(4) by (auto simp: one_leaf_def NewBufferManager_obs)
  have wf: "wf_bm ?t" by (simp add: one_leaf_def wf_NewBufferManager)
  have h: "held ?t i = LFree" for i by (simp add: one_leaf_def NewBufferManager_obs)
  have o: "fopen (wfile (wal ?t))" "length (fbytes (pager ?t)) = 8192" "maxSize ?t = 100" "rootPageID ?t = 1"
    using len by (simp_all add: one_leaf_def)
      (simp_all add: NewBufferManager_def NewWAL_def OpenFile_def AppendFile_def Let_def NewPager_def BufferManager.defs BTree.defs)
  have st: "store ?t (abs_pool ?t) []"
    using implements_abs [OF wf] o h assms(2) mf
    by (auto simp: store_def store_ok_def v)
  show ?thesis
    using st h o assms mf by (auto simp: db_ok_def v cell_value_def in_range_def root_is_def)
qed

definition demo_cell :: KVCell where
  "demo_cell = NewKVCell 0 (BuildMVCCKey [107] 5) [118]"

definition demo_leaf :: page where
  "demo_leaf = page_with_cell (Page_Init (SetPageID (replicate PageSize 0) 1) PageTypeLeaf) (KVCell_Serialize demo_cell)"

lemma demo_leaf_page: "leaf_page demo_leaf [demo_cell]" "GetPageID demo_leaf = 1" "norm_page demo_leaf = demo_leaf"
proof -
  let ?p = "Page_Init (SetPageID (replicate PageSize 0) 1) PageTypeLeaf" and ?c = "KVCell_Serialize demo_cell"
  have wf: "wf_slotted ?p" "page_cells ?p = []" by (simp_all add: wf_Page_Init)
  have c: "length ?c = 16" by (simp add: demo_cell_def NewKVCell_def BuildMVCCKey_layout KVCell_Size_def)
  have hd: "page_header ?p = (PageTypeLeaf, 1, 0)"
    by (simp add: page_header_def Page_Init_fields page_set_same)
  have sp: "space_used (page_cells ?p @ [?c]) \<le> PageSize" using c wf(2) by simp
  note w = page_with_cell_wf [OF wf(1) sp] page_with_cell_fields(3) [OF wf(1) sp]
  have "kv_cell_fits demo_cell" by (simp add: demo_cell_def NewKVCell_def kv_cell_fits_def BuildMVCCKey_layout)
  then show "leaf_page demo_leaf [demo_cell]" using w wf(2) hd by (simp add: leaf_page_def demo_leaf_def page_header_def)
  show "GetPageID demo_leaf = 1" using w(3) hd by (simp add: demo_leaf_def page_header_def)
  show "norm_page demo_leaf = demo_leaf" using w(3) hd by (intro norm_page_id) (simp_all add: demo_leaf_def page_header_def)
qed

lemma demo_ok: "db_ok (one_leaf demo_leaf) (abs_pool (one_leaf demo_leaf)) 0 [demo_cell] [1] [] (\<lambda>kv. ([], Value kv))"
  by (rule one_leaf_ok [OF demo_leaf_page]) (auto simp: demo_cell_def NewKVCell_def IsOverflow_def)

section \<open>Properties of the search\<close>

text \<open>C19: Find refines lookup in the sorted list of cells of the whole tree: on a consistent database
  of any height it terminates, returns the value of the cell with exactly that key (read through
  its overflow chain if it has one), "key not found" if there is none or it is a tombstone, releases
  every page, and changes nothing.\<close>

theorem Find_refines:
  assumes "db_ok t a h es ps fs ov"
  shows "\<exists>t'. Find key t = Some (find_result ov (find (\<lambda>kv. Key kv = key) es), t') \<and> implements t' a"
  by (rule Find_ok [OF assms])

theorem Find_refines_witness:
  "\<exists>t'. Find (BuildMVCCKey [107] 5) (one_leaf demo_leaf) = Some (Inr [118], t')"
  using Find_refines [OF demo_ok, of "BuildMVCCKey [107] 5"]
  by (auto simp: find_result_def demo_cell_def NewKVCell_def IsDeleted_def)

text \<open>C20: A versioned read returns the greatest visible version in one leaf, the leaf that the descent for the
  reader's version key ends in. On a consistent database of any height FindLatest terminates; the cells kvs
  of that leaf are all cells of the database in an interval of keys around the reader's (and all cells at all
  in a tree of one leaf); the result is the value of the greatest version among kvs that is visible to the
  reader, "deleted" if it is a tombstone and "not found" if none is visible; every page is released and
  nothing changes.\<close>

theorem FindLatest_refines:
  assumes "db_ok t a h es ps fs ov"
  shows "\<exists>t' path l p kvs. descent (pview a) h (rootPageID t) ukey path l \<and> pview a l = Some p \<and> leaf_page p kvs \<and>
    (\<exists>lo hi. in_range lo hi ukey \<and> kvs = filter (\<lambda>e. in_range lo hi (Key e)) es) \<and> (h = 0 \<longrightarrow> kvs = es) \<and> implements t' a \<and>
    FindLatest ukey tm t = Some (latest_result ov (scan_max (\<lambda>kv. isVersionVisible (Key kv) ukey tm) Key kvs None), t')"
proof -
  obtain t' lo hi kvs l path p where f: "in_range lo hi ukey" "implements t' a"
    "FindLatest ukey tm t = Some (latest_result ov (scan_max (\<lambda>kv. isVersionVisible (Key kv) ukey tm) Key kvs None), t')"
    "kvs = filter (\<lambda>e. in_range lo hi (Key e)) es" "descent (pview a) h (rootPageID t) ukey path l" "l \<in> set ps"
    "pview a l = Some p" "leaf_page p kvs"
    by (rule FindLatest_at [OF assms])
  have "kvs = es" if "h = 0" using db_okD(4) [OF assms] that f(6-8) leaf_page_unique by auto
  then show ?thesis using f by blast
qed

theorem FindLatest_refines_witness:
  "\<exists>t'. FindLatest (BuildMVCCKey [107] 5) None (one_leaf demo_leaf) = Some (Inr [118], t')"
proof -
  have "\<exists>t'. FindLatest (BuildMVCCKey [107] 5) None (one_leaf demo_leaf) =
      Some (latest_result (\<lambda>kv. ([], Value kv)) (scan_max (\<lambda>kv. isVersionVisible (Key kv) (BuildMVCCKey [107] 5) None) Key [demo_cell] None), t')"
    using FindLatest_refines [OF demo_ok, of "BuildMVCCKey [107] 5" None] by auto
  then show ?thesis by (auto simp: latest_result_def demo_cell_def NewKVCell_def flag_values isVersionVisible_def)
qed

end
