(* ===== verification/Mvcc_Read.thy ===== *)
theory Mvcc_Read
  imports Tree_Search
begin

text \<open>
  Snapshot reads. The abstract view of a database is the set of its versions: the snapshot of a
  reader is the version of its key with the greatest transaction id among its own and the older
  committed ones. \<^verbatim>\<open>FindLatest\<close> compares key bytes within one leaf; the theorems relate it to that snapshot.
\<close>

section \<open>Versions\<close>

definition user_key :: "KVCell \<Rightarrow> bytes" where
  "user_key kv = fst (ExtractMVCCKey (Key kv))"

definition version :: "KVCell \<Rightarrow> u64" where
  "version kv = snd (ExtractMVCCKey (Key kv))"

definition versioned :: "KVCell list \<Rightarrow> bool" where
  "versioned es \<longleftrightarrow> (\<forall>kv \<in> set es. Key kv = BuildMVCCKey (user_key kv) (version kv))"

definition visible_to :: "bytes \<Rightarrow> u64 \<Rightarrow> TransactionManager \<Rightarrow> KVCell \<Rightarrow> bool" where
  "visible_to u r tm kv \<longleftrightarrow> user_key kv = u \<and>
     (version kv = r \<or> version kv < r \<and> GetStatus tm (version kv) = TXN_COMMITED)"

definition snapshot :: "bytes \<Rightarrow> u64 \<Rightarrow> TransactionManager \<Rightarrow> KVCell list \<Rightarrow> KVCell option" where
  "snapshot u r tm es = scan_max (visible_to u r tm) version es None"

lemma isVersionVisible_iff:
  "isVersionVisible (Key kv) (BuildMVCCKey u r) (Some tm) \<longleftrightarrow> visible_to u r tm kv"
  by (auto simp: isVersionVisible_def visible_to_def user_key_def version_def Let_def split: prod.splits)

lemma BuildMVCCKey_less_same [simp]: "BuildMVCCKey u a < BuildMVCCKey u b \<longleftrightarrow> a < b"
  by (simp add: BuildMVCCKey_layout BigPutUint64_less)

lemma BuildMVCCKey_le_same [simp]: "BuildMVCCKey u a \<le> BuildMVCCKey u b \<longleftrightarrow> a \<le> b"
  by (metis BuildMVCCKey_less_same not_le)

lemma visible_key: "versioned es \<Longrightarrow> kv \<in> set es \<Longrightarrow> visible_to u r tm kv \<Longrightarrow> Key kv = BuildMVCCKey u (version kv)"
  by (auto simp: versioned_def visible_to_def)

lemma visible_le: "versioned es \<Longrightarrow> kv \<in> set es \<Longrightarrow> visible_to u r tm kv \<Longrightarrow> Key kv \<le> BuildMVCCKey u r"
  by (subst visible_key) (auto simp: visible_to_def)

text \<open>Comparing key bytes or version numbers finds the same cell.\<close>

lemma scan_max_cong:
  assumes "\<And>x y. x \<in> S \<Longrightarrow> y \<in> S \<Longrightarrow> P x \<Longrightarrow> P y \<Longrightarrow> f x < f y \<longleftrightarrow> g x < g y"
    and "set xs \<subseteq> S" "\<And>y. b = Some y \<Longrightarrow> y \<in> S \<and> P y"
  shows "scan_max P f xs b = scan_max P g xs b"
  using assms(2,3)
proof (induction xs arbitrary: b)
  case Nil
  then show ?case by simp
next
  case (Cons x xs)
  have x: "x \<in> S" "set xs \<subseteq> S" using Cons.prems(1) by auto
  have "(case b of None \<Rightarrow> True | Some y \<Rightarrow> f y < f x) \<longleftrightarrow> (case b of None \<Rightarrow> True | Some y \<Rightarrow> g y < g x)" if "P x"
    using assms(1) [OF _ x(1) _ that] Cons.prems(2) by (cases b) auto
  then show ?case
    using Cons.IH [OF x(2), of "Some x"] Cons.IH [OF x(2), of b] Cons.prems(2) x(1) by auto
qed

lemma snapshot_by_key:
  assumes "versioned es"
  shows "scan_max (\<lambda>kv. isVersionVisible (Key kv) (BuildMVCCKey u r) (Some tm)) Key es None = snapshot u r tm es"
  unfolding snapshot_def isVersionVisible_iff
proof (rule scan_max_cong [of "set es"])
  fix x y assume xy: "x \<in> set es" "y \<in> set es" "visible_to u r tm x" "visible_to u r tm y"
  have "Key x = BuildMVCCKey u (version x)" "Key y = BuildMVCCKey u (version y)"
    using visible_key [OF assms] xy by blast+
  then show "Key x < Key y \<longleftrightarrow> version x < version y" by simp
qed auto

lemma versioned_filter: "versioned es \<Longrightarrow> versioned (filter P es)"
  by (simp add: versioned_def)

text \<open>Whatever a scan of the leaf's interval finds is also the greatest of the whole tree.\<close>

lemma snapshot_leaf:
  assumes "versioned es" "sorted_wrt (<) (map Key es)" "in_range lo hi (BuildMVCCKey u r)"
    and "snapshot u r tm (filter (\<lambda>e. in_range lo hi (Key e)) es) = Some kv"
  shows "snapshot u r tm es = Some kv"
proof -
  let ?P = "\<lambda>kv. isVersionVisible (Key kv) (BuildMVCCKey u r) (Some tm)"
  have "scan_max ?P Key (filter (\<lambda>e. in_range lo hi (Key e)) es) None = Some kv"
    using assms(4) snapshot_by_key [OF versioned_filter [OF assms(1)]] by simp
  note g = scan_max_greatest [OF this]
  have "scan_max ?P Key es None = Some kv"
  proof (rule scan_max_unique)
    show "inj_on Key (set es)" using assms(2) by (metis distinct_map strict_sorted_iff)
    show "Key y \<le> Key kv" if y: "y \<in> set es" "?P y" for y
    proof (cases "in_range lo hi (Key y)")
      case True
      then show ?thesis using g y by auto
    next
      case False
      have "Key y \<le> BuildMVCCKey u r" using visible_le [OF assms(1) y(1)] y(2) by (simp add: isVersionVisible_iff)
      then have "Key y < lo" using False assms(3) by (auto simp: in_range_def split: option.splits)
      moreover have "lo \<le> Key kv" using g by (simp add: in_range_def)
      ultimately show ?thesis by simp
    qed
  qed (use g in auto)
  then show ?thesis using snapshot_by_key [OF assms(1)] by simp
qed

lemma snapshot_cases:
  assumes "snapshot u r tm es = Some kv"
  shows "kv \<in> set es" "visible_to u r tm kv" "\<And>y. y \<in> set es \<Longrightarrow> visible_to u r tm y \<Longrightarrow> version y \<le> version kv"
  using scan_max_greatest [OF assms [unfolded snapshot_def]] by blast+

lemma snapshot_own:
  assumes "versioned es" "distinct (map Key es)" "kv \<in> set es" "Key kv = BuildMVCCKey u r"
  shows "snapshot u r tm es = Some kv"
proof -
  let ?P = "\<lambda>kv. isVersionVisible (Key kv) (BuildMVCCKey u r) (Some tm)"
  have "scan_max ?P Key es None = Some kv"
  proof (rule scan_max_unique)
    show "inj_on Key (set es)" using assms(2) by (simp add: distinct_map)
    show "?P kv" using assms(4) by (simp add: isVersionVisible_def)
    show "Key y \<le> Key kv" if "y \<in> set es" "?P y" for y
      using visible_le [OF assms(1) that(1)] that(2) assms(4) by (simp add: isVersionVisible_iff)
  qed (fact assms(3))
  then show ?thesis using snapshot_by_key [OF assms(1)] by simp
qed

lemma own_version_read:
  assumes "db_ok t a h es ps fs ov" "versioned es" "kv \<in> set es" "Key kv = BuildMVCCKey u r"
  shows "\<exists>t'. implements t' a \<and> FindLatest (BuildMVCCKey u r) (Some tm) t =
    Some (if Flag kv = KEY_DELETED_FLAG then Inl ErrKeyDeleted else Inr (snd (ov kv)), t')"
proof -
  obtain t' lo hi where f: "in_range lo hi (BuildMVCCKey u r)" "implements t' a"
    "FindLatest (BuildMVCCKey u r) (Some tm) t = Some (latest_result ov
       (scan_max (\<lambda>kv. isVersionVisible (Key kv) (BuildMVCCKey u r) (Some tm)) Key (filter (\<lambda>e. in_range lo hi (Key e)) es) None), t')"
    using FindLatest_ok [OF assms(1)] by blast
  let ?es = "filter (\<lambda>e. in_range lo hi (Key e)) es"
  have "distinct (map Key es)"
    using tree_sorted [OF db_okD(4) [OF assms(1)]] by (simp add: strict_sorted_iff)
  then have "snapshot u r tm ?es = Some kv"
    using assms(3,4) f(1) by (intro snapshot_own [OF versioned_filter [OF assms(2)]]) (simp_all add: distinct_map_filter)
  then show ?thesis
    using f(2,3) snapshot_by_key [OF versioned_filter [OF assms(2)]] by (auto simp: latest_result_def)
qed

section \<open>Properties of snapshot reads\<close>

text \<open>C3: Snapshot reads. On a consistent database whose keys are version keys, a read by
  transaction r of user key u either returns what the reader's snapshot holds (the version with the
  greatest transaction id among r's own and the older committed ones, "deleted" if that is a
  tombstone, "not found" if there is none), or, in a tree with more than one level only, "not found"
  because the search stops at the leaf that covers the reader's version key. It never returns an
  uncommitted, a future or a stale version.\<close>

theorem snapshot_read:
  assumes "db_ok t a h es ps fs ov" "versioned es"
  shows "\<exists>t'. implements t' a \<and>
    (FindLatest (BuildMVCCKey u r) (Some tm) t = Some (latest_result ov (snapshot u r tm es), t') \<or>
     0 < h \<and> FindLatest (BuildMVCCKey u r) (Some tm) t = Some (Inl ErrKeyNotFound, t'))"
proof -
  obtain t' lo hi where f: "in_range lo hi (BuildMVCCKey u r)" "implements t' a"
    "FindLatest (BuildMVCCKey u r) (Some tm) t = Some (latest_result ov
       (scan_max (\<lambda>kv. isVersionVisible (Key kv) (BuildMVCCKey u r) (Some tm)) Key (filter (\<lambda>e. in_range lo hi (Key e)) es) None), t')"
    "h = 0 \<longrightarrow> filter (\<lambda>e. in_range lo hi (Key e)) es = es"
    using FindLatest_ok [OF assms(1)] by blast
  let ?s = "snapshot u r tm (filter (\<lambda>e. in_range lo hi (Key e)) es)"
  have e: "FindLatest (BuildMVCCKey u r) (Some tm) t = Some (latest_result ov ?s, t')"
    using f(3) snapshot_by_key [OF versioned_filter [OF assms(2)]] by simp
  show ?thesis
  proof (cases "h = 0")
    case True
    then show ?thesis using e f(2,4) by auto
  next
    case False
    show ?thesis
    proof (cases ?s)
      case None
      then show ?thesis using e f(2) False by (auto simp: latest_result_def)
    next
      case (Some kv)
      then have "snapshot u r tm es = Some kv"
        using snapshot_leaf [OF assms(2) tree_sorted [OF db_okD(4) [OF assms(1)]] f(1)] by blast
      then show ?thesis using e f(2) Some by auto
    qed
  qed
qed

theorem snapshot_read_witness:
  "\<exists>t'. FindLatest (BuildMVCCKey [107] 9) (Some NewTransactionManager) (one_leaf demo_leaf) = Some (Inr [118], t')"
proof -
  have v: "versioned [demo_cell]"
    by (simp add: versioned_def demo_cell_def NewKVCell_def user_key_def version_def)
  have "snapshot [107] 9 NewTransactionManager [demo_cell] = Some demo_cell"
    by (simp add: snapshot_def visible_to_def demo_cell_def NewKVCell_def user_key_def version_def)
  then show ?thesis using snapshot_read [OF demo_ok v, of "[107]" 9 NewTransactionManager]
    by (auto simp: latest_result_def demo_cell_def NewKVCell_def flag_values)
qed

text \<open>C21: Read your own writes. If the tree holds the version of u that transaction r wrote, r reads
  exactly that version, in a tree of any height, whatever the status of r and of every other
  transaction: its value, or "deleted" if r deleted the key.\<close>

theorem read_your_writes:
  assumes "db_ok t a h es ps fs ov" "versioned es" "kv \<in> set es" "Key kv = BuildMVCCKey u r"
  shows "\<exists>t'. implements t' a \<and> FindLatest (BuildMVCCKey u r) (Some tm) t =
    Some (if Flag kv = KEY_DELETED_FLAG then Inl ErrKeyDeleted else Inr (snd (ov kv)), t')"
  by (rule own_version_read [OF assms])

theorem read_your_writes_witness:
  "\<exists>t'. FindLatest (BuildMVCCKey [107] 5) (Some (SetStatus NewTransactionManager 5 TXN_RUNNING)) (one_leaf demo_leaf) = Some (Inr [118], t')"
proof -
  have v: "versioned [demo_cell]"
    by (simp add: versioned_def demo_cell_def NewKVCell_def user_key_def version_def)
  show ?thesis
    using read_your_writes [OF demo_ok v, of demo_cell "[107]" 5 "SetStatus NewTransactionManager 5 TXN_RUNNING"]
    by (auto simp: demo_cell_def NewKVCell_def flag_values)
qed

end
