(* ===== verification/Tree_Update.thy ===== *)
theory Tree_Update
  imports Mvcc_Read
begin

text \<open>
  Updates that rewrite one leaf: \<^verbatim>\<open>Insert\<close> and \<^verbatim>\<open>Delete\<close> of \<^verbatim>\<open>btree.go\<close> when the leaf has room. A leaf is
  a hole in the tree: whatever sorted cells of its interval fill it, the whole is a search tree.
\<close>

section \<open>Replacing a leaf\<close>

definition leaf_hole ::
  "(u32 \<Rightarrow> page option) \<Rightarrow> nat \<Rightarrow> u32 \<Rightarrow> bytes \<Rightarrow> bytes option \<Rightarrow> u32 list \<Rightarrow> u32 \<Rightarrow> bytes \<Rightarrow> bytes option \<Rightarrow>
   KVCell list \<Rightarrow> KVCell list \<Rightarrow> bool" where
  "leaf_hole V h i lo hi ps l lo' hi' A B \<longleftrightarrow>
     (\<forall>V' p' kvs'. V' l = Some p' \<and> (\<forall>k \<in> set ps. k \<noteq> l \<longrightarrow> V' k = V k) \<and> leaf_page p' kvs' \<and>
        sorted_wrt (<) (map Key kvs') \<and> (\<forall>e \<in> set kvs'. in_range lo' hi' (Key e)) \<longrightarrow>
        tree_at V' h i lo hi (A @ kvs' @ B) ps)"

lemma leaf_holeD:
  assumes "leaf_hole V h i lo hi ps l lo' hi' A B" "V' l = Some p'" "\<And>k. k \<in> set ps \<Longrightarrow> k \<noteq> l \<Longrightarrow> V' k = V k"
    and "leaf_page p' kvs'" "sorted_wrt (<) (map Key kvs')" "\<And>e. e \<in> set kvs' \<Longrightarrow> in_range lo' hi' (Key e)"
  shows "tree_at V' h i lo hi (A @ kvs' @ B) ps"
  using assms unfolding leaf_hole_def by blast

definition leaf_in ::
  "(u32 \<Rightarrow> page option) \<Rightarrow> nat \<Rightarrow> u32 \<Rightarrow> bytes \<Rightarrow> bytes option \<Rightarrow> KVCell list \<Rightarrow> u32 list \<Rightarrow> bytes \<Rightarrow> u32 \<Rightarrow> bytes \<Rightarrow> bytes option \<Rightarrow>
   KVCell list \<Rightarrow> KVCell list \<Rightarrow> KVCell list \<Rightarrow> bool" where
  "leaf_in V h i lo hi es ps key l lo' hi' A kvs B \<longleftrightarrow> l \<in> set ps \<and> es = A @ kvs @ B \<and>
     (\<exists>p. V l = Some p \<and> leaf_page p kvs) \<and> in_range lo' hi' key \<and>
     (\<forall>e \<in> set kvs. in_range lo' hi' (Key e)) \<and> (\<forall>e \<in> set A. Key e < lo') \<and>
     (\<forall>e \<in> set B. case hi' of None \<Rightarrow> False | Some u \<Rightarrow> u \<le> Key e) \<and>
     (\<forall>k. in_range lo' hi' k \<longrightarrow> in_range lo hi k) \<and>
     leaf_hole V h i lo hi ps l lo' hi' A B"

lemma concat_split_nth:
  "j < length xss \<Longrightarrow> concat xss = concat (take j xss) @ xss ! j @ concat (drop (Suc j) xss)"
  by (metis concat.simps(2) concat_append id_take_nth_drop)

lemma concat_update:
  "j < length xss \<Longrightarrow> concat (xss[j := ys]) = concat (take j xss) @ ys @ concat (drop (Suc j) xss)"
  by (simp add: upd_conv_take_nth_drop)

lemma in_concat_take: "x \<in> set (concat (take j xss)) \<Longrightarrow> \<exists>m < j. m < length xss \<and> x \<in> set (xss ! m)"
proof -
  assume "x \<in> set (concat (take j xss))"
  then obtain k where "k < length (take j xss)" "x \<in> set (take j xss ! k)" by (rule concat_nthE)
  then show ?thesis by (intro exI [of _ k]) auto
qed

lemma in_concat_drop: "x \<in> set (concat (drop (Suc j) xss)) \<Longrightarrow> \<exists>m > j. m < length xss \<and> x \<in> set (xss ! m)"
proof -
  assume "x \<in> set (concat (drop (Suc j) xss))"
  then obtain k where "k < length (drop (Suc j) xss)" "x \<in> set (drop (Suc j) xss ! k)" by (rule concat_nthE)
  then show ?thesis by (intro exI [of _ "Suc j + k"]) auto
qed

lemma distinct_concat_apart:
  "distinct (concat xss) \<Longrightarrow> m < length xss \<Longrightarrow> j < length xss \<Longrightarrow> m \<noteq> j \<Longrightarrow> set (xss ! m) \<inter> set (xss ! j) = {}"
proof (induction xss arbitrary: m j)
  case Nil
  then show ?case by simp
next
  case (Cons xs xss)
  have d: "set xs \<inter> set (concat xss) = {}" "distinct (concat xss)" using Cons.prems(1) by auto
  have sub: "set (xss ! n) \<subseteq> set (concat xss)" if "n < length xss" for n using nth_mem [OF that] by auto
  show ?case
  proof (cases m)
    case 0
    then obtain n where "j = Suc n" using Cons.prems(4) by (cases j) auto
    then show ?thesis using d(1) sub [of n] Cons.prems(3) 0 by auto
  next
    case (Suc m')
    then show ?thesis using d sub [of m'] Cons.IH [OF d(2), of m'] Cons.prems by (cases j) auto
  qed
qed

lemma below_bound:
  assumes "in_range lo' hi' key" "\<And>k. in_range lo' hi' k \<Longrightarrow> k < b"
  shows "case hi' of None \<Rightarrow> False | Some u \<Rightarrow> u \<le> b"
proof (rule ccontr)
  assume n: "\<not> (case hi' of None \<Rightarrow> False | Some u \<Rightarrow> u \<le> b)"
  have "lo' \<le> b" using assms by (auto simp: in_range_def intro: less_imp_le le_less_trans)
  then have "in_range lo' hi' b" using n by (auto simp: in_range_def split: option.splits)
  then show False using assms(2) by blast
qed

lemma tree_hole:
  assumes "tree_at V h i lo hi es ps" "distinct ps" "in_range lo hi key" "descent V h i key path l"
  shows "\<exists>lo' hi' A kvs B. leaf_in V h i lo hi es ps key l lo' hi' A kvs B"
  using assms
proof (induction h arbitrary: i lo hi es ps path)
  case 0
  then have "leaf_hole V 0 i lo hi ps l lo hi [] []" by (auto simp: leaf_hole_def)
  then have "leaf_in V 0 i lo hi es ps key l lo hi [] es []" using 0 by (auto simp: leaf_in_def)
  then show ?case by blast
next
  case (Suc h)
  obtain p ks ess pss j where c: "V i = Some p" "node_page p ks" "j < length ks" "length ess = length ks"
    "length pss = length ks" "es = concat ess" "ps = i # concat pss"
    "nextChild p key = Some (ChildPageID (ks ! j))" "in_range (low_of lo ks j) (high_of hi ks j) key"
    "tree_at V h (ChildPageID (ks ! j)) (low_of lo ks j) (high_of hi ks j) (ess ! j) (pss ! j)"
    "\<forall>m < length ks. tree_at V h (ChildPageID (ks ! m)) (low_of lo ks m) (high_of hi ks m) (ess ! m) (pss ! m)"
    "sorted_wrt (<) (map kcKey ks)" "\<forall>m. 0 < m \<and> m < length ks \<longrightarrow> lo < kcKey (ks ! m) \<and> in_range lo hi (kcKey (ks ! m))"
    "kcKey (hd ks) = []"
    by (rule tree_child [OF Suc.prems(1,3)])
  obtain path' where d: "descent V h (ChildPageID (ks ! j)) key path' l"
    using Suc.prems(4) c(1,8) by auto
  have dj: "distinct (pss ! j)" using Suc.prems(2) c(3,5,7) by (auto simp: distinct_concat_iff in_set_conv_nth)
  let ?lo = "low_of lo ks j" and ?hi = "high_of hi ks j"
  obtain lo' hi' A kvs B where "leaf_in V h (ChildPageID (ks ! j)) ?lo ?hi (ess ! j) (pss ! j) key l lo' hi' A kvs B"
    using Suc.IH [OF c(10) dj c(9) d] by blast
  then have ih: "l \<in> set (pss ! j)" "ess ! j = A @ kvs @ B" "\<exists>p. V l = Some p \<and> leaf_page p kvs" "in_range lo' hi' key"
    "\<forall>e \<in> set kvs. in_range lo' hi' (Key e)" "\<forall>e \<in> set A. Key e < lo'"
    "\<forall>e \<in> set B. case hi' of None \<Rightarrow> False | Some u \<Rightarrow> u \<le> Key e" "\<forall>k. in_range lo' hi' k \<longrightarrow> in_range ?lo ?hi k"
    "leaf_hole V h (ChildPageID (ks ! j)) ?lo ?hi (pss ! j) l lo' hi' A B"
    by (simp_all add: leaf_in_def)
  let ?A = "concat (take j ess) @ A" and ?B = "B @ concat (drop (Suc j) ess)"
  have es: "concat (ess[j := A @ xs @ B]) = ?A @ xs @ ?B" for xs
    using c(3,4) by (simp add: concat_update)
  have lo: "in_range ?lo ?hi lo'" using ih(4,8) by (auto simp: in_range_def split: option.splits)
  have other: "in_range (low_of lo ks m) (high_of hi ks m) (Key e)" if "m < length ess" "e \<in> set (ess ! m)" for m e
    using tree_in_range c(4,11) that by metis
  have A: "\<forall>e \<in> set ?A. Key e < lo'"
  proof
    fix e assume "e \<in> set ?A"
    then consider "e \<in> set (concat (take j ess))" | "e \<in> set A" by auto
    then show "Key e < lo'"
    proof cases
      case 1
      obtain m where m: "m < j" "m < length ess" "e \<in> set (ess ! m)" using in_concat_take [OF 1] by blast
      show ?thesis by (rule range_apart [OF m(1) c(3,12) other [OF m(2,3)] lo])
    qed (use ih(6) in blast)
  qed
  have B: "\<forall>e \<in> set ?B. case hi' of None \<Rightarrow> False | Some u \<Rightarrow> u \<le> Key e"
  proof
    fix e assume "e \<in> set ?B"
    then consider "e \<in> set (concat (drop (Suc j) ess))" | "e \<in> set B" by auto
    then show "case hi' of None \<Rightarrow> False | Some u \<Rightarrow> u \<le> Key e"
    proof cases
      case 1
      obtain m where m: "j < m" "m < length ess" "e \<in> set (ess ! m)" using in_concat_drop [OF 1] by blast
      then have "k < Key e" if "in_range ?lo ?hi k" for k
        using range_apart [OF m(1) _ c(12) that other [OF m(2,3)]] c(4) by simp
      then show ?thesis by (intro below_bound [OF ih(4)]) (use ih(8) in blast)
    qed (use ih(7) in blast)
  qed
  have hole: "leaf_hole V (Suc h) i lo hi ps l lo' hi' ?A ?B"
    unfolding leaf_hole_def
  proof (intro allI impI, elim conjE)
    fix V' p' kvs'
    assume v: "V' l = Some p'" "\<forall>k \<in> set ps. k \<noteq> l \<longrightarrow> V' k = V k" "leaf_page p' kvs'"
      "sorted_wrt (<) (map Key kvs')" "\<forall>e \<in> set kvs'. in_range lo' hi' (Key e)"
    have pj: "set (pss ! m) \<subseteq> set ps" if "m < length ks" for m using that c(5,7) by auto
    have il: "i \<noteq> l" using Suc.prems(2) c(3,5,7) ih(1) by auto
    have apart: "l \<notin> set (pss ! m)" if "m < length ks" "m \<noteq> j" for m
      using distinct_concat_apart [of pss m j] Suc.prems(2) c(3,5,7) ih(1) that by auto
    have "tree_at V' h (ChildPageID (ks ! m)) (low_of lo ks m) (high_of hi ks m) (ess[j := A @ kvs' @ B] ! m) (pss ! m)"
      if m: "m < length ks" for m
    proof (cases "m = j")
      case True
      have "tree_at V' h (ChildPageID (ks ! j)) ?lo ?hi (A @ kvs' @ B) (pss ! j)"
        by (rule leaf_holeD [OF ih(9), where V' = V', OF v(1) _ v(3,4)]) (use v(2,5) pj [OF c(3)] in auto)
      then show ?thesis using True c(3,4) by simp
    next
      case False
      have "tree_at V' h (ChildPageID (ks ! m)) (low_of lo ks m) (high_of hi ks m) (ess ! m) (pss ! m)"
        by (rule tree_at_cong [where V = V]) (use v(2) pj [OF m] apart [OF m False] c(11) m in force)+
      then show ?thesis using False by simp
    qed
    moreover have "V' i = Some p" using v(2) il c(1,7) by simp
    moreover have "ks \<noteq> []" using c(3) by auto
    moreover have "length (ess[j := A @ kvs' @ B]) = length ks" using c(4) by simp
    ultimately show "tree_at V' (Suc h) i lo hi (?A @ kvs' @ ?B) ps"
      unfolding tree_at.simps es [symmetric] using c(2,5,7,12-14) tree_at_nonzero [OF Suc.prems(1)] by blast
  qed
  have "es = ?A @ kvs @ ?B" using es [of kvs] ih(2) c(6) by (metis list_update_id)
  moreover have "l \<in> set ps" using ih(1) c(3,5,7) by auto
  moreover have "\<forall>k. in_range lo' hi' k \<longrightarrow> in_range lo hi k" using ih(8) range_child [OF c(3,13)] by blast
  ultimately have "leaf_in V (Suc h) i lo hi es ps key l lo' hi' ?A kvs ?B"
    unfolding leaf_in_def using ih(3-5) A B hole by blast
  then show ?case by blast
qed

section \<open>Sorted lists of cells\<close>

definition put :: "KVCell \<Rightarrow> KVCell list \<Rightarrow> KVCell list" where
  "put kv es = filter (\<lambda>e. Key e < Key kv) es @ kv # filter (\<lambda>e. Key kv < Key e) es"

lemma set_put: "set (put kv es) = insert kv {e \<in> set es. Key e \<noteq> Key kv}"
  by (auto simp: put_def)

lemma put_between:
  assumes "\<And>e. e \<in> set A \<Longrightarrow> Key e < Key kv" "\<And>e. e \<in> set B \<Longrightarrow> Key kv < Key e"
  shows "put kv (A @ kvs @ B) = A @ put kv kvs @ B"
proof -
  have "filter (\<lambda>e. Key e < Key kv) A = A" "filter (\<lambda>e. Key kv < Key e) B = B"
    "filter (\<lambda>e. Key kv < Key e) A = []" "filter (\<lambda>e. Key e < Key kv) B = []"
    using assms by (auto simp: filter_id_conv filter_empty_conv dest: less_asym)
  then show ?thesis by (simp add: put_def)
qed

lemma sorted_filter_Key: "sorted_wrt (<) (map Key es) \<Longrightarrow> sorted_wrt (<) (map Key (filter P es))"
  by (simp add: sorted_wrt_map sorted_wrt_filter)

lemma sorted_put: "sorted_wrt (<) (map Key es) \<Longrightarrow> sorted_wrt (<) (map Key (put kv es))"
  using sorted_filter_Key [of es "\<lambda>e. Key e < Key kv"] sorted_filter_Key [of es "\<lambda>e. Key kv < Key e"]
  by (auto simp: put_def sorted_wrt_append)

lemma mset_put: "mset (put kv es) = add_mset kv (mset (filter (\<lambda>e. Key e \<noteq> Key kv) es))"
proof -
  have "mset (filter (\<lambda>e. Key e \<noteq> Key kv) es) =
      mset (filter (\<lambda>e. Key e < Key kv) es) + mset (filter (\<lambda>e. Key kv < Key e) es)"
    by (induction es) auto
  then show ?thesis by (simp add: put_def)
qed

lemma find_put:
  assumes "sorted_wrt (<) (map Key es)"
  shows "find (\<lambda>e. Key e = k) (put kv es) = (if k = Key kv then Some kv else find (\<lambda>e. Key e = k) es)"
proof -
  have f: "find P (xs @ ys) = (case find P xs of None \<Rightarrow> find P ys | Some x \<Rightarrow> Some x)" for P and xs ys :: "KVCell list"
    by (induction xs) auto
  have n: "find (\<lambda>e. Key e = k) (filter Q es) = (if Q' k then find (\<lambda>e. Key e = k) es else None)"
    if "\<And>e. Q e = Q' (Key e)" for Q Q'
    using that by (induction es) auto
  show ?thesis
    using n [of "\<lambda>e. Key e < Key kv" "\<lambda>k. k < Key kv"] n [of "\<lambda>e. Key kv < Key e" "\<lambda>k. Key kv < k"]
    by (auto simp: put_def f split: option.split)
qed

lemma kv_key_cell: "kv_cell_fits kv \<Longrightarrow> kv_key (KVCell_Serialize kv) = Some (Key kv)"
  by (simp add: kv_key_def kv_cell.dec_enc)

lemma sortCells_kv:
  assumes "list_all kv_cell_fits xs" "mset ys = mset xs" "sorted_wrt (<) (map Key ys)"
  shows "sortCells kv_key kv_less (map KVCell_Serialize xs) = Some (map KVCell_Serialize ys)"
proof (cases "length xs \<le> 1")
  case True
  then have "ys = xs" using assms(2)
    by (cases xs; cases ys) (auto dest: mset_eq_length)
  then show ?thesis using True by (simp add: sortCells_def)
next
  case False
  let ?f = "\<lambda>x. (Key x, KVCell_Serialize x)"
  have "those (map kv_key (map KVCell_Serialize xs)) = those (map (\<lambda>x. Some (Key x)) xs)"
    using assms(1) by (intro arg_cong [of _ _ those]) (auto simp: list_all_iff kv_key_cell)
  then have k: "those (map kv_key (map KVCell_Serialize xs)) = Some (map Key xs)"
    by (simp add: those_map_Some)
  have z: "zip (map Key xs) (map KVCell_Serialize xs) = map ?f xs" by (simp add: zip_map_map zip_same_conv_map)
  have d: "sorted (map Key ys)" "distinct (map Key ys)" using assms(3) by (simp_all add: strict_sorted_iff)
  have "mset (map Key ys) = mset (map Key xs)" using assms(2) by simp
  then have dx: "distinct (map Key xs)" using d(2) by (metis distinct_count_atmost_1 mset_eq_setD)
  have "sortSlice (\<lambda>a b. fst a < fst b) (map ?f xs) = map ?f ys"
    by (rule sortSlice_unique) (use assms(2) d dx in \<open>simp_all add: comp_def\<close>)
  then show ?thesis using False k z by (simp add: sortCells_def kv_less_def comp_def)
qed

section \<open>The loop over the cells of the leaf\<close>

lemma upsertLoop_append:
  "upsertLoop key cb tm p (is @ js) cells ke tot t =
     andThen (upsertLoop key cb tm p is cells ke tot t) (\<lambda>(cells, ke, tot) t. upsertLoop key cb tm p js cells ke tot t)"
proof (induction "is" arbitrary: cells ke tot t)
  case Nil
  then show ?case by simp
next
  case (Cons i "is")
  show ?case
    by (auto simp: Cons.IH Let_def split: prod.split option.split bind_split)
qed

lemma upsertLoop_plain:
  assumes "leaf_page p kvs" "set is \<subseteq> {0..<length kvs}" "ExtractMVCCKey key = (u, w)"
    and "\<And>i. i \<in> set is \<Longrightarrow> writeConflict u w tm (Key (kvs ! i)) = None \<and> Key (kvs ! i) \<noteq> key"
  shows "upsertLoop key cb tm p is cells ke tot t = Some (Inr (cells @ map (\<lambda>i. KVCell_Serialize (kvs ! i)) is, ke,
    tot + sum_list (map (\<lambda>i. SlotSize + length (KVCell_Serialize (kvs ! i))) is)), t)"
  using assms(2,4)
proof (induction "is" arbitrary: cells tot)
  case Nil
  then show ?case by simp
next
  case (Cons i "is")
  have i: "i < length kvs" "set is \<subseteq> {0..<length kvs}" using Cons.prems by auto
  note c = leaf_page_cell [OF assms(1) i(1)]
  show ?case
    using c Cons.IH [OF i(2)] Cons.prems(2) by (simp add: assms(3) add.assoc)
qed

lemma slots_leaf: "leaf_page p kvs \<Longrightarrow> slots p = [0..<length kvs]"
  using leaf_page_slots by simp

lemma upsertLoop_fresh:
  assumes "leaf_page p kvs" "ExtractMVCCKey key = (u, w)"
    and "\<And>e. e \<in> set kvs \<Longrightarrow> writeConflict u w tm (Key e) = None \<and> Key e \<noteq> key"
  shows "upsertLoop key cb tm p (slots p) [] False HeaderSize t =
    Some (Inr (map KVCell_Serialize kvs, False, space_used (map KVCell_Serialize kvs)), t)"
proof -
  have m: "map (\<lambda>i. g (kvs ! i)) [0..<length kvs] = map g kvs" for g :: "KVCell \<Rightarrow> 'x"
    using map_nth [of kvs] by (metis (no_types, lifting) comp_apply map_eq_conv map_map)
  show ?thesis
    using upsertLoop_plain [OF assms(1) _ assms(2), of "[0..<length kvs]" tm cb "[]" False HeaderSize t] assms(3)
    by (simp add: slots_leaf [OF assms(1)] m [of KVCell_Serialize] m [of "\<lambda>x. 4 + KVCell_Size x"] space_used_def comp_def)
qed

lemma upsertLoop_replace:
  assumes "leaf_page p (xs @ old # ys)" "ExtractMVCCKey key = (u, w)" "Key old = key"
    and "\<And>e. e \<in> set (xs @ ys) \<Longrightarrow> writeConflict u w tm (Key e) = None \<and> Key e \<noteq> key"
  shows "upsertLoop key cb tm p (slots p) [] False HeaderSize t =
    Option.bind (if IsOverflow old then freeOverflowChain (Value old) t else Some t) (\<lambda>t.
      Some (Inr (map KVCell_Serialize xs @ cb # map KVCell_Serialize ys, True,
        space_used (map KVCell_Serialize xs @ cb # map KVCell_Serialize ys)), t))"
proof -
  let ?kvs = "xs @ old # ys" and ?n = "length xs"
  have "[0..<length ?kvs] = [0..<?n] @ [?n..<length ?kvs]" by (metis le0 length_append nat_le_iff_add upt_add_eq_append)
  moreover have "[?n..<length ?kvs] = ?n # [Suc ?n..<length ?kvs]" by (rule upt_conv_Cons) simp
  ultimately have s: "slots p = [0..<?n] @ ?n # [Suc ?n..<length ?kvs]"
    using slots_leaf [OF assms(1)] by (simp only:)
  have m1: "map (\<lambda>i. g (?kvs ! i)) [0..<?n] = map g xs" for g :: "KVCell \<Rightarrow> 'x"
    by (intro nth_equalityI) (auto simp: nth_append)
  have m2: "map (\<lambda>i. g (?kvs ! i)) [Suc ?n..<length ?kvs] = map g ys" for g :: "KVCell \<Rightarrow> 'x"
    by (intro nth_equalityI) (auto simp: nth_append simp del: upt_Suc)
  have own: "writeConflict u w tm key = None" using assms(2) by (simp add: writeConflict_def split: option.split)
  have c: "getCell p ?n = Some (KVCell_Serialize old)" "DeserializeKVCell (KVCell_Serialize old) = Some old"
    using leaf_page_cell [OF assms(1), of ?n] by simp_all
  have ok: "writeConflict u w tm (Key (?kvs ! i)) = None \<and> Key (?kvs ! i) \<noteq> key" if "i < length ?kvs" "i \<noteq> ?n" for i
    using that by (intro assms(4)) (auto simp: nth_append nth_Cons split: nat.splits)
  have l1: "upsertLoop key cb tm p [0..<?n] [] False HeaderSize t = Some (Inr (map KVCell_Serialize xs, False,
      HeaderSize + sum_list (map (\<lambda>x. SlotSize + length (KVCell_Serialize x)) xs)), t)"
    by (subst upsertLoop_plain [OF assms(1) _ assms(2) ok]) (auto simp: m1 [of KVCell_Serialize] m1 [of "\<lambda>x. 4 + KVCell_Size x"])
  have l2: "upsertLoop key cb tm p [Suc ?n..<length ?kvs] cells True tot t' = Some (Inr (cells @ map KVCell_Serialize ys, True,
      tot + sum_list (map (\<lambda>x. SlotSize + length (KVCell_Serialize x)) ys)), t')" for cells tot t'
    by (subst upsertLoop_plain [OF assms(1) _ assms(2) ok]) (auto simp: m2 [of KVCell_Serialize] m2 [of "\<lambda>x. 4 + KVCell_Size x"] simp del: upt_Suc length_append)
  show ?thesis
    unfolding s upsertLoop_append l1
    using c own assms(2,3) l2
    by (simp add: space_used_def comp_def add.assoc split: bind_split del: upt_Suc length_append)
qed

section \<open>Rewriting the leaf\<close>

lemma more_fields:
  fixes t t' :: BTree
  assumes "BufferManager.more t = BufferManager.more t'"
  shows "treeWal t = treeWal t'" "rootPageID t = rootPageID t'"
  using assms by (cases t; cases t'; simp)+

lemma UnpinPage_wal: "UnpinPage i d w bm = Some (r, bm') \<Longrightarrow> wal bm' = wal bm"
  by (auto simp: UnpinPage_def Let_def split: option.splits if_splits bind_splits)

lemma putPage_tree [simp]:
  fixes t :: BTree
  shows "treeWal (putPage i p t) = treeWal t" "rootPageID (putPage i p t) = rootPageID t"
    "chkFile (putPage i p t) = chkFile t" "wal (putPage i p t) = wal t"
  by (simp_all add: putPage_def set_frame_def split: option.split)

text \<open>Releasing a page that was latched and rewritten leaves only its new content.\<close>

lemma release_rewritten:
  assumes "implements t (a\<lparr>pheld := (pheld a)(l := LWrite), pview := (pview a)(l \<mapsto> p), ptouched := insert l (ptouched a)\<rparr>)"
    and "pheld a l = LFree" "l \<notin> ptouched a"
  obtains t' where "UnpinPage l True True t = Some (Inr (), t')" "implements t' (a\<lparr>pview := (pview a)(l \<mapsto> p)\<rparr>)"
    "wal t' = wal t"
proof -
  let ?a2 = "a\<lparr>pheld := (pheld a)(l := LWrite), pview := (pview a)(l \<mapsto> p), ptouched := insert l (ptouched a)\<rparr>"
  obtain t' where u: "UnpinPage l True True t = Some (Inr (), t')"
    "implements t' (?a2\<lparr>pheld := (pheld ?a2)(l := LFree), ptouched := ptouched ?a2 - {l}\<rparr>)"
    using pool.unpin_write [OF assms(1), of l True] by auto
  moreover have "?a2\<lparr>pheld := (pheld ?a2)(l := LFree), ptouched := ptouched ?a2 - {l}\<rparr> = a\<lparr>pview := (pview a)(l \<mapsto> p)\<rparr>"
    using assms(2,3) by (auto intro!: pool.equality)
  ultimately show ?thesis using that UnpinPage_wal by metis
qed

lemma norm_SetLSN: "norm_page (SetLSN p l) = norm_page p"
  by (simp add: norm_page_def SetLSN_def blit_idem)

text \<open>The page that holds exactly the cells of \<open>ys\<close>.\<close>

lemma rebuild_page:
  assumes "length q = PageSize" "m = PageTypeInternal \<or> m = PageTypeLeaf" "space_used cs \<le> PageSize"
  obtains p where "each Page_Insert (Page_Init q m) cs = Some p" "wf_slotted p" "page_cells p = cs"
    "GetPageType p = m" "GetPageID p = GetPageID q" "norm_page p = p" "length p = PageSize"
proof -
  note w = wf_Page_Init [OF assms(1,2)]
  obtain p where p: "each Page_Insert (Page_Init q m) cs = Some p" "wf_slotted p"
    "page_header p = page_header (Page_Init q m)" "page_cells p = cs"
    using slotted.each_ins_all [OF w(1), of cs] assms(3) w(2) by auto
  have h: "GetPageType p = m" "GetPageID p = GetPageID q" "GetLSN p = 0"
    using p(3) Page_Init_fields [OF assms(1), of m] by (simp_all add: page_header_def)
  have l: "length p = PageSize" using p(2) by (simp add: wf_slotted_def)
  show ?thesis using that [OF p(1,2,4) h(1,2) norm_page_id [OF l h(3)] l] .
qed

lemma rewriteLeaf_ok:
  fixes t :: BTree
  assumes "implements t (a\<lparr>pheld := (pheld a)(l := LWrite)\<rparr>)" "pheld a l = LFree" "l \<notin> ptouched a"
    and "pview a l = Some p0" "GetPageID p0 = l" "list_all kv_cell_fits xs" "mset ys = mset xs"
    and "sorted_wrt (<) (map Key ys)" "space_used (map KVCell_Serialize ys) \<le> PageSize" "treeWal t \<longrightarrow> plogopen a"
  obtains tm' t' p' where "rewriteLeaf key val flag l (map KVCell_Serialize xs) (tm, t) = Some (Inr (), (tm', t'))"
    "implements t' (a\<lparr>pview := (pview a)(l \<mapsto> p')\<rparr>)" "leaf_page p' ys" "GetPageID p' = l"
    "tm' = (if treeWal t then map_option (\<lambda>m. SetLastLSN m (snd (ExtractMVCCKey key)) (currentLSN (wal t))) tm else tm)"
    "wal t' = (if treeWal t then snd (Append (wal t) (snd (ExtractMVCCKey key)) l
       (case tm of None \<Rightarrow> 0 | Some m \<Rightarrow> GetLastLSN m (snd (ExtractMVCCKey key)))
       (if flag = KEY_DELETED_FLAG then LogOpDelete else LogOpInsert) key val) else wal t)"
proof -
  let ?a1 = "a\<lparr>pheld := (pheld a)(l := LWrite)\<rparr>"
  obtain q where q: "getPage l t = Some q" "pview ?a1 l = Some (norm_page q)" "length q = PageSize"
    by (rule impl_getPage [OF assms(1), of l]) auto
  have gq: "GetPageID q = l" using q(2) assms(4,5) norm_page_get(1) [OF q(3)] by simp
  obtain p where p: "each Page_Insert (Page_Init q PageTypeLeaf) (map KVCell_Serialize ys) = Some p" "wf_slotted p"
    "page_cells p = map KVCell_Serialize ys" "GetPageType p = PageTypeLeaf" "GetPageID p = GetPageID q"
    "norm_page p = p" "length p = PageSize"
    by (rule rebuild_page [where m = PageTypeLeaf, OF q(3) _ assms(9)]) auto
  have lp: "leaf_page p ys"
    using p assms(6,7) mset_eq_setD [OF assms(7)] by (simp add: leaf_page_def list_all_iff)
  have srt: "sortCells kv_key kv_less (map KVCell_Serialize xs) = Some (map KVCell_Serialize ys)"
    by (rule sortCells_kv [OF assms(6-8)])
  let ?a2 = "?a1\<lparr>pview := (pview a)(l \<mapsto> p), ptouched := insert l (ptouched a)\<rparr>"
  have i2: "implements (putPage l p t) ?a2" using pool.write_held [OF assms(1), of l p] p(6,7) by simp
  show ?thesis
  proof (cases "treeWal t")
    case False
    obtain t' where u: "UnpinPage l True True (putPage l p t) = Some (Inr (), t')"
      "implements t' (a\<lparr>pview := (pview a)(l \<mapsto> p)\<rparr>)" "wal t' = wal (putPage l p t)"
      by (rule release_rewritten [OF i2 assms(2,3)])
    then show ?thesis
      using that [of tm t' p] lp p(5) gq srt q(1) p(1) False by (simp add: rewriteLeaf_def)
  next
    case True
    define w where "w = snd (ExtractMVCCKey key)"
    define opc where "opc = (if flag = KEY_DELETED_FLAG then LogOpDelete else LogOpInsert)"
    define prev where "prev = (case tm of None \<Rightarrow> 0 | Some m \<Rightarrow> GetLastLSN m w)"
    define wl where "wl = snd (Append (wal t) w l prev opc key val)"
    have op: "fopen (wfile (wal t))" using assms(1,10) True implements_sel(5) [OF assms(1)] by simp
    have ap: "Append (wal t) w l prev opc key val = (Inr (currentLSN (wal t)), wl)"
      using Append_open(1) [OF op, of w l prev opc key val] by (simp add: prod_eq_iff wl_def)
    have i3: "implements ((putPage l p t)\<lparr>wal := wl\<rparr>) ?a2"
      by (rule impl_wal [OF i2]) (use Append_open(2) [OF op] assms(10) True in \<open>simp add: wl_def\<close>)
    let ?t4 = "putPage l (SetLSN p (currentLSN (wal t))) ((putPage l p t)\<lparr>wal := wl\<rparr>)"
    have i4: "implements ?t4 ?a2"
      using pool.write_held [OF i3, of l "SetLSN p (currentLSN (wal t))"] p(6,7) by (simp add: norm_SetLSN)
    obtain t' where u: "UnpinPage l True True ?t4 = Some (Inr (), t')"
      "implements t' (a\<lparr>pview := (pview a)(l \<mapsto> p)\<rparr>)" "wal t' = wal ?t4"
      by (rule release_rewritten [OF i4 assms(2,3)])
    have "rewriteLeaf key val flag l (map KVCell_Serialize xs) (tm, t) =
        Some (Inr (), (map_option (\<lambda>m. SetLastLSN m w (currentLSN (wal t))) tm, t'))"
      unfolding rewriteLeaf_def prod.case
      using srt q(1) p(1,5) gq ap u(1) True
      by (simp add: Let_def opc_def [symmetric] prev_def [symmetric] w_def [symmetric])
    moreover have "wal t' = wl" using u(3) by simp
    ultimately show ?thesis
      using that [of _ t' p] lp p(5) gq True u(2) unfolding wl_def prev_def opc_def w_def by simp
  qed
qed
section \<open>The values of a set of cells\<close>

text \<open>Every cell of E has its value; its overflow pages belong to no other cell, to no page of the
  tree (P) and are not free (F).\<close>

definition values_ok ::
  "(u32 \<Rightarrow> page option) \<Rightarrow> KVCell set \<Rightarrow> u32 set \<Rightarrow> u32 set \<Rightarrow> (KVCell \<Rightarrow> u32 list \<times> bytes) \<Rightarrow> bool" where
  "values_ok V E P F ov \<longleftrightarrow>
     (\<forall>e \<in> E. cell_value V e (fst (ov e)) (snd (ov e)) \<and> set (fst (ov e)) \<inter> (P \<union> F) = {}) \<and>
     (\<forall>e \<in> E. \<forall>e' \<in> E. e \<noteq> e' \<longrightarrow> set (fst (ov e)) \<inter> set (fst (ov e')) = {})"

lemma cell_value_cong: "(\<And>k. k \<in> set js \<Longrightarrow> V k = V' k) \<Longrightarrow> cell_value V e js v \<Longrightarrow> cell_value V' e js v"
  using spells_cong [of js V V'] by (auto simp: cell_value_def split: if_splits)

lemma cell_value_pages:
  assumes "cell_value V e js v"
  shows "0 \<notin> set js" "\<And>k. k \<in> set js \<Longrightarrow> V k \<noteq> None" "distinct js"
proof -
  have "0 \<notin> set js \<and> (\<forall>k \<in> set js. V k \<noteq> None)"
    using assms chain_ids [OF spells_chain] by (auto simp: cell_value_def split: if_splits)
  then show "0 \<notin> set js" "\<And>k. k \<in> set js \<Longrightarrow> V k \<noteq> None" by blast+
  show "distinct js" using assms by (auto simp: cell_value_def split: if_splits)
qed

lemma values_okD:
  assumes "values_ok V E P F ov" "e \<in> E"
  shows "cell_value V e (fst (ov e)) (snd (ov e))" "set (fst (ov e)) \<inter> (P \<union> F) = {}" "0 \<notin> set (fst (ov e))"
    "\<And>k. k \<in> set (fst (ov e)) \<Longrightarrow> V k \<noteq> None" "distinct (fst (ov e))"
    "\<And>e'. e' \<in> E \<Longrightarrow> e \<noteq> e' \<Longrightarrow> set (fst (ov e)) \<inter> set (fst (ov e')) = {}"
proof -
  show v: "cell_value V e (fst (ov e)) (snd (ov e))" "set (fst (ov e)) \<inter> (P \<union> F) = {}"
    "\<And>e'. e' \<in> E \<Longrightarrow> e \<noteq> e' \<Longrightarrow> set (fst (ov e)) \<inter> set (fst (ov e')) = {}"
    using assms unfolding values_ok_def by blast+
  show "0 \<notin> set (fst (ov e))" "\<And>k. k \<in> set (fst (ov e)) \<Longrightarrow> V k \<noteq> None" "distinct (fst (ov e))"
    using cell_value_pages [OF v(1)] by blast+
qed

lemma values_ok_frame:
  assumes "values_ok V E P F ov" "E' \<subseteq> E" "\<And>e k. e \<in> E' \<Longrightarrow> k \<in> set (fst (ov e)) \<Longrightarrow> V' k = V k \<and> k \<notin> P' \<and> k \<notin> F'"
  shows "values_ok V' E' P' F' ov"
  unfolding values_ok_def
proof (intro conjI ballI impI)
  fix e assume e: "e \<in> E'"
  then have eE: "e \<in> E" using assms(2) by blast
  note d = values_okD [OF assms(1) eE]
  show "cell_value V' e (fst (ov e)) (snd (ov e))"
    by (rule cell_value_cong [OF _ d(1)]) (use assms(3) [OF e] in simp)
  show "set (fst (ov e)) \<inter> (P' \<union> F') = {}" using assms(3) [OF e] by blast
  fix e' assume "e' \<in> E'" "e \<noteq> e'"
  then show "set (fst (ov e)) \<inter> set (fst (ov e')) = {}" using d(6) assms(2) by blast
qed

lemma values_ok_add:
  assumes "values_ok V E P F ov" "e \<notin> E" "cell_value V e js v" "set js \<inter> (P \<union> F) = {}"
    and "\<And>e'. e' \<in> E \<Longrightarrow> set js \<inter> set (fst (ov e')) = {}"
  shows "values_ok V (insert e E) P F (ov(e := (js, v)))"
  using assms unfolding values_ok_def by (auto; blast)

lemma db_ok_alt:
  "db_ok t a h es ps fs ov \<longleftrightarrow> implements t a \<and> store_ok a fs \<and> (\<forall>k. pheld a k = LFree) \<and> 5 \<le> pcap a \<and>
     (treeWal t \<longrightarrow> plogopen a) \<and> root_is (pview a) (rootPageID t) \<and> tree_at (pview a) h (rootPageID t) [] None es ps \<and> distinct ps \<and>
     0 \<notin> set ps \<and> set ps \<inter> set fs = {} \<and> values_ok (pview a) (set es) (set ps) (set fs) ov"
  by (auto simp: db_ok_def values_ok_def store_def)

lemma tree_pages: "tree_at V h i lo hi es ps \<Longrightarrow> k \<in> set ps \<Longrightarrow> V k \<noteq> None"
proof (induction h arbitrary: i lo hi es ps)
  case 0
  then show ?case by auto
next
  case (Suc h)
  obtain p ks ess pss where t: "V i = Some p" "length pss = length ks" "ps = i # concat pss"
    "\<forall>j < length ks. tree_at V h (ChildPageID (ks ! j)) (low_of lo ks j) (high_of hi ks j) (ess ! j) (pss ! j)"
    using Suc.prems(1) unfolding tree_at.simps by blast
  show ?case
  proof (cases "k = i")
    case False
    then obtain j where "j < length pss" "k \<in> set (pss ! j)" using Suc.prems(2) t(3) concat_nthE [of k pss] by auto
    then show ?thesis using Suc.IH t(2,4) by metis
  qed (use t(1) in simp)
qed

section \<open>Preparing the value\<close>

lemma store_ok_latch:
  assumes "store_ok a fs" "l \<noteq> 0" "l \<notin> set fs"
  shows "store_ok (a\<lparr>pheld := (pheld a)(l := x)\<rparr>) fs"
  using assms by (auto simp: store_ok_def)

lemma store_ok_unlatch:
  assumes "store_ok a fs" "\<forall>k. pheld b k = LFree" "pview b = pview a" "pfile b = pfile a" "plog b = plog a" "plogopen b = plogopen a"
  shows "store_ok b fs"
  using assms by (auto simp: store_ok_def)

lemma flag_or:
  assumes "flag = 0 \<or> flag = KEY_DELETED_FLAG"
  shows "\<not> IsOverflow (NewKVCell flag k v)" "IsOverflow (NewKVCell (flag OR KEY_OVERFLOW_FLAG) k v)"
    "IsDeleted (NewKVCell flag k v) \<longleftrightarrow> flag = KEY_DELETED_FLAG"
    "IsDeleted (NewKVCell (flag OR KEY_OVERFLOW_FLAG) k v) \<longleftrightarrow> flag = KEY_DELETED_FLAG"
  using assms by (auto simp: IsOverflow_def IsDeleted_def NewKVCell_def flag_values)

text \<open>The state of an upsert while it holds the leaf l: b is the pool without the latch.\<close>

definition mid_ok :: "BTree \<Rightarrow> _ pool \<Rightarrow> u32 \<Rightarrow> KVCell set \<Rightarrow> u32 list \<Rightarrow> u32 list \<Rightarrow> (KVCell \<Rightarrow> u32 list \<times> bytes) \<Rightarrow> bool" where
  "mid_ok t b l E ps fs ov \<longleftrightarrow> implements t (b\<lparr>pheld := (pheld b)(l := LWrite)\<rparr>) \<and> store_ok b fs \<and>
     (\<forall>k. pheld b k = LFree) \<and> ptouched b = {} \<and> 5 \<le> pcap b \<and> (treeWal t \<longrightarrow> plogopen b) \<and>
     root_is (pview b) (rootPageID t) \<and>
     distinct ps \<and> 0 \<notin> set ps \<and> set ps \<inter> set fs = {} \<and> l \<in> set ps \<and>
     values_ok (pview b) E (set ps) (set fs) ov"

lemma mid_okD:
  assumes "mid_ok t b l E ps fs ov"
  shows "implements t (b\<lparr>pheld := (pheld b)(l := LWrite)\<rparr>)" "store_ok b fs" "\<And>k. pheld b k = LFree" "ptouched b = {}"
    "5 \<le> pcap b" "treeWal t \<longrightarrow> plogopen b" "distinct ps" "0 \<notin> set ps" "set ps \<inter> set fs = {}" "l \<in> set ps"
    "values_ok (pview b) E (set ps) (set fs) ov" "l \<noteq> 0" "l \<notin> set fs"
    "store t (b\<lparr>pheld := (pheld b)(l := LWrite)\<rparr>) fs" "pages_free (b\<lparr>pheld := (pheld b)(l := LWrite)\<rparr>) 4"
    "root_is (pview b) (rootPageID t)"
proof -
  show m: "implements t (b\<lparr>pheld := (pheld b)(l := LWrite)\<rparr>)" "store_ok b fs" "\<And>k. pheld b k = LFree" "ptouched b = {}"
    "5 \<le> pcap b" "treeWal t \<longrightarrow> plogopen b" "distinct ps" "0 \<notin> set ps" "set ps \<inter> set fs = {}" "l \<in> set ps"
    "values_ok (pview b) E (set ps) (set fs) ov" "root_is (pview b) (rootPageID t)"
    using assms by (simp_all add: mid_ok_def)
  show l: "l \<noteq> 0" "l \<notin> set fs" using m(8-10) by auto
  show "store t (b\<lparr>pheld := (pheld b)(l := LWrite)\<rparr>) fs"
    using m(1) store_ok_latch [OF m(2) l] by (simp add: store_def)
  have "pages_free b 5" using m(3,5) by (simp add: pages_free_def busy_def)
  then show "pages_free (b\<lparr>pheld := (pheld b)(l := LWrite)\<rparr>) 4" by (intro pages_free_hold) simp
qed

text \<open>The pool without the latch, read off a state in which l is the only latched page.\<close>

lemma unlatched:
  fixes a :: "'m pool"
  assumes "pheld a = (pheld b)(l := LWrite)" "\<And>k. pheld b k = LFree"
  shows "(a\<lparr>pheld := \<lambda>_. LFree\<rparr>)\<lparr>pheld := (pheld (a\<lparr>pheld := \<lambda>_. LFree\<rparr>))(l := LWrite)\<rparr> = a"
  using assms by (auto intro!: pool.equality)

lemma spells_length: "spells V i js data \<Longrightarrow> length js \<le> length data"
proof (induction js arbitrary: i data)
  case (Cons j js)
  then obtain x where "data \<noteq> []" "spells V x js (drop 4060 data)" by auto
  then show ?case using Cons.IH [of x "drop 4060 data"] by (cases data) auto
qed simp

lemma upsertValue_ok:
  assumes m: "mid_ok t b l E ps fs ov" and ex: "\<And>k. k \<in> set ps \<Longrightarrow> pview b k \<noteq> None"
    and len: "length val < 2 ^ 32" and size: "pfile b div PageSize + length val \<le> 2 ^ 32"
    and fl: "flag = 0 \<or> flag = KEY_DELETED_FLAG"
  obtains val' flag' t2 b2 fs2 js where "upsertValue val flag tm t = Some (Inr (val', flag'), (tm, t2))"
    "mid_ok t2 b2 l E ps fs2 ov" "cell_value (pview b2) (NewKVCell flag' key val') js val"
    "set js \<inter> (set ps \<union> set fs2) = {}" "\<And>e. e \<in> E \<Longrightarrow> set js \<inter> set (fst (ov e)) = {}"
    "\<And>k. k \<in> set ps \<Longrightarrow> pview b2 k = pview b k" "pmore b2 = pmore b"
    "length val' = (if length val > MaxInlineValueSize then 8 else length val)"
    "IsDeleted (NewKVCell flag' key val') \<longleftrightarrow> flag = KEY_DELETED_FLAG"
    "flag' = KEY_DELETED_FLAG \<longleftrightarrow> flag = KEY_DELETED_FLAG \<and> length val \<le> MaxInlineValueSize"
    "flag' = flag \<or> flag' = flag OR KEY_OVERFLOW_FLAG" "pfile b2 \<le> pfile b + PageSize * length val"
    "IsOverflow (NewKVCell flag' key val') \<longleftrightarrow> length val > MaxInlineValueSize"
proof (cases "length val > MaxInlineValueSize")
  case False
  show ?thesis
  proof (rule that [of val flag t b fs "[]"])
    show "upsertValue val flag tm t = Some (Inr (val, flag), (tm, t))" using False by (simp add: upsertValue_def)
    show "cell_value (pview b) (NewKVCell flag key val) [] val"
      using flag_or(1) [OF fl] by (simp add: cell_value_def NewKVCell_def)
  qed (use m False flag_or [OF fl] in auto)
next
  case True
  note d = mid_okD [OF m]
  let ?a = "b\<lparr>pheld := (pheld b)(l := LWrite)\<rparr>"
  have pf: "pages_free ?a 3" by (rule pages_free_less [OF d(15)]) simp
  have ne: "val \<noteq> []" using True by auto
  obtain js t2 a2 where c: "createOverflowChain val t = Some (Inr (PutUint32 (hd js) @ PutUint32 (of_nat (length val))), t2)"
    "store t2 a2 (drop (length js) fs)" "chain_frame ?a fs js a2" "spells (pview a2) (hd js) js val"
    "pheld a2 = pheld ?a" "ptouched a2 = ptouched ?a" "\<And>k. k \<noteq> 0 \<Longrightarrow> k \<notin> set js \<Longrightarrow> pview a2 k = pview ?a k"
    by (rule createOverflowChain_ok [OF d(14) pf ne]) (use size in simp_all)
  let ?b2 = "a2\<lparr>pheld := \<lambda>_. LFree\<rparr>" and ?fs2 = "drop (length js) fs"
  have cf: "distinct js" "0 \<notin> set js" "set js \<inter> set ?fs2 = {}" "\<And>j. j \<in> set js \<Longrightarrow> j \<in> set fs \<or> pview b j = None"
    "pcap a2 = pcap b" "plog a2 = plog b" "plogopen a2 = plogopen b" "pmore a2 = pmore b"
    "pfile a2 \<le> pfile b + PageSize * length js"
    using c(3) by (auto simp: chain_frame_def)
  have "length js \<le> length val" by (rule spells_length [OF c(4)])
  then have pfl: "pfile ?b2 \<le> pfile b + PageSize * length val" using cf(9) by simp
  have bl: "?b2\<lparr>pheld := (pheld ?b2)(l := LWrite)\<rparr> = a2" by (rule unlatched [of a2 b]) (use c(5) d(3) in simp_all)
  have jps: "set js \<inter> set ps = {}" using cf(4) d(9) ex by blast
  have jov: "set js \<inter> set (fst (ov e)) = {}" if "e \<in> E" for e
    using values_okD(2,4) [OF d(11) that] cf(4) by blast
  have vw: "pview ?b2 k = pview b k" if "k \<noteq> 0" "k \<notin> set js" for k using c(7) [OF that] by simp
  have vo: "values_ok (pview ?b2) E (set ps) (set ?fs2) ov"
  proof (rule values_ok_frame [OF d(11) subset_refl])
    fix e k assume e: "e \<in> E" "k \<in> set (fst (ov e))"
    have "k \<noteq> 0" "k \<notin> set js" "k \<notin> set ps" "k \<notin> set fs"
      using values_okD(2,3) [OF d(11) e(1)] jov [OF e(1)] e(2) by auto
    then show "pview ?b2 k = pview b k \<and> k \<notin> set ps \<and> k \<notin> set ?fs2" using vw in_set_dropD by metis
  qed
  have "BufferManager.more t2 = BufferManager.more t"
    using implements_sel(7) [OF storeD(1) [OF c(2)]] implements_sel(7) [OF d(1)] cf(8) by simp
  note tw = more_fields [OF this]
  have ro: "root_is (pview ?b2) (rootPageID t2)"
    using d(16) c(3) tw(2) by (auto simp: root_is_def chain_frame_def)
  have so: "store_ok ?b2 ?fs2" by (rule store_ok_unlatch [of a2]) (use c(2) in \<open>simp_all add: store_def\<close>)
  show ?thesis
  proof (rule that [of "PutUint32 (hd js) @ PutUint32 (of_nat (length val))" "flag OR KEY_OVERFLOW_FLAG" t2 ?b2 ?fs2 js])
    show "upsertValue val flag tm t = Some (Inr (PutUint32 (hd js) @ PutUint32 (of_nat (length val)), flag OR KEY_OVERFLOW_FLAG), (tm, t2))"
      using True c(1) by (simp add: upsertValue_def onTree_def)
    have "implements t2 (?b2\<lparr>pheld := (pheld ?b2)(l := LWrite)\<rparr>)" unfolding bl using c(2) by (simp add: store_def)
    moreover have "set ps \<inter> set ?fs2 = {}" using d(9) in_set_dropD by fastforce
    ultimately show "mid_ok t2 ?b2 l E ps ?fs2 ov"
      using so d(4-8,10) cf c(6) vo tw ro by (simp add: mid_ok_def)
    show "cell_value (pview ?b2) (NewKVCell (flag OR KEY_OVERFLOW_FLAG) key (PutUint32 (hd js) @ PutUint32 (of_nat (length val)))) js val"
      using flag_or(2) [OF fl] c(4) cf(1) ne len by (simp add: cell_value_def NewKVCell_def)
    show "set js \<inter> (set ps \<union> set ?fs2) = {}" using jps cf(3) by blast
    show "set js \<inter> set (fst (ov e)) = {}" if "e \<in> E" for e by (rule jov [OF that])
    show "pview ?b2 k = pview b k" if "k \<in> set ps" for k using vw [of k] that jps d(8) by blast
    show "flag OR KEY_OVERFLOW_FLAG = KEY_DELETED_FLAG \<longleftrightarrow> flag = KEY_DELETED_FLAG \<and> length val \<le> MaxInlineValueSize"
      using fl True by (auto simp: flag_values)
  qed (use True flag_or [OF fl] cf(8) pfl in auto)
qed

lemma free_old:
  assumes m: "mid_ok t b l E ps fs ov" and old: "old \<in> E"
  obtains t' b' fs' where "(if IsOverflow old then freeOverflowChain (Value old) t else Some t) = Some t'"
    "mid_ok t' b' l (E - {old}) ps fs' ov" "set fs' = set (fst (ov old)) \<union> set fs"
    "\<And>k. k \<noteq> 0 \<Longrightarrow> k \<notin> set (fst (ov old)) \<Longrightarrow> pview b' k = pview b k" "pmore b' = pmore b"
    "pfile b' = pfile b"
proof (cases "IsOverflow old")
  case False
  note d = mid_okD [OF m]
  have "fst (ov old) = []" using values_okD(1) [OF d(11) old] False by (simp add: cell_value_def)
  moreover have "values_ok (pview b) (E - {old}) (set ps) (set fs) ov"
    by (rule values_ok_frame [OF d(11)]) (use values_okD(2) [OF d(11)] in auto)
  ultimately show ?thesis using that [of t b fs] False m by (simp add: mid_ok_def)
next
  case True
  note d = mid_okD [OF m]
  let ?a = "b\<lparr>pheld := (pheld b)(l := LWrite)\<rparr>" and ?js = "fst (ov old)"
  note o = values_okD [OF d(11) old]
  have cv: "Value old = PutUint32 (hd ?js) @ PutUint32 (of_nat (length (snd (ov old))))"
    "spells (pview ?a) (hd ?js) ?js (snd (ov old))"
    using o(1) True by (auto simp: cell_value_def)
  have pf: "pages_free ?a 2" by (rule pages_free_less [OF d(15)]) simp
  have fr: "\<forall>j \<in> set ?js. pheld ?a j = LFree \<and> j \<notin> set fs" using o(2) d(3,10) by auto
  obtain t' a' where f: "freeOverflowChain (PutUint32 (hd ?js) @ PutUint32 (of_nat (length (snd (ov old))))) t = Some t'"
    "store t' a' (rev ?js @ fs)" "a' = ?a\<lparr>pview := pview a'\<rparr>" "\<And>k. k \<noteq> 0 \<Longrightarrow> k \<notin> set ?js \<Longrightarrow> pview a' k = pview ?a k"
    "\<exists>m m'. pview ?a 0 = Some m \<and> pview a' 0 = Some m' \<and> GetRootPageID m' = GetRootPageID m"
    by (rule freeOverflowChain_ok [OF d(14) pf cv(2) o(5) fr]) blast
  let ?b' = "b\<lparr>pview := pview a'\<rparr>"
  have bl: "?b'\<lparr>pheld := (pheld ?b')(l := LWrite)\<rparr> = a'" by (rule trans [OF _ f(3) [symmetric]]) simp
  have "BufferManager.more t' = BufferManager.more t"
    using implements_sel(7) [OF storeD(1) [OF f(2)]] implements_sel(7) [OF d(1)] arg_cong [OF f(3), of pmore] by simp
  note tw = more_fields [OF this]
  have ro: "root_is (pview a') (rootPageID t')" using d(16) f(5) tw(2) by (auto simp: root_is_def)
  have so: "store_ok ?b' (rev ?js @ fs)"
  proof (rule store_ok_unlatch [of a'])
    show "store_ok a' (rev ?js @ fs)" using f(2) by (simp add: store_def)
    show "pfile ?b' = pfile a'" "plog ?b' = plog a'" "plogopen ?b' = plogopen a'"
      using arg_cong [OF f(3), of pfile] arg_cong [OF f(3), of plog] arg_cong [OF f(3), of plogopen] by simp_all
  qed (use d(3) in simp_all)
  have vo: "values_ok (pview ?b') (E - {old}) (set ps) (set (rev ?js @ fs)) ov"
  proof (rule values_ok_frame [OF d(11)])
    fix e k assume e: "e \<in> E - {old}" "k \<in> set (fst (ov e))"
    then have "k \<notin> set ?js" using o(6) [of e] by blast
    then show "pview ?b' k = pview b k \<and> k \<notin> set ps \<and> k \<notin> set (rev ?js @ fs)"
      using values_okD(2,3) [OF d(11), of e] e f(4) [of k] by auto
  qed blast
  have "set ps \<inter> set (rev ?js @ fs) = {}" using o(2) d(9) by auto
  then have "mid_ok t' ?b' l (E - {old}) ps (rev ?js @ fs) ov"
    unfolding mid_ok_def bl using storeD(1) [OF f(2)] so d(3-8,10) vo tw ro by simp
  then show ?thesis using that [of t' ?b' "rev ?js @ fs"] True f(1,4) cv(1) by simp
qed
section \<open>An upsert up to the rewrite of the leaf\<close>

definition stored_len :: "bytes \<Rightarrow> nat" where
  "stored_len val = (if length val > MaxInlineValueSize then 8 else length val)"

text \<open>The hypotheses of an upsert: a consistent database, the leaf l with cells \<open>kvs\<close> that covers the key, a
  value and a key of admissible size.\<close>

definition upsert_pre ::
  "BTree \<Rightarrow> _ pool \<Rightarrow> nat \<Rightarrow> KVCell list \<Rightarrow> u32 list \<Rightarrow> u32 list \<Rightarrow> (KVCell \<Rightarrow> u32 list \<times> bytes) \<Rightarrow>
   bytes \<Rightarrow> bytes \<Rightarrow> u8 \<Rightarrow> u32 list \<Rightarrow> u32 \<Rightarrow> KVCell list \<Rightarrow> bool" where
  "upsert_pre t a h es ps fs ov key val flag path l kvs \<longleftrightarrow> db_ok t a h es ps fs ov \<and>
     descent (pview a) h (rootPageID t) key path l \<and> (\<exists>p. pview a l = Some p \<and> leaf_page p kvs) \<and>
     length val < 2 ^ 32 \<and> pfile a div PageSize + length val \<le> 2 ^ 32 \<and> length key < 64000 \<and>
     (flag = 0 \<or> flag = KEY_DELETED_FLAG)"

lemma mid_start:
  assumes "db_ok t a h es ps fs ov" "implements t1 (a\<lparr>pheld := (pheld a)(l := LWrite)\<rparr>)" "l \<in> set ps"
  shows "mid_ok t1 a l (set es) ps fs ov" "rootPageID t1 = rootPageID t"
proof -
  have d: "db_ok t a h es ps fs ov" by (fact assms(1))
  have "BufferManager.more t1 = BufferManager.more t"
    using implements_sel(7) [OF assms(2)] implements_sel(7) [of t a] d by (simp add: db_ok_alt)
  note m = more_fields [OF this]
  show "rootPageID t1 = rootPageID t" by (fact m(2))
  show "mid_ok t1 a l (set es) ps fs ov"
    using d assms(2,3) m db_okD(11) [OF d] by (simp add: mid_ok_def db_ok_alt)
qed

lemma mid_add:
  assumes "mid_ok t b l E ps fs ov" "kv \<notin> E" "cell_value (pview b) kv js v" "set js \<inter> (set ps \<union> set fs) = {}"
    and "\<And>e. e \<in> E \<Longrightarrow> set js \<inter> set (fst (ov e)) = {}"
  shows "mid_ok t b l (insert kv E) ps fs (ov(kv := (js, v)))"
  using assms values_ok_add [OF mid_okD(11) [OF assms(1)] assms(2-5)] by (simp add: mid_ok_def)

lemma leaf_start:
  assumes "upsert_pre t a h es ps fs ov key val flag path l kvs"
  obtains leaf t1 lo hi A B where "findLeafPage key True t = Some (Inr (l, leaf, path), t1)" "leaf_page leaf kvs"
    "GetPageID leaf = l" "mid_ok t1 a l (set es) ps fs ov" "rootPageID t1 = rootPageID t"
    "leaf_in (pview a) h (rootPageID t) [] None es ps key l lo hi A kvs B"
proof -
  have pre: "db_ok t a h es ps fs ov" "descent (pview a) h (rootPageID t) key path l" "\<exists>p. pview a l = Some p \<and> leaf_page p kvs"
    using assms by (simp_all add: upsert_pre_def)
  obtain leafID leaf path' t1 kvs' lo hi where f: "findLeafPage key True t = Some (Inr (leafID, leaf, path'), t1)"
    "implements t1 (a\<lparr>pheld := (pheld a)(leafID := leaf_latch True)\<rparr>)" "leaf_page leaf kvs'"
    "pview a leafID = Some (norm_page leaf)" "length leaf = PageSize" "leafID \<in> set ps" "GetPageID leaf = leafID"
    "descent (pview a) h (rootPageID t) key path' leafID"
    by (rule findLeafPage_ok [OF pre(1)])
  have eq: "path' = path" "leafID = l" using descent_unique [OF f(8) pre(2)] by simp_all
  have "kvs' = kvs" using pre(3) f(3,4) eq(2) leaf_page_norm [OF f(5)] leaf_page_unique by auto
  moreover obtain lo hi A kvs2 B where li: "leaf_in (pview a) h (rootPageID t) [] None es ps key l lo hi A kvs2 B"
    using tree_hole [OF db_okD(4,5) [OF pre(1)] _ pre(2)] by (auto simp: in_range_def)
  moreover have "kvs2 = kvs" using li pre(3) leaf_page_unique by (auto simp: leaf_in_def)
  ultimately show ?thesis using that f eq mid_start [OF pre(1), of t1 l] by simp
qed

lemma leaf_keys:
  assumes "leaf_in V h i lo hi es ps key l lo' hi' A kvs B" "e \<in> set es" "Key e = key"
  shows "e \<in> set kvs"
  using assms by (auto simp: leaf_in_def in_range_def split: option.splits)

text \<open>A value kept in the leaf, of a key whose cell, if it has one, is kept there too.\<close>

definition inline_write :: "bytes \<Rightarrow> bytes \<Rightarrow> KVCell list \<Rightarrow> bool" where
  "inline_write key val kvs \<longleftrightarrow> length val \<le> MaxInlineValueSize \<and> (\<forall>e \<in> set kvs. Key e = key \<longrightarrow> \<not> IsOverflow e)"

lemma upsert_prefix:
  assumes pre: "upsert_pre t a h es ps fs ov key val flag path l kvs"
    and nc: "\<And>e. e \<in> set kvs \<Longrightarrow> writeConflict (fst (ExtractMVCCKey key)) (snd (ExtractMVCCKey key)) tm (Key e) = None"
  obtains kv xs t3 b fs3 js val' flag' where
    "upsertCell key val flag tm t = (if space_used (map KVCell_Serialize xs) \<le> PageSize
       then rewriteLeaf key val' flag' l (map KVCell_Serialize xs) (tm, t3)
       else onTree tm (splitLeafCells l path (map KVCell_Serialize xs) t3))"
    "mset xs = mset (put kv kvs)" "list_all kv_cell_fits xs" "kv = NewKVCell flag' key val'"
    "mid_ok t3 b l (set (put kv es)) ps fs3 (ov(kv := (js, val)))"
    "\<And>k. k \<in> set ps \<Longrightarrow> pview b k = pview a k" "rootPageID t3 = rootPageID t"
    "length val' = stored_len val" "IsDeleted kv \<longleftrightarrow> flag = KEY_DELETED_FLAG"
    "Flag kv = KEY_DELETED_FLAG \<longleftrightarrow> flag = KEY_DELETED_FLAG \<and> length val \<le> MaxInlineValueSize"
    "pfile b \<le> pfile a + PageSize * length val" "IsOverflow kv \<longleftrightarrow> length val > MaxInlineValueSize"
    "pmore b = pmore a" "inline_write key val kvs \<Longrightarrow> val' = val \<and> flag' = flag \<and>
       (\<exists>leaf. findLeafPage key True t = Some (Inr (l, leaf, path), t3) \<and> length leaf = PageSize)"
proof -
  obtain leaf t1 lo hi A B where f: "findLeafPage key True t = Some (Inr (l, leaf, path), t1)" "leaf_page leaf kvs"
    "GetPageID leaf = l" "mid_ok t1 a l (set es) ps fs ov" "rootPageID t1 = rootPageID t"
    "leaf_in (pview a) h (rootPageID t) [] None es ps key l lo hi A kvs B"
    by (rule leaf_start [OF pre])
  have pr: "db_ok t a h es ps fs ov" "length val < 2 ^ 32" "pfile a div PageSize + length val \<le> 2 ^ 32"
    "length key < 64000" "flag = 0 \<or> flag = KEY_DELETED_FLAG"
    using pre by (simp_all add: upsert_pre_def)
  have ex: "pview a k \<noteq> None" if "k \<in> set ps" for k using tree_pages [OF db_okD(4) [OF pr(1)] that] .
  obtain val' flag' js t2 b2 fs2 where v: "upsertValue val flag tm t1 = Some (Inr (val', flag'), (tm, t2))"
    "mid_ok t2 b2 l (set es) ps fs2 ov" "cell_value (pview b2) (NewKVCell flag' key val') js val"
    "set js \<inter> (set ps \<union> set fs2) = {}" "\<And>e. e \<in> set es \<Longrightarrow> set js \<inter> set (fst (ov e)) = {}"
    "\<And>k. k \<in> set ps \<Longrightarrow> pview b2 k = pview a k" "pmore b2 = pmore a"
    "length val' = (if length val > MaxInlineValueSize then 8 else length val)"
    "IsDeleted (NewKVCell flag' key val') \<longleftrightarrow> flag = KEY_DELETED_FLAG"
    "flag' = KEY_DELETED_FLAG \<longleftrightarrow> flag = KEY_DELETED_FLAG \<and> length val \<le> MaxInlineValueSize"
    "flag' = flag \<or> flag' = flag OR KEY_OVERFLOW_FLAG" "pfile b2 \<le> pfile a + PageSize * length val"
    "IsOverflow (NewKVCell flag' key val') \<longleftrightarrow> length val > MaxInlineValueSize"
    by (rule upsertValue_ok [OF f(4) ex pr(2,3,5), of tm key]) blast+
  define kv where "kv = NewKVCell flag' key val'"
  have kk: "Key kv = key" "Value kv = val'" by (simp_all add: kv_def NewKVCell_def)
  have fk: "Flag kv = KEY_DELETED_FLAG \<longleftrightarrow> flag = KEY_DELETED_FLAG \<and> length val \<le> MaxInlineValueSize"
    using v(10) by (simp add: kv_def NewKVCell_def)
  have fits: "kv_cell_fits kv" using pr(4) v(8) by (simp add: kv_cell_fits_def kk split: if_splits)
  have lf: "list_all kv_cell_fits kvs" using f(2) by (simp add: leaf_page_def)
  have srt: "sorted_wrt (<) (map Key es)" by (rule tree_sorted [OF db_okD(4) [OF pr(1)]])
  have sub: "set kvs \<subseteq> set es" using f(6) by (auto simp: leaf_in_def)
  have inj: "e = e'" if "e \<in> set es" "e' \<in> set es" "Key e = Key e'" for e e'
    using srt that by (metis distinct_map inj_onD strict_sorted_iff)
  obtain u w where uw: "ExtractMVCCKey key = (u, w)" by (cases "ExtractMVCCKey key")
  have root: "rootPageID t3 = rootPageID t" if "implements t3 c" "pmore c = pmore a" for t3 c
    using more_fields(2) [of t3 t] implements_sel(7) [OF that(1)] implements_sel(7) [of t a] pr(1) that(2)
    by (simp add: db_ok_alt)
  have start: "upsertCell key val flag tm t =
      andThen (onTree tm (upsertLoop key (KVCell_Serialize kv) tm leaf (slots leaf) [] False HeaderSize t2))
        (\<lambda>(cells, keyExists, tot) (tm, t).
          let (cells, tot) = (if keyExists then (cells, tot)
              else (cells @ [KVCell_Serialize kv], tot + (SlotSize + length (KVCell_Serialize kv))))
          in if tot \<le> PageSize then rewriteLeaf key val' flag' l cells (tm, t) else onTree tm (splitLeafCells l path cells t))"
    using f(1) v(1) unfolding kv_def by (simp add: upsertCell_def onTree_def Let_def)
  have inl: "val' = val \<and> flag' = flag \<and> t2 = t1" if "inline_write key val kvs"
    using v(1) that by (simp add: upsertValue_def inline_write_def)
  have ll: "length leaf = PageSize" using f(2) by (simp add: leaf_page_def wf_slotted_def)
  show ?thesis
  proof (cases "\<exists>old \<in> set kvs. Key old = key")
    case False
    let ?xs = "kvs @ [kv]"
    have ms: "mset ?xs = mset (put kv kvs)"
      using False by (simp add: mset_put kk filter_True)
    have ne: "{e \<in> set es. Key e \<noteq> key} = set es" using False leaf_keys [OF f(6)] by blast
    have lp: "upsertLoop key (KVCell_Serialize kv) tm leaf (slots leaf) [] False HeaderSize t2 =
        Some (Inr (map KVCell_Serialize kvs, False, space_used (map KVCell_Serialize kvs)), t2)"
      by (rule upsertLoop_fresh [OF f(2) uw]) (use nc uw False in auto)
    have run: "upsertCell key val flag tm t = (if space_used (map KVCell_Serialize ?xs) \<le> PageSize
       then rewriteLeaf key val' flag' l (map KVCell_Serialize ?xs) (tm, t2)
       else onTree tm (splitLeafCells l path (map KVCell_Serialize ?xs) t2))"
      unfolding start lp by (simp add: onTree_def space_used_def add.assoc)
    have "kv \<notin> set es" using ne kk by auto
    then have "mid_ok t2 b2 l (set (put kv es)) ps fs2 (ov(kv := (js, val)))"
      using mid_add [OF v(2) _ v(3) [folded kv_def] v(4,5)] ne by (simp add: set_put kk)
    moreover have "rootPageID t2 = rootPageID t" by (rule root [OF mid_okD(1) [OF v(2)]]) (simp add: v(7))
    moreover have "val' = val \<and> flag' = flag \<and> (\<exists>leaf. findLeafPage key True t = Some (Inr (l, leaf, path), t2) \<and> length leaf = PageSize)"
      if "inline_write key val kvs" using inl [OF that] f(1) ll by blast
    ultimately show ?thesis
      using that [OF run ms _ kv_def, of b2 fs2 js] fits lf v(6-9,12,13) kv_def fk by (simp add: stored_len_def)
  next
    case True
    then obtain old where old: "old \<in> set kvs" "Key old = key" by blast
    then obtain ys zs where sp: "kvs = ys @ old # zs" by (meson split_list)
    have dk: "distinct (map Key kvs)"
      using srt f(6) by (auto simp: leaf_in_def strict_sorted_iff)
    have oth: "Key e \<noteq> key" if "e \<in> set (ys @ zs)" for e
    proof -
      have "Key old \<notin> Key ` set (ys @ zs)" using dk sp by auto
      then show ?thesis using imageI [OF that, of Key] old(2) by metis
    qed
    obtain t3 b3 fs3 where fo: "(if IsOverflow old then freeOverflowChain (Value old) t2 else Some t2) = Some t3"
      "mid_ok t3 b3 l (set es - {old}) ps fs3 ov" "set fs3 = set (fst (ov old)) \<union> set fs2"
      "\<And>k. k \<noteq> 0 \<Longrightarrow> k \<notin> set (fst (ov old)) \<Longrightarrow> pview b3 k = pview b2 k" "pmore b3 = pmore b2"
      "pfile b3 = pfile b2"
      by (rule free_old [OF v(2), of old]) (use old sub in blast)+
    let ?xs = "ys @ kv # zs"
    have ms: "mset ?xs = mset (put kv kvs)"
    proof -
      have "filter (\<lambda>e. Key e \<noteq> key) kvs = ys @ zs" using oth old(2) by (auto simp: sp filter_id_conv)
      then show ?thesis by (simp add: mset_put kk)
    qed
    have ne: "{e \<in> set es. Key e \<noteq> key} = set es - {old}" using old inj sub by blast
    have lp: "upsertLoop key (KVCell_Serialize kv) tm leaf (slots leaf) [] False HeaderSize t2 =
        Some (Inr (map KVCell_Serialize ys @ KVCell_Serialize kv # map KVCell_Serialize zs, True,
          space_used (map KVCell_Serialize ys @ KVCell_Serialize kv # map KVCell_Serialize zs)), t3)"
      using upsertLoop_replace [OF f(2) [unfolded sp] uw old(2), of tm "KVCell_Serialize kv" t2] nc uw oth fo(1) by (auto simp: sp)
    have run: "upsertCell key val flag tm t = (if space_used (map KVCell_Serialize ?xs) \<le> PageSize
       then rewriteLeaf key val' flag' l (map KVCell_Serialize ?xs) (tm, t3)
       else onTree tm (splitLeafCells l path (map KVCell_Serialize ?xs) t3))"
      unfolding start lp by (simp add: onTree_def)
    have oe: "old \<in> set es" using old(1) sub by blast
    have jd: "set js \<inter> set (fst (ov old)) = {}" by (rule v(5) [OF oe])
    have vw: "pview b3 k = pview b2 k" if "k \<in> set ps \<or> k \<in> set js" for k
    proof -
      have "0 \<notin> set js" using cell_value_pages(1) [OF v(3)] .
      then have "k \<noteq> 0" using that mid_okD(8) [OF v(2)] by auto
      moreover have "k \<notin> set (fst (ov old))"
        using that jd values_okD(2) [OF mid_okD(11) [OF v(2)] oe] by blast
      ultimately show ?thesis by (rule fo(4))
    qed
    have "kv \<notin> set es - {old}" using ne kk by auto
    moreover have "cell_value (pview b3) kv js val"
      by (rule cell_value_cong [OF _ v(3) [folded kv_def]]) (use vw in simp)
    moreover have "set js \<inter> (set ps \<union> set fs3) = {}" using v(4) jd fo(3) by blast
    ultimately have "mid_ok t3 b3 l (set (put kv es)) ps fs3 (ov(kv := (js, val)))"
      using mid_add [OF fo(2)] v(5) ne by (simp add: set_put kk)
    moreover have "rootPageID t3 = rootPageID t" by (rule root [OF mid_okD(1) [OF fo(2)]]) (simp add: v(7) fo(5))
    moreover have "list_all kv_cell_fits ?xs" using lf fits by (simp add: sp)
    moreover have "pview b3 k = pview a k" if "k \<in> set ps" for k using vw [of k] v(6) that by simp
    moreover have "val' = val \<and> flag' = flag \<and> (\<exists>leaf. findLeafPage key True t = Some (Inr (l, leaf, path), t3) \<and> length leaf = PageSize)"
      if "inline_write key val kvs"
    proof -
      have "t3 = t2" using fo(1) that old by (auto simp: inline_write_def)
      then show ?thesis using inl [OF that] f(1) ll by blast
    qed
    ultimately show ?thesis
      using that [OF run ms _ kv_def, of b3 fs3 js] v(7-9,12,13) fo(5,6) kv_def fk by (simp add: stored_len_def)
  qed
qed

section \<open>Rewriting the leaf in place\<close>

lemma store_ok_page:
  assumes "store_ok a fs" "l \<noteq> 0" "l \<notin> set fs" "GetPageID p = l"
  shows "store_ok (a\<lparr>pview := (pview a)(l \<mapsto> p)\<rparr>) fs"
proof -
  have "chain GetNextFreePageID ((pview a)(l \<mapsto> p)) i fs = chain GetNextFreePageID (pview a) i fs" for i
    by (rule chain_cong) (use assms(3) in auto)
  then show ?thesis using assms by (auto simp: store_ok_def)
qed

text \<open>Replacing the cells of the leaf l in a state that holds its latch gives a consistent database.\<close>

lemma mid_finish:
  assumes "mid_ok t b l E ps fs ov" "leaf_in V h (rootPageID t) [] None es ps key l lo hi A kvs B"
    and "\<And>k. k \<in> set ps \<Longrightarrow> pview b k = V k" "implements t' (b\<lparr>pview := (pview b)(l \<mapsto> p)\<rparr>)"
    and "leaf_page p kvs'" "GetPageID p = l" "sorted_wrt (<) (map Key kvs')" "\<And>e. e \<in> set kvs' \<Longrightarrow> in_range lo hi (Key e)"
    and "set (A @ kvs' @ B) \<subseteq> E"
  shows "db_ok t' (b\<lparr>pview := (pview b)(l \<mapsto> p)\<rparr>) h (A @ kvs' @ B) ps fs ov"
proof -
  note d = mid_okD [OF assms(1)]
  have "BufferManager.more t' = BufferManager.more t"
    using implements_sel(7) [OF assms(4)] implements_sel(7) [OF d(1)] by simp
  note m = more_fields [OF this]
  have hole: "leaf_hole V h (rootPageID t) [] None ps l lo hi A B" using assms(2) by (simp add: leaf_in_def)
  have tr: "tree_at ((pview b)(l \<mapsto> p)) h (rootPageID t) [] None (A @ kvs' @ B) ps"
    by (rule leaf_holeD [OF hole, where V' = "(pview b)(l \<mapsto> p)", OF _ _ assms(5,7)]) (use assms(3,8) in auto)
  have vo: "values_ok ((pview b)(l \<mapsto> p)) (set (A @ kvs' @ B)) (set ps) (set fs) ov"
  proof (rule values_ok_frame [OF d(11) assms(9)])
    fix e k assume e: "e \<in> set (A @ kvs' @ B)" "k \<in> set (fst (ov e))"
    have eE: "e \<in> E" using e(1) assms(9) by blast
    then show "((pview b)(l \<mapsto> p)) k = pview b k \<and> k \<notin> set ps \<and> k \<notin> set fs"
      using values_okD(2) [OF d(11) eE] e(2) d(10) by auto
  qed
  have "root_is ((pview b)(l \<mapsto> p)) (rootPageID t)" using d(12,16) by (simp add: root_is_def)
  then show ?thesis
    unfolding db_ok_alt
    using assms(4) store_ok_page [OF d(2,12,13) assms(6)] d(3,5-9) m tr vo by simp
qed

lemma space_put:
  assumes "mset xs = mset (put kv kvs)"
  shows "space_used (map KVCell_Serialize xs) =
    space_used (map KVCell_Serialize (filter (\<lambda>e. Key e \<noteq> Key kv) kvs)) + SlotSize + KVCell_Size kv"
proof -
  have "space_used (map KVCell_Serialize xs) = space_used (map KVCell_Serialize (kv # filter (\<lambda>e. Key e \<noteq> Key kv) kvs))"
    by (rule space_used_mset) (simp add: assms mset_put)
  then show ?thesis by simp
qed

definition upsert_room :: "bytes \<Rightarrow> bytes \<Rightarrow> KVCell list \<Rightarrow> bool" where
  "upsert_room key val kvs \<longleftrightarrow>
     space_used (map KVCell_Serialize (filter (\<lambda>e. Key e \<noteq> key) kvs)) + SlotSize + (5 + length key + stored_len val) \<le> PageSize"

text \<open>What the rewrite of the leaf l from the state t leaves in the log and in the table of last LSNs.\<close>

definition write_log ::
  "bytes \<Rightarrow> bytes \<Rightarrow> u8 \<Rightarrow> u32 \<Rightarrow> TransactionManager option \<Rightarrow> BTree \<Rightarrow> TransactionManager option \<Rightarrow> BTree \<Rightarrow> bool" where
  "write_log key val flag l tm t tm' t' \<longleftrightarrow>
     tm' = (if treeWal t then map_option (\<lambda>m. SetLastLSN m (snd (ExtractMVCCKey key)) (currentLSN (wal t))) tm else tm) \<and>
     wal t' = (if treeWal t then snd (Append (wal t) (snd (ExtractMVCCKey key)) l
       (case tm of None \<Rightarrow> 0 | Some m \<Rightarrow> GetLastLSN m (snd (ExtractMVCCKey key)))
       (if flag = KEY_DELETED_FLAG then LogOpDelete else LogOpInsert) key val) else wal t)"

lemma upsert_in_place:
  assumes pre: "upsert_pre t a h es ps fs ov key val flag path l kvs"
    and nc: "\<And>e. e \<in> set kvs \<Longrightarrow> writeConflict (fst (ExtractMVCCKey key)) (snd (ExtractMVCCKey key)) tm (Key e) = None"
    and room: "upsert_room key val kvs"
  obtains tm' t' a' fs' ov' kv where "upsertCell key val flag tm t = Some (Inr (), (tm', t'))"
    "db_ok t' a' h (put kv es) ps fs' ov'" "Key kv = key" "snd (ov' kv) = val" "IsDeleted kv \<longleftrightarrow> flag = KEY_DELETED_FLAG"
    "Flag kv = KEY_DELETED_FLAG \<longleftrightarrow> flag = KEY_DELETED_FLAG \<and> length val \<le> MaxInlineValueSize"
    "\<forall>e. Key e \<noteq> key \<longrightarrow> ov' e = ov e" "\<And>k. k \<in> set ps \<Longrightarrow> k \<noteq> l \<Longrightarrow> pview a' k = pview a k"
    "\<exists>p. pview a' l = Some p \<and> leaf_page p (put kv kvs)"
    "length (Value kv) = stored_len val" "IsOverflow kv \<longleftrightarrow> length val > MaxInlineValueSize"
    "BufferManager.more t' = BufferManager.more t" "inline_write key val kvs \<Longrightarrow> \<exists>leaf t3. findLeafPage key True t = Some (Inr (l, leaf, path), t3) \<and> length leaf = PageSize \<and>
       write_log key val flag l tm t3 tm' t'"
proof -
  obtain kv xs t3 b fs3 js val' flag' where u:
    "upsertCell key val flag tm t = (if space_used (map KVCell_Serialize xs) \<le> PageSize
       then rewriteLeaf key val' flag' l (map KVCell_Serialize xs) (tm, t3)
       else onTree tm (splitLeafCells l path (map KVCell_Serialize xs) t3))"
    "mset xs = mset (put kv kvs)" "list_all kv_cell_fits xs" "kv = NewKVCell flag' key val'"
    "mid_ok t3 b l (set (put kv es)) ps fs3 (ov(kv := (js, val)))"
    "\<And>k. k \<in> set ps \<Longrightarrow> pview b k = pview a k" "rootPageID t3 = rootPageID t"
    "length val' = stored_len val" "IsDeleted kv \<longleftrightarrow> flag = KEY_DELETED_FLAG"
    "Flag kv = KEY_DELETED_FLAG \<longleftrightarrow> flag = KEY_DELETED_FLAG \<and> length val \<le> MaxInlineValueSize"
    "IsOverflow kv \<longleftrightarrow> length val > MaxInlineValueSize"
    "pmore b = pmore a" "inline_write key val kvs \<Longrightarrow> val' = val \<and> flag' = flag \<and>
       (\<exists>leaf. findLeafPage key True t = Some (Inr (l, leaf, path), t3) \<and> length leaf = PageSize)"
    by (rule upsert_prefix [OF pre nc]) blast+
  obtain lo hi A B where li: "leaf_in (pview a) h (rootPageID t) [] None es ps key l lo hi A kvs B"
    by (rule leaf_start [OF pre]) blast
  have kk: "Key kv = key" "KVCell_Size kv = 5 + length key + stored_len val" "length (Value kv) = stored_len val"
    using u(4,8) by (simp_all add: NewKVCell_def KVCell_Size_def)
  have db: "db_ok t a h es ps fs ov" using pre by (simp add: upsert_pre_def)
  note m = mid_okD [OF u(5)]
  have srt: "sorted_wrt (<) (map Key es)" by (rule tree_sorted [OF db_okD(4) [OF db]])
  have sk: "sorted_wrt (<) (map Key (put kv kvs))"
    by (rule sorted_put) (use srt li in \<open>auto simp: leaf_in_def sorted_wrt_append\<close>)
  have sp: "space_used (map KVCell_Serialize xs) \<le> PageSize"
    using room space_put [OF u(2)] kk by (simp add: upsert_room_def)
  have sp': "space_used (map KVCell_Serialize (put kv kvs)) \<le> PageSize"
    using sp space_used_mset [of "map KVCell_Serialize xs" "map KVCell_Serialize (put kv kvs)"] u(2) by simp
  obtain p0 where p0: "pview b l = Some p0" "GetPageID p0 = l"
    using tree_pages [OF db_okD(4) [OF db] m(10)] u(6) [OF m(10)] storeD(3) [OF db_okD(1) [OF db]] by auto
  have fr: "pheld b l = LFree" "l \<notin> ptouched b" using m(3,4) by simp_all
  obtain tm' t' p where r: "rewriteLeaf key val' flag' l (map KVCell_Serialize xs) (tm, t3) = Some (Inr (), (tm', t'))"
    "implements t' (b\<lparr>pview := (pview b)(l \<mapsto> p)\<rparr>)" "leaf_page p (put kv kvs)" "GetPageID p = l"
    "write_log key val' flag' l tm t3 tm' t'"
    unfolding write_log_def using rewriteLeaf_ok [OF m(1) fr p0 u(3) u(2) [symmetric] sk sp' m(6)] by metis
  have pb: "put kv es = A @ put kv kvs @ B"
  proof -
    have "es = A @ kvs @ B" using li by (simp add: leaf_in_def)
    moreover have "put kv (A @ kvs @ B) = A @ put kv kvs @ B"
      by (rule put_between) (use li kk in \<open>auto simp: leaf_in_def in_range_def split: option.splits\<close>)
    ultimately show ?thesis by simp
  qed
  have rg: "in_range lo hi (Key e)" if "e \<in> set (put kv kvs)" for e
    using that li kk by (auto simp: set_put leaf_in_def)
  have "db_ok t' (b\<lparr>pview := (pview b)(l \<mapsto> p)\<rparr>) h (A @ put kv kvs @ B) ps fs3 (ov(kv := (js, val)))"
    by (rule mid_finish [OF u(5) li [folded u(7)] u(6) r(2,3,4) sk rg]) (simp_all add: pb)
  moreover have "\<exists>leaf t3. findLeafPage key True t = Some (Inr (l, leaf, path), t3) \<and> length leaf = PageSize \<and> write_log key val flag l tm t3 tm' t'"
    if "inline_write key val kvs" using u(13) [OF that] r(5) by auto
  moreover have "BufferManager.more t' = BufferManager.more t"
    using implements_sel(7) [OF r(2)] implements_sel(7) [of t a] db u(12) by (simp add: db_ok_alt)
  ultimately show ?thesis using that [of tm' t' _ kv fs3 "ov(kv := (js, val))"] u(1,6,9,10,11) sp r(1,3) kk(1,3) pb by auto
qed
section \<open>Write-write conflicts\<close>

lemma writeConflict_iff:
  "writeConflict u w (Some tm) (Key e) \<noteq> None \<longleftrightarrow> user_key e = u \<and> version e \<noteq> w \<and>
     (GetStatus tm (version e) = TXN_RUNNING \<or> GetStatus tm (version e) = TXN_COMMITED \<and> w < version e)"
  by (auto simp: writeConflict_def user_key_def version_def Let_def split: prod.splits if_splits)

lemma writeConflict_error:
  "writeConflict u w tm k = Some err \<Longrightarrow> \<exists>v. err = ErrConflictRunning u v \<or> err = ErrConflictNewer u v"
  by (auto simp: writeConflict_def Let_def split: prod.splits if_splits option.splits)

lemma upsertLoop_conflict:
  assumes "leaf_page p kvs" "set is \<subseteq> {0..<length kvs}" "ExtractMVCCKey key = (u, w)"
    and "\<And>i. i \<in> set is \<Longrightarrow> Key (kvs ! i) = key \<Longrightarrow> \<not> IsOverflow (kvs ! i)"
    and "find (\<lambda>i. writeConflict u w tm (Key (kvs ! i)) \<noteq> None) is = Some j" "writeConflict u w tm (Key (kvs ! j)) = Some err"
  shows "upsertLoop key cb tm p is cells ke tot t =
    Option.bind (dropUnpin (GetPageID p) False True t) (\<lambda>t. Some (Inl err, t))"
  using assms(2,4,5)
proof (induction "is" arbitrary: cells ke tot)
  case Nil
  then show ?case by simp
next
  case (Cons i "is")
  have i: "i < length kvs" "set is \<subseteq> {0..<length kvs}" using Cons.prems by auto
  note c = leaf_page_cell [OF assms(1) i(1)]
  show ?case
  proof (cases "writeConflict u w tm (Key (kvs ! i))")
    case None
    then have "find (\<lambda>i. writeConflict u w tm (Key (kvs ! i)) \<noteq> None) is = Some j" using Cons.prems(3) by simp
    note ih = Cons.IH [OF i(2) _ this]
    show ?thesis using c None ih Cons.prems(2) by (simp add: assms(3))
  next
    case (Some e)
    then have "j = i" using Cons.prems(3) by simp
    then show ?thesis using c Some assms(6) by (simp add: assms(3))
  qed
qed

lemma find_map_idx: "find P kvs = Some e \<Longrightarrow> \<exists>j. find (\<lambda>i. P (kvs ! i)) [0..<length kvs] = Some j \<and> kvs ! j = e"
proof -
  assume e: "find P kvs = Some e"
  have "find P (map ((!) kvs) is) = map_option ((!) kvs) (find (\<lambda>i. P (kvs ! i)) is)" for "is"
    by (induction "is") auto
  then have "map_option ((!) kvs) (find (\<lambda>i. P (kvs ! i)) [0..<length kvs]) = Some e"
    using e by (metis map_nth)
  then show ?thesis by auto
qed

lemma upsert_conflict:
  assumes pre: "upsert_pre t a h es ps fs ov key val flag path l kvs"
    and inl: "length val \<le> MaxInlineValueSize" "\<And>e. e \<in> set kvs \<Longrightarrow> Key e = key \<Longrightarrow> \<not> IsOverflow e"
    and cf: "find (\<lambda>e. writeConflict (fst (ExtractMVCCKey key)) (snd (ExtractMVCCKey key)) tm (Key e) \<noteq> None) kvs = Some e"
    and err: "writeConflict (fst (ExtractMVCCKey key)) (snd (ExtractMVCCKey key)) tm (Key e) = Some err"
  obtains t' where "upsertCell key val flag tm t = Some (Inl err, (tm, t'))" "implements t' a"
proof -
  obtain leaf t1 lo hi A B where f: "findLeafPage key True t = Some (Inr (l, leaf, path), t1)" "leaf_page leaf kvs"
    "GetPageID leaf = l" "mid_ok t1 a l (set es) ps fs ov" "rootPageID t1 = rootPageID t"
    "leaf_in (pview a) h (rootPageID t) [] None es ps key l lo hi A kvs B"
    by (rule leaf_start [OF pre])
  obtain u w where uw: "ExtractMVCCKey key = (u, w)" by (cases "ExtractMVCCKey key")
  obtain j where j: "find (\<lambda>i. writeConflict u w tm (Key (kvs ! i)) \<noteq> None) (slots leaf) = Some j" "kvs ! j = e"
    using find_map_idx [OF cf] by (auto simp: uw slots_leaf [OF f(2)])
  note m = mid_okD [OF f(4)]
  obtain t' where u: "UnpinPage l False True t1 = Some (Inr (), t')" "implements t' a"
  proof -
    have "\<exists>s'. UnpinPage l False True t1 = Some (Inr (), s') \<and> implements s' (a\<lparr>pheld := ((pheld a)(l := LWrite))(l := LFree), ptouched := ptouched a - {l}\<rparr>)"
      using pool.unpin_write [OF m(1), of l False] m(4) by simp
    moreover have "a\<lparr>pheld := ((pheld a)(l := LWrite))(l := LFree), ptouched := ptouched a - {l}\<rparr> = a"
      using m(3,4) by (auto intro!: pool.equality)
    ultimately show ?thesis using that by auto
  qed
  have "upsertLoop key cb tm leaf (slots leaf) [] False HeaderSize t1 = Some (Inl err, t')" for cb
    by (subst upsertLoop_conflict [OF f(2) _ uw _ j(1)])
      (use inl(2) err j(2) u(1) f(3) in \<open>auto simp: uw dropUnpin_def slots_leaf [OF f(2)]\<close>)
  then have "upsertCell key val flag tm t = Some (Inl err, (tm, t'))"
    using f(1) inl(1) by (simp add: upsertCell_def onTree_def upsertValue_def Let_def)
  then show ?thesis using that u(2) by blast
qed

lemma find_result_other:
  assumes "\<forall>e. Key e \<noteq> key \<longrightarrow> ov' e = ov e" "k \<noteq> key"
  shows "find_result ov' (find (\<lambda>e. Key e = k) es) = find_result ov (find (\<lambda>e. Key e = k) es)"
proof (cases "find (\<lambda>e. Key e = k) es")
  case (Some e)
  then have "Key e = k" by (auto simp: find_Some_iff)
  then show ?thesis using Some assms by (simp add: find_result_def)
qed (simp add: find_result_def)

section \<open>Properties of the upserts\<close>

text \<open>C17: Insert refines the update of a sorted map. On a consistent database, when the leaf of the key
  has room and no cell of it is in conflict, Insert succeeds and leaves a consistent database whose
  cells are the old ones with the cell of the key replaced or added in order, whose value for the key
  is the inserted value and whose values for all other keys are unchanged.\<close>

theorem Insert_refines:
  assumes "upsert_pre t a h es ps fs ov key val 0 path l kvs" "upsert_room key val kvs"
    and "\<forall>e \<in> set kvs. writeConflict (fst (ExtractMVCCKey key)) (snd (ExtractMVCCKey key)) tm (Key e) = None"
  shows "\<exists>tm' t' a' fs' ov' kv. Insert key val tm t = Some (Inr (), (tm', t')) \<and>
    db_ok t' a' h (put kv es) ps fs' ov' \<and> Key kv = key \<and> \<not> IsDeleted kv \<and> snd (ov' kv) = val \<and>
    (\<forall>e. Key e \<noteq> key \<longrightarrow> ov' e = ov e)"
proof -
  obtain tm' t' a' fs' ov' kv where "upsertCell key val 0 tm t = Some (Inr (), (tm', t'))"
    "db_ok t' a' h (put kv es) ps fs' ov'" "Key kv = key" "snd (ov' kv) = val" "IsDeleted kv \<longleftrightarrow> 0 = KEY_DELETED_FLAG"
    "\<forall>e. Key e \<noteq> key \<longrightarrow> ov' e = ov e"
    by (rule upsert_in_place [OF assms(1) _ assms(2), of tm]) (use assms(3) in blast)+
  then show ?thesis unfolding Insert_def by (auto simp: flag_values)
qed

lemma one_leaf_pre:
  assumes d: "db_ok (one_leaf p) (abs_pool (one_leaf p)) 0 kvs [1] [] ov" and len: "length p = PageSize"
    and "length key < 64000" "length val < 2000" "flag = 0 \<or> flag = KEY_DELETED_FLAG"
  shows "upsert_pre (one_leaf p) (abs_pool (one_leaf p)) 0 kvs [1] [] ov key val flag [] 1 kvs"
    "pfile (abs_pool (one_leaf p)) = 8192"
proof -
  have r: "rootPageID (one_leaf p) = 1" "length (fbytes (pager (one_leaf p))) = 4096 + length p"
    by (simp_all add: one_leaf_def) (simp_all add: NewBufferManager_def NewPager_def OpenFile_def BufferManager.defs BTree.defs)
  show "upsert_pre (one_leaf p) (abs_pool (one_leaf p)) 0 kvs [1] [] ov key val flag [] 1 kvs"
    using d assms(3-5) r len db_okD(4) [OF d] by (auto simp: upsert_pre_def)
  show "pfile (abs_pool (one_leaf p)) = 8192" using r(2) len by simp
qed

lemma demo_pre:
  assumes "length key < 64000" "length val < 1000" "flag = 0 \<or> flag = KEY_DELETED_FLAG"
  shows "upsert_pre (one_leaf demo_leaf) (abs_pool (one_leaf demo_leaf)) 0 [demo_cell] [1] [] (\<lambda>kv. ([], Value kv))
    key val flag [] 1 [demo_cell]"
  by (rule one_leaf_pre(1) [OF demo_ok]) (use assms in \<open>simp_all add: demo_leaf_def\<close>)

lemma demo_size: "KVCell_Size demo_cell = 16" "Key demo_cell = BuildMVCCKey [107] 5"
  by (simp_all add: demo_cell_def NewKVCell_def KVCell_Size_def BuildMVCCKey_layout)

theorem Insert_refines_witness:
  "\<exists>tm' t'. Insert (BuildMVCCKey [107] 9) [120] None (one_leaf demo_leaf) = Some (Inr (), (tm', t'))"
proof -
  have "upsert_room (BuildMVCCKey [107] 9) [120] [demo_cell]"
    by (simp add: upsert_room_def stored_len_def demo_size BuildMVCCKey_layout)
  then show ?thesis
    using Insert_refines [OF demo_pre [of "BuildMVCCKey [107] 9" "[120]" 0], of None]
    by (auto simp: writeConflict_def BuildMVCCKey_layout Let_def)
qed

text \<open>A written key reads back. After a successful Insert of a value, Find of the key returns exactly
  that value (also when it went to overflow pages), and Find of every other key returns what it
  returned before.\<close>

lemma insert_then_find:
  assumes "upsert_pre t a h es ps fs ov key val 0 path l kvs" "upsert_room key val kvs"
    and "\<forall>e \<in> set kvs. writeConflict (fst (ExtractMVCCKey key)) (snd (ExtractMVCCKey key)) tm (Key e) = None"
  shows "\<exists>tm' t'. Insert key val tm t = Some (Inr (), (tm', t')) \<and>
    (\<exists>t2. Find key t' = Some (Inr val, t2)) \<and>
    (\<forall>k. k \<noteq> key \<longrightarrow> (\<exists>r t1 t2. Find k t = Some (r, t1) \<and> Find k t' = Some (r, t2)))"
proof -
  have db: "db_ok t a h es ps fs ov" using assms(1) by (simp add: upsert_pre_def)
  obtain tm' t' a' fs' ov' kv where u: "upsertCell key val 0 tm t = Some (Inr (), (tm', t'))"
    "db_ok t' a' h (put kv es) ps fs' ov'" "Key kv = key" "snd (ov' kv) = val" "IsDeleted kv \<longleftrightarrow> 0 = KEY_DELETED_FLAG"
    "\<forall>e. Key e \<noteq> key \<longrightarrow> ov' e = ov e"
    by (rule upsert_in_place [OF assms(1) _ assms(2), of tm]) (use assms(3) in blast)+
  note fp = find_put [OF tree_sorted [OF db_okD(4) [OF db]], of _ kv]
  have "\<exists>t2. Find key t' = Some (Inr val, t2)"
    using Find_ok [OF u(2), of key] fp [of key] u(3-5) by (auto simp: find_result_def flag_values)
  moreover have "\<exists>r t1 t2. Find k t = Some (r, t1) \<and> Find k t' = Some (r, t2)" if "k \<noteq> key" for k
    using Find_ok [OF u(2), of k] Find_ok [OF db, of k] fp [of k] find_result_other [OF u(6) that, of es] u(3) that by auto
  ultimately show ?thesis using u(1) by (auto simp: Insert_def)
qed

text \<open>C18: A deleted key is gone. On a consistent database of version keys, when the leaf of the key has room for the
  tombstone and holds no cell in conflict, Delete succeeds; after it Find of the key reports "key not found", a
  versioned read by the deleting transaction reports "deleted", and Find of every other key returns
  what it returned before.\<close>

theorem delete_then_find:
  assumes "upsert_pre t a h es ps fs ov key [] KEY_DELETED_FLAG path l kvs" "upsert_room key [] kvs"
    and "\<forall>e \<in> set kvs. writeConflict (fst (ExtractMVCCKey key)) (snd (ExtractMVCCKey key)) tm (Key e) = None"
    and "key = BuildMVCCKey u w" "versioned es"
  shows "\<exists>tm' t'. Delete key tm t = Some (Inr (), (tm', t')) \<and>
    (\<exists>t2. Find key t' = Some (Inl ErrKeyNotFound, t2)) \<and>
    (\<forall>st. \<exists>t2. FindLatest key (Some st) t' = Some (Inl ErrKeyDeleted, t2)) \<and>
    (\<forall>k. k \<noteq> key \<longrightarrow> (\<exists>r t1 t2. Find k t = Some (r, t1) \<and> Find k t' = Some (r, t2)))"
proof -
  have db: "db_ok t a h es ps fs ov" using assms(1) by (simp add: upsert_pre_def)
  obtain tm' t' a' fs' ov' kv where u: "upsertCell key [] KEY_DELETED_FLAG tm t = Some (Inr (), (tm', t'))"
    "db_ok t' a' h (put kv es) ps fs' ov'" "Key kv = key" "IsDeleted kv" "Flag kv = KEY_DELETED_FLAG"
    "\<forall>e. Key e \<noteq> key \<longrightarrow> ov' e = ov e"
    by (rule upsert_in_place [OF assms(1) _ assms(2), of tm]) (use assms(3) in auto)
  note fp = find_put [OF tree_sorted [OF db_okD(4) [OF db]], of _ kv]
  have "\<exists>t2. Find key t' = Some (Inl ErrKeyNotFound, t2)"
    using Find_ok [OF u(2), of key] fp [of key] u(3,4) by (auto simp: find_result_def)
  moreover have "\<exists>t2. FindLatest key (Some st) t' = Some (Inl ErrKeyDeleted, t2)" for st
  proof -
    have v: "versioned (put kv es)"
      using assms(4,5) u(3) by (auto simp: versioned_def set_put user_key_def version_def)
    have "kv \<in> set (put kv es)" by (simp add: set_put)
    from own_version_read [OF u(2) v this, of u w st] show ?thesis using u(3,5) assms(4) by auto
  qed
  moreover have "\<exists>r t1 t2. Find k t = Some (r, t1) \<and> Find k t' = Some (r, t2)" if "k \<noteq> key" for k
    using Find_ok [OF u(2), of k] Find_ok [OF db, of k] fp [of k] find_result_other [OF u(6) that, of es] u(3) that by auto
  ultimately show ?thesis using u(1) by (auto simp: Delete_def)
qed

theorem delete_then_find_witness:
  "\<exists>tm' t' t2. Delete (BuildMVCCKey [107] 5) None (one_leaf demo_leaf) = Some (Inr (), (tm', t')) \<and>
     Find (BuildMVCCKey [107] 5) t' = Some (Inl ErrKeyNotFound, t2)"
proof -
  have "upsert_room (BuildMVCCKey [107] 5) [] [demo_cell]"
    by (simp add: upsert_room_def stored_len_def demo_size BuildMVCCKey_layout)
  moreover have "versioned [demo_cell]"
    by (simp add: versioned_def demo_size user_key_def version_def)
  ultimately show ?thesis
    using delete_then_find [OF demo_pre [of "BuildMVCCKey [107] 5" "[]" KEY_DELETED_FLAG], of None "[107]" 5]
    by (auto simp: writeConflict_def BuildMVCCKey_layout Let_def)
qed

text \<open>C7: First updater wins. If the leaf of the key holds a version of the same user key written by
  another transaction that is still running, or that has committed with a greater id than the writer, a
  write is rejected with a conflict error and changes nothing: every page and latch is as before. This is for values of
  at most 1024 bytes and a leaf in which the writer's own version, if there is one, is stored inline: a larger value has
  its overflow pages allocated before the conflict is found.\<close>

theorem write_conflict_rejected:
  assumes "upsert_pre t a h es ps fs ov (BuildMVCCKey u w) val flag path l kvs" "length val \<le> MaxInlineValueSize"
    and "\<forall>e \<in> set kvs. Key e = BuildMVCCKey u w \<longrightarrow> \<not> IsOverflow e"
    and "e \<in> set kvs" "user_key e = u" "version e \<noteq> w"
    and "GetStatus tm (version e) = TXN_RUNNING \<or> GetStatus tm (version e) = TXN_COMMITED \<and> w < version e"
  shows "\<exists>t' err v. upsertCell (BuildMVCCKey u w) val flag (Some tm) t = Some (Inl err, (Some tm, t')) \<and>
    (err = ErrConflictRunning u v \<or> err = ErrConflictNewer u v) \<and> implements t' a"
proof -
  let ?P = "\<lambda>e. writeConflict u w (Some tm) (Key e) \<noteq> None"
  have "?P e" unfolding writeConflict_iff using assms(5-7) by blast
  then have "find ?P kvs \<noteq> None" using assms(4) unfolding find_None_iff by blast
  then obtain c where c: "find ?P kvs = Some c" by blast
  then obtain err where er: "writeConflict u w (Some tm) (Key c) = Some err" by (auto simp: find_Some_iff)
  obtain t' where "upsertCell (BuildMVCCKey u w) val flag (Some tm) t = Some (Inl err, (Some tm, t'))" "implements t' a"
    by (rule upsert_conflict [OF assms(1,2), of "Some tm" c err]) (use assms(3) c er in auto)
  then show ?thesis using writeConflict_error [OF er] by blast
qed

theorem write_conflict_rejected_witness:
  "\<exists>t' err. upsertCell (BuildMVCCKey [107] 9) [120] 0 (Some (SetStatus NewTransactionManager 5 TXN_RUNNING)) (one_leaf demo_leaf) =
     Some (Inl err, (Some (SetStatus NewTransactionManager 5 TXN_RUNNING), t'))"
proof -
  have "user_key demo_cell = [107]" "version demo_cell = 5" by (simp_all add: user_key_def version_def demo_size)
  then show ?thesis
    using write_conflict_rejected [OF demo_pre [of "BuildMVCCKey [107] 9" "[120]" 0], of demo_cell
        "SetStatus NewTransactionManager 5 TXN_RUNNING"]
    by (auto simp: BuildMVCCKey_layout demo_cell_def NewKVCell_def IsOverflow_def)
qed

end
