(* ===== verification/Tree_Split.thy ===== *)
theory Tree_Split
  imports Tree_Update
begin

text \<open>
  Splits. When a leaf has no room, \<^verbatim>\<open>splitLeafCells\<close> moves the upper half of its cells to a new page
  and \<^verbatim>\<open>insertIntoParent\<close> passes the separator up the search path, splitting internal nodes
  (\<^verbatim>\<open>splitInternal\<close>) and growing a new root where needed. The theory shows that the result is a
  search tree with the same cells plus the new one.
\<close>

section \<open>The children of a node\<close>

definition nxt :: "bytes option \<Rightarrow> KeyCell list \<Rightarrow> bytes option" where
  "nxt hi ks = (case ks of [] \<Rightarrow> hi | k # _ \<Rightarrow> Some (kcKey k))"

lemma nxt_simps [simp]: "nxt hi [] = hi" "nxt hi (k # ks) = Some (kcKey k)"
  by (simp_all add: nxt_def)

fun kids :: "(u32 \<Rightarrow> page option) \<Rightarrow> nat \<Rightarrow> bytes \<Rightarrow> bytes option \<Rightarrow> KeyCell list \<Rightarrow> KVCell list list \<Rightarrow> u32 list list \<Rightarrow> bool" where
  "kids V d lo hi [] ess pss \<longleftrightarrow> ess = [] \<and> pss = []"
| "kids V d lo hi (k # ks) ess pss \<longleftrightarrow>
     ess \<noteq> [] \<and> pss \<noteq> [] \<and> tree_at V d (ChildPageID k) lo (nxt hi ks) (hd ess) (hd pss) \<and>
     kids V d (kcKey (hd ks)) hi ks (tl ess) (tl pss)"

lemma kids_length: "kids V d lo hi ks ess pss \<Longrightarrow> length ess = length ks \<and> length pss = length ks"
proof (induction ks arbitrary: lo ess pss)
  case Nil
  then show ?case by simp
next
  case (Cons k ks)
  then show ?case by (cases ess; cases pss) auto
qed

lemma kids_Nil [simp]: "kids V d lo hi ks [] pss \<longleftrightarrow> ks = [] \<and> pss = []" "kids V d lo hi ks ess [] \<longleftrightarrow> ks = [] \<and> ess = []"
  by (cases ks; simp)+

lemma kids_Cons [simp]:
  "kids V d lo hi (k # ks) (es # ess) (ps # pss) \<longleftrightarrow>
     tree_at V d (ChildPageID k) lo (nxt hi ks) es ps \<and> kids V d (kcKey (hd ks)) hi ks ess pss"
  by simp

declare kids.simps(2) [simp del]

lemma kids_append:
  assumes "length ess1 = length xs" "length pss1 = length xs"
  shows "kids V d lo hi (xs @ ys) (ess1 @ ess2) (pss1 @ pss2) \<longleftrightarrow>
    kids V d lo (nxt hi ys) xs ess1 pss1 \<and> kids V d (if xs = [] then lo else kcKey (hd ys)) hi ys ess2 pss2"
  using assms
proof (induction xs arbitrary: lo ess1 pss1)
  case Nil
  then show ?case by simp
next
  case (Cons x xs)
  obtain es ess' ps pss' where e: "ess1 = es # ess'" "pss1 = ps # pss'" "length ess' = length xs" "length pss' = length xs"
    using Cons.prems by (cases ess1; cases pss1) auto
  show ?case
  proof (cases xs)
    case Nil
    then show ?thesis using e by (cases ys) auto
  next
    case (Cons x' xs')
    then show ?thesis using e Cons.IH [OF e(3,4), of "kcKey x'"] by simp
  qed
qed

lemma kids_nth:
  "kids V d lo hi ks ess pss \<longleftrightarrow> length ess = length ks \<and> length pss = length ks \<and>
     (\<forall>j < length ks. tree_at V d (ChildPageID (ks ! j)) (low_of lo ks j) (high_of hi ks j) (ess ! j) (pss ! j))"
proof (induction ks arbitrary: lo ess pss)
  case Nil
  then show ?case by auto
next
  case (Cons k ks)
  show ?case
  proof (cases "length ess = Suc (length ks) \<and> length pss = Suc (length ks)")
    case False
    then show ?thesis using kids_length [of V d lo hi "k # ks" ess pss] by auto
  next
    case True
    then obtain es ess' ps pss' where e: "ess = es # ess'" "pss = ps # pss'" by (cases ess; cases pss) auto
    have h: "high_of hi (k # ks) (Suc j) = high_of hi ks j" "high_of hi (k # ks) 0 = nxt hi ks" for j
      by (simp_all add: high_of_def nxt_def split: list.split)
    have l: "low_of lo (k # ks) 0 = lo" by (simp add: low_of_def)
    have l': "low_of lo (k # ks) (Suc j) = low_of (kcKey (hd ks)) ks j" if "j < length ks" for j
      using that by (cases ks) (auto simp: low_of_def nth_Cons split: nat.split)
    show ?thesis
      using True Cons.IH [of "kcKey (hd ks)" ess' pss'] l'
      by (auto simp: e h l less_Suc_eq_0_disj)
  qed
qed

definition node_ok :: "bytes \<Rightarrow> bytes option \<Rightarrow> KeyCell list \<Rightarrow> bool" where
  "node_ok lo hi ks \<longleftrightarrow> ks \<noteq> [] \<and> kcKey (hd ks) = [] \<and> sorted_wrt (<) (map kcKey ks) \<and>
     (\<forall>k \<in> set (tl ks). lo < kcKey k \<and> in_range lo hi (kcKey k))"

lemma set_tl_nth: "set (tl xs) = {xs ! j |j. 0 < j \<and> j < length xs}"
proof (cases xs)
  case (Cons x ys)
  show ?thesis
  proof (intro set_eqI iffI)
    fix y assume "y \<in> set (tl xs)"
    then obtain i where "i < length ys" "y = ys ! i" using Cons by (auto simp: in_set_conv_nth)
    then show "y \<in> {xs ! j |j. 0 < j \<and> j < length xs}" using Cons by (auto intro!: exI [of _ "Suc i"])
  next
    fix y assume "y \<in> {xs ! j |j. 0 < j \<and> j < length xs}"
    then obtain j where "0 < j" "j < length xs" "y = xs ! j" by blast
    then show "y \<in> set (tl xs)" using Cons by (cases j) auto
  qed
qed simp

lemma tree_at_Suc:
  "tree_at V (Suc d) i lo hi es ps \<longleftrightarrow> i \<noteq> 0 \<and> (\<exists>p ks ess pss. V i = Some p \<and> node_page p ks \<and> node_ok lo hi ks \<and>
     kids V d lo hi ks ess pss \<and> es = concat ess \<and> ps = i # concat pss)"
  unfolding tree_at.simps kids_nth node_ok_def set_tl_nth by (auto; blast)

section \<open>A subtree in its context\<close>

text \<open>\<open>hole V h r path c d lo hi A B PA PB\<close>: in the tree with root r and height h, the search path leads
  to page c, at height d, whose subtree covers lo to hi; A and B are the cells left and right of it, \<open>PA\<close>
  and \<open>PB\<close> the pages of the rest of the tree.\<close>

inductive hole ::
  "(u32 \<Rightarrow> page option) \<Rightarrow> nat \<Rightarrow> u32 \<Rightarrow> u32 list \<Rightarrow> u32 \<Rightarrow> nat \<Rightarrow> bytes \<Rightarrow> bytes option \<Rightarrow>
   KVCell list \<Rightarrow> KVCell list \<Rightarrow> u32 list \<Rightarrow> u32 list \<Rightarrow> bool" for V h r where
  hole_root: "hole V h r [] r h [] None [] [] [] []"
| hole_child: "\<lbrakk>hole V h r path m (Suc d) lo hi A B PA PB; m \<noteq> 0; V m = Some p; node_page p (ks1 @ k # ks2);
     node_ok lo hi (ks1 @ k # ks2); kids V d lo (Some (kcKey k)) ks1 ess1 pss1;
     kids V d (kcKey (hd ks2)) hi ks2 ess2 pss2\<rbrakk> \<Longrightarrow>
   hole V h r (path @ [m]) (ChildPageID k) d (if ks1 = [] then lo else kcKey k) (nxt hi ks2)
     (A @ concat ess1) (concat ess2 @ B) (PA @ m # concat pss1) (concat pss2 @ PB)"

lemma hole_plug:
  assumes "hole V h r path c d lo hi A B PA PB" "tree_at V d c lo hi es ps"
  shows "tree_at V h r [] None (A @ es @ B) (PA @ ps @ PB)"
  using assms
proof (induction arbitrary: es ps)
  case hole_root
  then show ?case by simp
next
  case (hole_child path m d lo hi A B PA PB p ks1 k ks2 ess1 pss1 ess2 pss2)
  have l: "length ess1 = length ks1" "length pss1 = length ks1" using kids_length hole_child.hyps(6) by blast+
  have "kids V d lo hi (ks1 @ k # ks2) (ess1 @ es # ess2) (pss1 @ ps # pss2)"
    using kids_append [OF l, of V d lo hi "k # ks2" "es # ess2" "ps # pss2"] hole_child.hyps(6,7) hole_child.prems by auto
  then have "tree_at V (Suc d) m lo hi (concat (ess1 @ es # ess2)) (m # concat (pss1 @ ps # pss2))"
    unfolding tree_at_Suc using hole_child.hyps(2-5) by blast
  from hole_child.IH [OF this] show ?case by simp
qed

lemma kids_cong:
  "(\<And>x. x \<in> set (concat pss) \<Longrightarrow> V x = V' x) \<Longrightarrow> kids V d lo hi ks ess pss \<Longrightarrow> kids V' d lo hi ks ess pss"
proof (induction ks arbitrary: lo ess pss)
  case Nil
  then show ?case by simp
next
  case (Cons k ks)
  have "length ess = Suc (length ks)" "length pss = Suc (length ks)" using kids_length [OF Cons.prems(2)] by simp_all
  then obtain es ess' ps pss' where e: "ess = es # ess'" "pss = ps # pss'" by (auto simp: length_Suc_conv)
  have "tree_at V' d (ChildPageID k) lo (nxt hi ks) es ps"
    by (rule tree_at_cong [of ps V]) (use Cons.prems e in auto)
  moreover have "kids V' d (kcKey (hd ks)) hi ks ess' pss'"
    by (rule Cons.IH) (use Cons.prems e in simp_all)
  ultimately show ?case using e by simp
qed

lemma hole_frame:
  assumes "hole V h r path c d lo hi A B PA PB" "\<And>x. x \<in> set PA \<union> set PB \<Longrightarrow> V' x = V x"
  shows "hole V' h r path c d lo hi A B PA PB"
  using assms
proof (induction)
  case hole_root
  show ?case by (rule hole.hole_root)
next
  case (hole_child path m d lo hi A B PA PB p ks1 k ks2 ess1 pss1 ess2 pss2)
  show ?case
  proof (rule hole.hole_child [OF _ hole_child.hyps(2) _ hole_child.hyps(4,5)])
    show "hole V' h r path m (Suc d) lo hi A B PA PB" by (rule hole_child.IH) (use hole_child.prems in auto)
    show "V' m = Some p" using hole_child.hyps(3) hole_child.prems [of m] by simp
    show "kids V' d lo (Some (kcKey k)) ks1 ess1 pss1"
      by (rule kids_cong [OF _ hole_child.hyps(6)]) (use hole_child.prems in auto)
    show "kids V' d (kcKey (hd ks2)) hi ks2 ess2 pss2"
      by (rule kids_cong [OF _ hole_child.hyps(7)]) (use hole_child.prems in auto)
  qed
qed

lemma hole_descend:
  assumes "hole V h r path c d lo hi A B PA PB" "tree_at V d c lo hi es ps" "in_range lo hi key" "descent V d c key path' l"
  shows "\<exists>lo' hi' A' B' PA' PB' es' ps'. hole V h r (path @ path') l 0 lo' hi' A' B' PA' PB' \<and>
    tree_at V 0 l lo' hi' es' ps' \<and> in_range lo' hi' key \<and> A @ es @ B = A' @ es' @ B' \<and> PA @ ps @ PB = PA' @ ps' @ PB'"
  using assms
proof (induction d arbitrary: path c lo hi A B PA PB es ps path')
  case 0
  then have "path' = []" "l = c" by simp_all
  then show ?case using 0 by (simp del: tree_at.simps) blast
next
  case (Suc d)
  obtain p ks ess pss j where c: "V c = Some p" "node_page p ks" "j < length ks" "length ess = length ks"
    "length pss = length ks" "es = concat ess" "ps = c # concat pss"
    "nextChild p key = Some (ChildPageID (ks ! j))" "in_range (low_of lo ks j) (high_of hi ks j) key"
    "tree_at V d (ChildPageID (ks ! j)) (low_of lo ks j) (high_of hi ks j) (ess ! j) (pss ! j)"
    "\<forall>m < length ks. tree_at V d (ChildPageID (ks ! m)) (low_of lo ks m) (high_of hi ks m) (ess ! m) (pss ! m)"
    "sorted_wrt (<) (map kcKey ks)" "\<forall>m. 0 < m \<and> m < length ks \<longrightarrow> lo < kcKey (ks ! m) \<and> in_range lo hi (kcKey (ks ! m))"
    "kcKey (hd ks) = []"
    by (rule tree_child [OF Suc.prems(2,3)])
  obtain path2 where d: "path' = c # path2" "descent V d (ChildPageID (ks ! j)) key path2 l"
    using Suc.prems(4) c(1,8) by auto
  have no: "node_ok lo hi ks" unfolding node_ok_def set_tl_nth using c(3,12,13,14) by auto
  have kd: "kids V d lo hi ks ess pss" unfolding kids_nth using c(4,5,11) by blast
  define ks1 ks2 k where ks: "ks1 = take j ks" "ks2 = drop (Suc j) ks" "k = ks ! j"
  have sp: "ks = ks1 @ k # ks2" using c(3) by (simp add: ks id_take_nth_drop)
  have es: "ess = take j ess @ ess ! j # drop (Suc j) ess" "pss = take j pss @ pss ! j # drop (Suc j) pss"
    using c(3-5) by (simp_all add: id_take_nth_drop)
  have l: "length (take j ess) = length ks1" "length (take j pss) = length ks1" using c(3-5) by (simp_all add: ks)
  have "kids V d lo hi (ks1 @ k # ks2) (take j ess @ ess ! j # drop (Suc j) ess) (take j pss @ pss ! j # drop (Suc j) pss)"
    using kd es sp by metis
  then have kk: "kids V d lo (Some (kcKey k)) ks1 (take j ess) (take j pss)"
    "kids V d (kcKey (hd ks2)) hi ks2 (drop (Suc j) ess) (drop (Suc j) pss)"
    using kids_append [OF l, of V d lo hi "k # ks2" "ess ! j # drop (Suc j) ess" "pss ! j # drop (Suc j) pss"] by auto
  have b: "low_of lo ks j = (if ks1 = [] then lo else kcKey k)" "high_of hi ks j = nxt hi ks2"
    using c(3) by (auto simp: low_of_def high_of_def ks nxt_def split: list.split)
      (metis Cons_nth_drop_Suc list.distinct(1) list.inject drop_eq_Nil not_le)+
  have hc: "hole V h r (path @ [c]) (ChildPageID k) d (low_of lo ks j) (high_of hi ks j) (A @ concat (take j ess))
      (concat (drop (Suc j) ess) @ B) (PA @ c # concat (take j pss)) (concat (drop (Suc j) pss) @ PB)"
    unfolding b by (rule hole_child [OF Suc.prems(1) tree_at_nonzero [OF Suc.prems(2)] c(1) _ _ kk]) (use c(2) no sp in auto)
  have eq: "A @ es @ B = (A @ concat (take j ess)) @ ess ! j @ (concat (drop (Suc j) ess) @ B)"
    "PA @ ps @ PB = (PA @ c # concat (take j pss)) @ pss ! j @ (concat (drop (Suc j) pss) @ PB)"
    using concat_split_nth [of j ess] concat_split_nth [of j pss] c(3-7) by simp_all
  show ?case
    using Suc.IH [OF hc _ c(9), of "ess ! j" "pss ! j" path2] c(10) d eq by (simp add: ks del: tree_at.simps) 
qed
section \<open>Inserting a separator and splitting a node\<close>

lemma node_insert:
  assumes "node_ok lo hi (ks1 @ k # ks2)" "(if ks1 = [] then lo else kcKey k) < kcKey c"
    and "in_range (if ks1 = [] then lo else kcKey k) (nxt hi ks2) (kcKey c)"
  shows "node_ok lo hi (ks1 @ k # c # ks2)"
proof -
  have n: "kcKey (hd (ks1 @ k # ks2)) = []" "sorted_wrt (<) (map kcKey (ks1 @ k # ks2))"
    "\<And>x. x \<in> set (tl (ks1 @ k # ks2)) \<Longrightarrow> lo < kcKey x \<and> in_range lo hi (kcKey x)"
    using assms(1) by (auto simp: node_ok_def)
  have lo: "lo < kcKey c"
  proof (cases ks1)
    case (Cons x xs)
    then have "lo < kcKey k" using n(3) [of k] by simp
    then show ?thesis using assms(2) Cons by simp
  qed (use assms(2) in simp)
  have kc: "kcKey k < kcKey c"
  proof (cases ks1)
    case Nil
    then have "kcKey k = []" using n(1) by simp
    moreover have "kcKey c \<noteq> []" using lo by auto
    ultimately show ?thesis by (cases "kcKey c") auto
  qed (use assms(2) in simp)
  have hi: "in_range lo hi (kcKey c)" and right: "\<forall>x \<in> set ks2. kcKey c < kcKey x"
  proof -
    have s2: "sorted_wrt (<) (map kcKey ks2)" using n(2) by (simp add: sorted_wrt_append)
    show "\<forall>x \<in> set ks2. kcKey c < kcKey x"
    proof (cases ks2)
      case (Cons y ys)
      then have "kcKey c < kcKey y" using assms(3) by (simp add: in_range_def)
      then show ?thesis using s2 Cons by (auto dest: less_trans)
    qed simp
    show "in_range lo hi (kcKey c)"
    proof (cases ks2)
      case Nil
      then show ?thesis using assms(3) lo by (simp add: in_range_def)
    next
      case (Cons y ys)
      have "in_range lo hi (kcKey y)" using n(3) [of y] Cons by (cases ks1) auto
      moreover have "kcKey c < kcKey y" using assms(3) Cons by (simp add: in_range_def)
      ultimately show ?thesis using lo by (auto simp: in_range_def split: option.splits)
    qed
  qed
  have "sorted_wrt (<) (map kcKey (ks1 @ k # c # ks2))"
    using n(2) kc right by (fastforce simp: sorted_wrt_append dest: less_trans)
  moreover have "kcKey (hd (ks1 @ k # c # ks2)) = []" using n(1) by (cases ks1) auto
  moreover have "\<forall>x \<in> set (tl (ks1 @ k # c # ks2)). lo < kcKey x \<and> in_range lo hi (kcKey x)"
    using n(3) lo hi by (cases ks1) auto
  ultimately show ?thesis by (simp add: node_ok_def)
qed

lemma kids_insert:
  assumes "kids V d lo (Some (kcKey k)) ks1 ess1 pss1" "kids V d (kcKey (hd ks2)) hi ks2 ess2 pss2"
    and "tree_at V d (ChildPageID k) (if ks1 = [] then lo else kcKey k) (Some (kcKey c)) es1 ps1"
    and "tree_at V d (ChildPageID c) (kcKey c) (nxt hi ks2) es2 ps2"
  shows "kids V d lo hi (ks1 @ k # c # ks2) (ess1 @ es1 # es2 # ess2) (pss1 @ ps1 # ps2 # pss2)"
proof -
  have l: "length ess1 = length ks1" "length pss1 = length ks1" using kids_length [OF assms(1)] by blast+
  show ?thesis using kids_append [OF l, of V d lo hi "k # c # ks2" "es1 # es2 # ess2" "ps1 # ps2 # pss2"] assms by auto
qed

lemma node_split:
  assumes "node_ok lo hi (xs @ m # ys)" "xs \<noteq> []"
  shows "node_ok lo (Some (kcKey m)) xs" "node_ok (kcKey m) hi (NewKeyCell (ChildPageID m) [] # ys)"
    "lo < kcKey m" "in_range lo hi (kcKey m)"
proof -
  have n: "kcKey (hd xs) = []" "sorted_wrt (<) (map kcKey (xs @ m # ys))"
    "\<And>x. x \<in> set (tl xs) \<union> set (m # ys) \<Longrightarrow> lo < kcKey x \<and> in_range lo hi (kcKey x)"
    using assms by (auto simp: node_ok_def)
  show "lo < kcKey m" "in_range lo hi (kcKey m)" using n(3) by simp_all
  have l: "\<forall>x \<in> set xs. kcKey x < kcKey m" "\<forall>y \<in> set ys. kcKey m < kcKey y" "sorted_wrt (<) (map kcKey xs)" "sorted_wrt (<) (map kcKey ys)"
    using n(2) by (auto simp: sorted_wrt_append)
  have "in_range lo (Some (kcKey m)) (kcKey x)" if "x \<in> set (tl xs)" for x
    using that l(1) n(3) [of x] list.set_sel(2) [OF assms(2)] by (auto simp: in_range_def)
  then show "node_ok lo (Some (kcKey m)) xs" using assms(2) n(1,3) l(3) by (simp add: node_ok_def)
  have "[] < kcKey y" if "y \<in> set ys" for y using l(2) that by (cases "kcKey y") auto
  moreover have "in_range (kcKey m) hi (kcKey y)" if "y \<in> set ys" for y
    using l(2) n(3) [of y] that by (auto simp: in_range_def)
  ultimately show "node_ok (kcKey m) hi (NewKeyCell (ChildPageID m) [] # ys)"
    using l(2,4) by (simp add: node_ok_def NewKeyCell_def)
qed

lemma kids_split:
  assumes "kids V d lo hi (xs @ m # ys) ess pss" "xs \<noteq> []"
  shows "kids V d lo (Some (kcKey m)) xs (take (length xs) ess) (take (length xs) pss)"
    "kids V d (kcKey m) hi (NewKeyCell (ChildPageID m) [] # ys) (drop (length xs) ess) (drop (length xs) pss)"
proof -
  have n: "length ess = length xs + Suc (length ys)" "length pss = length xs + Suc (length ys)"
    using kids_length [OF assms(1)] by simp_all
  then have l: "length (take (length xs) ess) = length xs" "length (take (length xs) pss) = length xs" by simp_all
  have "kids V d lo hi (xs @ m # ys) (take (length xs) ess @ drop (length xs) ess) (take (length xs) pss @ drop (length xs) pss)"
    using assms(1) by simp
  then have k: "kids V d lo (Some (kcKey m)) xs (take (length xs) ess) (take (length xs) pss)"
    "kids V d (kcKey m) hi (m # ys) (drop (length xs) ess) (drop (length xs) pss)"
    unfolding kids_append [OF l] using assms(2) by simp_all
  then show "kids V d lo (Some (kcKey m)) xs (take (length xs) ess) (take (length xs) pss)" by simp
  show "kids V d (kcKey m) hi (NewKeyCell (ChildPageID m) [] # ys) (drop (length xs) ess) (drop (length xs) pss)"
    using k(2) by (simp add: kids.simps(2) NewKeyCell_def)
qed

lemma split_mid:
  assumes "2 \<le> length xs"
  shows "take (length xs div 2) xs \<noteq> []" "xs = take (length xs div 2) xs @ xs ! (length xs div 2) # drop (Suc (length xs div 2)) xs"
    "length xs div 2 < length xs"
  using assms by (auto simp: id_take_nth_drop [symmetric] div_le_dividend)

section \<open>Sorting routing cells\<close>

lemma sorted_perm_unique:
  fixes f :: "'a \<Rightarrow> 'k::linorder"
  assumes "mset zs = mset ys" "sorted (map f zs)" "sorted_wrt (<) (map f ys)"
  shows "zs = ys"
proof -
  have s: "sorted (map f ys)" "distinct (map f ys)" using assms(3) by (simp_all add: strict_sorted_iff)
  have "mset (map f zs) = mset (map f ys)" using assms(1) by simp
  then have "map f zs = map f ys" using assms(2) s(1) by (metis properties_for_sort)
  moreover have "inj_on f (set ys)" "set zs = set ys" using s(2) mset_eq_setD [OF assms(1)] by (simp_all add: distinct_map)
  ultimately show ?thesis by (intro map_inj_on [where f = f]) simp_all
qed

lemma sortCells_routing:
  assumes "list_all key_cell_fits xs" "mset ys = mset xs" "sorted_wrt (<) (map kcKey ys)"
  shows "sortCells routing_key routing_less (map KeyCell_Serialize xs) = Some (map KeyCell_Serialize ys)"
proof (cases "length xs \<le> 1")
  case True
  then have "ys = xs" using assms(2)
    by (cases xs; cases ys) (auto dest: mset_eq_length)
  then show ?thesis using True by (simp add: sortCells_def)
next
  case False
  let ?f = "\<lambda>x. (kcKey x, KeyCell_Serialize x)"
  let ?lt = "\<lambda>x y. routing_less (fst x) (fst (y :: bytes \<times> bytes))"
  have "those (map routing_key (map KeyCell_Serialize xs)) = those (map (\<lambda>x. Some (kcKey x)) xs)"
    using assms(1) by (intro arg_cong [of _ _ those]) (auto simp: list_all_iff routing_key_def key_cell.dec_enc)
  then have k: "those (map routing_key (map KeyCell_Serialize xs)) = Some (map kcKey xs)"
    by (simp add: those_map_Some)
  have z: "zip (map kcKey xs) (map KeyCell_Serialize xs) = map ?f xs" by (simp add: zip_map_map zip_same_conv_map)
  have "sortSlice ?lt (map ?f xs) = map ?f ys"
  proof (rule sorted_perm_unique [where f = fst])
    show "mset (sortSlice ?lt (map ?f xs)) = mset (map ?f ys)" using assms(2) by simp
    show "sorted (map fst (sortSlice ?lt (map ?f xs)))"
    proof (rule sorted_sortSlice_gen)
      show "routing_less (fst a) (fst b)" if "fst a < fst b" for a b :: "bytes \<times> bytes"
        using that by (auto simp: routing_less_def)
      show "fst a \<le> fst b" if "routing_less (fst a) (fst b)" for a b :: "bytes \<times> bytes"
        using that by (auto simp: routing_less_def split: if_splits)
    qed
    show "sorted_wrt (<) (map fst (map ?f ys))" using assms(3) by (simp add: comp_def)
  qed
  then show ?thesis using False k z by (simp add: sortCells_def comp_def)
qed

section \<open>Halves of a full page\<close>

lemma sum_list_bounds:
  fixes xs :: "nat list"
  assumes "\<forall>x \<in> set xs. a \<le> x \<and> x \<le> b"
  shows "length xs * a \<le> sum_list xs" "sum_list xs \<le> length xs * b"
  using assms by (induction xs) auto

lemma half_fits:
  fixes xs :: "nat list"
  assumes "\<forall>x \<in> set xs. a \<le> x \<and> x \<le> b" "sum_list xs \<le> S + b" "(b + a) * b \<le> S * a + b" "0 < a"
  shows "sum_list (take (length xs div 2) xs) \<le> S" "sum_list (drop (length xs div 2) xs) \<le> S"
proof -
  define q where "q = length xs div 2"
  let ?L = "sum_list (take q xs)" and ?R = "sum_list (drop q xs)"
  have t: "?L + ?R \<le> S + b" using assms(2) by (metis append_take_drop_id sum_list_append)
  have ba: "\<forall>x \<in> set (take q xs). a \<le> x \<and> x \<le> b" "\<forall>x \<in> set (drop q xs). a \<le> x \<and> x \<le> b"
    using assms(1) by (auto dest: in_set_takeD in_set_dropD)
  have q: "length (take q xs) = q" "q \<le> length (drop q xs)" "length (drop q xs) \<le> Suc q" by (auto simp: q_def)
  have bd: "q * a \<le> ?L" "?L \<le> q * b" using sum_list_bounds [OF ba(1)] q(1) by simp_all
  have br: "q * a \<le> ?R" "?R \<le> Suc q * b"
    using order_trans [OF mult_le_mono1 [OF q(2)] sum_list_bounds(1) [OF ba(2)]]
      order_trans [OF sum_list_bounds(2) [OF ba(2)] mult_le_mono1 [OF q(3)]] by blast+
  show "?L \<le> S"
  proof (rule ccontr)
    assume "\<not> ?L \<le> S"
    then have s: "Suc S \<le> q * b" "Suc (q * a) \<le> b" using t bd(2) br(1) by linarith+
    have "Suc S * a \<le> q * b * a" using s(1) by (rule mult_le_mono1)
    also have "\<dots> = (q * a) * b" by simp
    also have "\<dots> \<le> b * b" using s(2) by (intro mult_le_mono1) linarith
    finally have "S * a + a \<le> b * b" by simp
    moreover have "b * b + a * b \<le> S * a + b" using assms(3) by (simp add: algebra_simps)
    moreover have "b \<le> a * b" using assms(4) by simp
    ultimately show False using assms(4) by linarith
  qed
  show "?R \<le> S"
  proof (rule ccontr)
    assume "\<not> ?R \<le> S"
    then have s: "Suc S \<le> Suc q * b" "Suc (q * a) \<le> b" using t br(2) bd(1) by linarith+
    have "Suc S * a \<le> Suc q * b * a" using s(1) by (rule mult_le_mono1)
    also have "\<dots> = (q * a + a) * b" by (simp add: algebra_simps)
    also have "\<dots> \<le> (b - 1 + a) * b" using s(2) by (intro mult_le_mono1) linarith
    also have "\<dots> + b = (b + a) * b" using s(2) by (cases b) (simp_all add: algebra_simps)
    finally show False using assms(3,4) by simp
  qed
qed
section \<open>Page operations of a split\<close>

lemma fill_page:
  assumes "length q = PageSize" "norm_page q = Page_Init p ty" "length p = PageSize"
    and "ty = PageTypeInternal \<or> ty = PageTypeLeaf" "space_used cs \<le> PageSize"
  obtains q' where "each Page_Insert q cs = Some q'" "wf_slotted q'" "page_cells q' = cs" "GetPageType q' = ty"
    "GetPageID q' = GetPageID p" "length q' = PageSize"
proof -
  note w = wf_Page_Init [OF assms(3,4)]
  have q: "wf_slotted q" "page_cells q = []"
    using w norm_cells [OF assms(1)] assms(2) by simp_all
  have h: "GetPageType q = ty" "GetPageID q = GetPageID p"
    using norm_page_get(1,2) [OF assms(1)] assms(2) Page_Init_fields [OF assms(3), of ty] by simp_all
  obtain q' where q': "each Page_Insert q cs = Some q'" "wf_slotted q'" "page_header q' = page_header q" "page_cells q' = cs"
    using slotted.each_ins_all [OF q(1), of cs] assms(5) q(2) by auto
  show ?thesis using that [OF q'(1,2,4)] q'(2,3) h by (simp add: page_header_def wf_slotted_def)
qed

lemma logFullPage_ok:
  fixes t :: BTree
  assumes "implements t a" "pheld a i = LWrite" "i \<in> ptouched a" "treeWal t \<longrightarrow> plogopen a"
  obtains t' where "logFullPage i pid t = Some t'" "implements t' a" "treeWal t' = treeWal t" "rootPageID t' = rootPageID t"
    "chkFile t' = chkFile t"
proof (cases "treeWal t")
  case False
  then show ?thesis using that [of t] assms(1) by (simp add: logFullPage_def)
next
  case True
  obtain q where q: "getPage i t = Some q" "pview a i = Some (norm_page q)" "length q = PageSize"
    by (rule impl_getPage [OF assms(1), of i]) (use assms(2) in auto)
  define w where "w = snd (Append (wal t) 0 pid 0 LogOpFullPage [] q)"
  define lsn where "lsn = currentLSN (wal t)"
  have op: "fopen (wfile (wal t))" using True assms(4) implements_sel(5) [OF assms(1)] by simp
  have ap: "dropAppend 0 pid 0 LogOpFullPage [] q t = (lsn, t\<lparr>wal := w\<rparr>)"
    using Append_open(1) [OF op, of 0 pid 0 LogOpFullPage "[]" q]
    by (auto simp: dropAppend_def w_def lsn_def split: prod.split)
  have i1: "implements (t\<lparr>wal := w\<rparr>) a"
    by (rule impl_wal [OF assms(1)]) (use Append_open(2) [OF op] True assms(4) in \<open>simp add: w_def\<close>)
  have "a\<lparr>pview := (pview a)(i \<mapsto> norm_page (SetLSN q lsn)), ptouched := insert i (ptouched a)\<rparr> = a"
    using q(2) assms(3) by (auto intro!: pool.equality simp: norm_SetLSN)
  then have "implements (putPage i (SetLSN q lsn) (t\<lparr>wal := w\<rparr>)) a"
    using pool.write_held [OF i1 assms(2), of "SetLSN q lsn"] q(3) by simp
  moreover have "logFullPage i pid t = Some (putPage i (SetLSN q lsn) (t\<lparr>wal := w\<rparr>))"
    using True q(1) ap by (simp add: logFullPage_def)
  ultimately show ?thesis using that by simp
qed

lemma dropUnpin_ok:
  assumes "implements t a" "pheld a i = LWrite"
  obtains t' where "dropUnpin i True True t = Some t'" "UnpinPage i True True t = Some (Inr (), t')"
    "implements t' (a\<lparr>pheld := (pheld a)(i := LFree), ptouched := ptouched a - {i}\<rparr>)"
  using pool.unpin_write [OF assms, of True] by (auto simp: dropUnpin_def)

lemma more_eq:
  fixes t t' :: BTree
  assumes "implements t a" "implements t' a'" "pmore a' = pmore a"
  shows "treeWal t' = treeWal t" "rootPageID t' = rootPageID t"
  using more_fields [of t' t] implements_sel(7) [OF assms(1)] implements_sel(7) [OF assms(2)] assms(3) by simp_all

text \<open>A page that holds exactly the cells cs.\<close>

definition holds_cells :: "page option \<Rightarrow> u8 \<Rightarrow> u32 \<Rightarrow> bytes list \<Rightarrow> bool" where
  "holds_cells v ty i cs \<longleftrightarrow> (\<exists>p. v = Some p \<and> wf_slotted p \<and> page_cells p = cs \<and> GetPageType p = ty \<and> GetPageID p = i)"

lemma holds_cells_norm:
  "wf_slotted q \<Longrightarrow> page_cells q = cs \<Longrightarrow> GetPageType q = ty \<Longrightarrow> GetPageID q = i \<Longrightarrow>
   holds_cells (Some (norm_page q)) ty i cs"
  using norm_cells [of q] norm_page_get(1,2) [of q] by (auto simp: holds_cells_def wf_slotted_def)

text \<open>What the rewrite of page l and of a newly allocated page n leaves of the rest.\<close>

definition split_frame :: "'m pool \<Rightarrow> u32 list \<Rightarrow> u32 \<Rightarrow> u32 \<Rightarrow> 'm pool \<Rightarrow> bool" where
  "split_frame b fs l n b' \<longleftrightarrow> (\<forall>k. k \<noteq> 0 \<and> k \<noteq> l \<and> k \<noteq> n \<longrightarrow> pview b' k = pview b k) \<and>
     (\<exists>m m'. pview b 0 = Some m \<and> pview b' 0 = Some m' \<and> GetRootPageID m' = GetRootPageID m) \<and>
     (\<forall>k. pheld b' k = LFree) \<and> ptouched b' = {} \<and> store_ok b' (tl fs) \<and> (n \<in> set fs \<or> pview b n = None) \<and> n \<noteq> 0 \<and>
     n \<noteq> l \<and> n \<notin> set (tl fs) \<and> pcap b' = pcap b \<and> plog b' = plog b \<and> plogopen b' = plogopen b \<and> pmore b' = pmore b \<and>
     pfile b' \<le> pfile b + PageSize"

lemma split_pages:
  fixes t :: BTree
  assumes "implements t (b\<lparr>pheld := (pheld b)(l := LWrite)\<rparr>)" "store_ok b fs" "\<And>k. pheld b k = LFree" "ptouched b = {}"
    and "5 \<le> pcap b" "treeWal t \<longrightarrow> plogopen b" "l \<noteq> 0" "l \<notin> set fs" "getPage l t = Some q" "pfile b div PageSize < 2 ^ 32"
    and "ty = PageTypeInternal \<or> ty = PageTypeLeaf" "space_used csL \<le> PageSize" "space_used csR \<le> PageSize"
  obtains n t1 qn t2 ql ql' qr' t4 t5 t6 t' b' where
    "allocatePage ty (putPage l (Page_Init q ty) t) = Some (Inr n, t1)" "FetchPageForWrite n ty t1 = Some (Inr qn, t2)"
    "getPage l t2 = Some ql" "each Page_Insert ql csL = Some ql'" "each Page_Insert qn csR = Some qr'"
    "GetPageID ql' = l" "GetPageID qr' = n"
    "logFullPage l l (putPage n qr' (putPage l ql' t2)) = Some t4" "logFullPage n n t4 = Some t5"
    "dropUnpin l True True t5 = Some t6" "dropUnpin n True True t6 = Some t'"
    "implements t' b'" "holds_cells (pview b' l) ty l csL" "holds_cells (pview b' n) ty n csR" "split_frame b fs l n b'"
proof -
  let ?a = "b\<lparr>pheld := (pheld b)(l := LWrite)\<rparr>"
  have q: "pview b l = Some (norm_page q)" "length q = PageSize"
    using impl_getPage [OF assms(1), of l] assms(9) by auto
  have gq: "GetPageID q = l"
    using assms(2) q norm_page_get(1) [OF q(2)] by (auto simp: store_ok_def)
  let ?L0 = "Page_Init q ty"
  have nl: "norm_page ?L0 = ?L0" "length ?L0 = PageSize" "GetPageID ?L0 = l"
    using norm_page_set(3) [OF q(2)] q(2) gq Page_Init_fields(5) [OF q(2)] by simp_all
  let ?a1 = "?a\<lparr>pview := (pview b)(l \<mapsto> ?L0), ptouched := {l}\<rparr>"
  have i1: "implements (putPage l ?L0 t) ?a1" using pool.write_held [OF assms(1), of l ?L0] nl assms(4) by simp
  have so1: "store_ok ?a1 fs"
    using store_ok_page [OF store_ok_latch [OF assms(2,7,8)] assms(7,8) nl(3), of LWrite] by (simp add: store_ok_def)
  have st1: "store (putPage l ?L0 t) ?a1 fs" using i1 so1 by (simp add: store_def)
  have "pages_free b 5" using assms(3,5) by (simp add: pages_free_def busy_def)
  then have pf: "pages_free ?a1 4" using pages_free_hold [of b 4 l LWrite] by simp
  obtain n t1 a1 where al: "allocatePage ty (putPage l ?L0 t) = Some (Inr n, t1)" "store t1 a1 (tl fs)" "allocated ty n ?a1 fs a1"
    by (rule allocatePage_ok [OF st1 pages_free_less [OF pf], of ty]) (use assms(10) in auto)
  note ad = allocatedD [OF al(3)]
  have nln: "n \<noteq> l" using ad(2) assms(8) by auto
  have nfs: "n \<notin> set (tl fs)"
    using al(3) storeD(2) [OF st1] by (cases fs) (auto simp: allocated_def)
  obtain pn where pn: "pview a1 n = Some (Page_Init pn ty)" "GetPageID pn = n" "length pn = PageSize" using ad(13) by blast
  have rm: "room a1 n" using pf ad(12) pages_free_room [of a1 3] pages_free_less [OF pf, of 4] by simp
  have fr: "pheld a1 n = LFree" using ad(3,5) by simp
  obtain qn t2 where fw: "FetchPageForWrite n ty t1 = Some (Inr qn, t2)" "norm_page qn = Page_Init pn ty"
    "implements t2 (a1\<lparr>pheld := (pheld a1)(n := LWrite)\<rparr>)"
    using pool.fetchW_free [OF storeD(1) [OF al(2)] pn(1) rm fr storeD(5) [OF al(2)], of ty] by blast
  let ?a2 = "a1\<lparr>pheld := (pheld a1)(n := LWrite)\<rparr>"
  have qnl: "length qn = PageSize" using fw(2) pn(3) by (metis length_norm_page length_page_setters(11))
  have h1: "pheld a1 = (pheld b)(l := LWrite)" "ptouched a1 = {l}" using ad(5,6) by simp_all
  have hl: "pheld ?a2 l = LWrite" using h1 nln by simp
  have vl: "pview a1 l = Some ?L0" using ad(4) [of l] assms(7) nln by simp
  obtain ql where ql: "getPage l t2 = Some ql" "pview ?a2 l = Some (norm_page ql)" "length ql = PageSize"
    by (rule impl_getPage [OF fw(3), of l]) (use hl in auto)
  have "norm_page ql = ?L0" using ql(2) vl by simp
  then obtain ql' where fl: "each Page_Insert ql csL = Some ql'" "wf_slotted ql'" "page_cells ql' = csL" "GetPageType ql' = ty"
    "GetPageID ql' = GetPageID q" "length ql' = PageSize"
    by (rule fill_page [OF ql(3) _ q(2) assms(11,12)])
  obtain qr' where fr': "each Page_Insert qn csR = Some qr'" "wf_slotted qr'" "page_cells qr' = csR" "GetPageType qr' = ty"
    "GetPageID qr' = GetPageID pn" "length qr' = PageSize"
    by (rule fill_page [OF qnl fw(2) pn(3) assms(11,13)])
  let ?a3 = "?a2\<lparr>pview := (pview a1)(l \<mapsto> norm_page ql'), ptouched := {l}\<rparr>"
  have i3: "implements (putPage l ql' t2) ?a3"
    using pool.write_held [OF fw(3) hl fl(6)] h1 by simp
  let ?V = "(pview a1)(l \<mapsto> norm_page ql', n \<mapsto> norm_page qr')"
  let ?a4 = "?a2\<lparr>pview := ?V, ptouched := {n, l}\<rparr>"
  have i4: "implements (putPage n qr' (putPage l ql' t2)) ?a4"
    using pool.write_held [OF i3, of n qr'] fr'(6) by simp
  have tw: "treeWal (putPage n qr' (putPage l ql' t2)) \<longrightarrow> plogopen ?a4"
    using more_eq(1) [OF assms(1) i4] ad(9,10) assms(6) by simp
  obtain t4 where t4: "logFullPage l l (putPage n qr' (putPage l ql' t2)) = Some t4" "implements t4 ?a4"
    "treeWal t4 = treeWal (putPage n qr' (putPage l ql' t2))"
    by (rule logFullPage_ok [OF i4 _ _ tw, of l l]) (use hl nln in auto)
  obtain t5 where t5: "logFullPage n n t4 = Some t5" "implements t5 ?a4"
    by (rule logFullPage_ok [OF t4(2), of n n]) (use t4(3) tw in auto)
  obtain t6 where t6: "dropUnpin l True True t5 = Some t6"
    "implements t6 (?a4\<lparr>pheld := (pheld ?a4)(l := LFree), ptouched := ptouched ?a4 - {l}\<rparr>)"
    by (rule dropUnpin_ok [OF t5(2), of l]) (use hl nln in auto)
  let ?a6 = "?a4\<lparr>pheld := (pheld ?a4)(l := LFree), ptouched := ptouched ?a4 - {l}\<rparr>"
  obtain t' where t': "dropUnpin n True True t6 = Some t'"
    "implements t' (?a6\<lparr>pheld := (pheld ?a6)(n := LFree), ptouched := ptouched ?a6 - {n}\<rparr>)"
    by (rule dropUnpin_ok [OF t6(2), of n]) (use nln in auto)
  let ?b' = "?a6\<lparr>pheld := (pheld ?a6)(n := LFree), ptouched := ptouched ?a6 - {n}\<rparr>"
  have hf: "pheld ?b' k = LFree" for k using h1(1) assms(3) by simp
  have so: "store_ok ?b' (tl fs)"
  proof -
    have lt: "l \<notin> set (tl fs)" using assms(8) by (cases fs) auto
    have g: "GetPageID (norm_page ql') = l" "GetPageID (norm_page qr') = n"
      using norm_page_get(1) [OF fl(6)] norm_page_get(1) [OF fr'(6)] fl(5) fr'(5) gq pn(2) by simp_all
    have "store_ok (a1\<lparr>pview := (pview a1)(l \<mapsto> norm_page ql')\<rparr>) (tl fs)"
      by (rule store_ok_page [OF _ assms(7) lt g(1)]) (use al(2) in \<open>simp add: store_def\<close>)
    from store_ok_page [OF this ad(1) nfs g(2)] have "store_ok (a1\<lparr>pview := ?V\<rparr>) (tl fs)" by simp
    then show ?thesis by (rule store_ok_unlatch) (use hf in simp_all)
  qed
  have sf: "split_frame b fs l n ?b'"
    unfolding split_frame_def
  proof (intro conjI allI impI)
    show "pview ?b' k = pview b k" if "k \<noteq> 0 \<and> k \<noteq> l \<and> k \<noteq> n" for k using ad(4) [of k] that by simp
    show "\<exists>m m'. pview b 0 = Some m \<and> pview ?b' 0 = Some m' \<and> GetRootPageID m' = GetRootPageID m"
      using ad(14) assms(7) ad(1) by simp
    show "n \<in> set fs \<or> pview b n = None" using ad(2) nln by simp
    show "pfile ?b' \<le> pfile b + PageSize" using ad(11) by simp
    show "ptouched ?b' = {}" by auto
  qed (use hf so ad(1,7-10) nln nfs in simp_all)
  have "holds_cells (pview ?b' l) ty l csL" "holds_cells (pview ?b' n) ty n csR"
    using holds_cells_norm [OF fl(2-4)] holds_cells_norm [OF fr'(2-4)] fl(5) fr'(5) gq pn(2) nln by simp_all
  then show ?thesis
    using that [OF al(1) fw(1) ql(1) fl(1) fr'(1) _ _ t4(1) t5(1) t6(1) t'(1,2) _ _ sf] fl(5) fr'(5) gq pn(2) by simp
qed
section \<open>The state between two steps of a split\<close>

definition idle_ok :: "BTree \<Rightarrow> _ pool \<Rightarrow> KVCell set \<Rightarrow> u32 list \<Rightarrow> u32 list \<Rightarrow> (KVCell \<Rightarrow> u32 list \<times> bytes) \<Rightarrow> bool" where
  "idle_ok t b E ps fs ov \<longleftrightarrow> implements t b \<and> store_ok b fs \<and> (\<forall>k. pheld b k = LFree) \<and> 5 \<le> pcap b \<and>
     (treeWal t \<longrightarrow> plogopen b) \<and> root_is (pview b) (rootPageID t) \<and> distinct ps \<and> 0 \<notin> set ps \<and>
     set ps \<inter> set fs = {} \<and> (\<forall>k \<in> set ps. pview b k \<noteq> None) \<and> values_ok (pview b) E (set ps) (set fs) ov"

lemma idle_okD:
  assumes "idle_ok t b E ps fs ov"
  shows "implements t b" "store_ok b fs" "\<And>k. pheld b k = LFree" "5 \<le> pcap b" "treeWal t \<longrightarrow> plogopen b"
    "root_is (pview b) (rootPageID t)" "distinct ps" "0 \<notin> set ps" "set ps \<inter> set fs = {}" "\<And>k. k \<in> set ps \<Longrightarrow> pview b k \<noteq> None"
    "values_ok (pview b) E (set ps) (set fs) ov" "ptouched b = {}" "store t b fs" "pages_free b 5" "plog b \<longrightarrow> plogopen b"
proof -
  show i: "implements t b" "store_ok b fs" "\<And>k. pheld b k = LFree" "5 \<le> pcap b" "treeWal t \<longrightarrow> plogopen b"
    "root_is (pview b) (rootPageID t)" "distinct ps" "0 \<notin> set ps" "set ps \<inter> set fs = {}" "\<And>k. k \<in> set ps \<Longrightarrow> pview b k \<noteq> None"
    "values_ok (pview b) E (set ps) (set fs) ov"
    using assms by (simp_all add: idle_ok_def)
  show "ptouched b = {}" using pool.touched_held [OF i(1)] i(3) by auto
  show "store t b fs" "plog b \<longrightarrow> plogopen b" using i(1,2) by (simp_all add: store_def store_ok_def)
  show "pages_free b 5" using i(3,4) by (simp add: pages_free_def busy_def)
qed

lemma db_ok_idle:
  "db_ok t a h es ps fs ov \<longleftrightarrow> idle_ok t a (set es) ps fs ov \<and> tree_at (pview a) h (rootPageID t) [] None es ps"
  using tree_pages [of "pview a" h "rootPageID t" "[]" None es ps] unfolding db_ok_alt idle_ok_def by blast

lemma idle_perm: "idle_ok t b E ps fs ov \<Longrightarrow> mset ps' = mset ps \<Longrightarrow> idle_ok t b E ps' fs ov"
  using mset_eq_setD [of ps' ps] mset_eq_imp_distinct_iff [of ps' ps] by (simp add: idle_ok_def)

lemma idle_page:
  assumes "idle_ok t b E ps fs ov" "implements t' (b\<lparr>pview := (pview b)(l \<mapsto> p)\<rparr>)" "l \<in> set ps" "GetPageID p = l"
  shows "idle_ok t' (b\<lparr>pview := (pview b)(l \<mapsto> p)\<rparr>) E ps fs ov"
proof -
  note d = idle_okD [OF assms(1)]
  have l: "l \<noteq> 0" "l \<notin> set fs" using d(8,9) assms(3) by auto
  have "values_ok ((pview b)(l \<mapsto> p)) E (set ps) (set fs) ov"
    by (rule values_ok_frame [OF d(11) subset_refl]) (use values_okD(2) [OF d(11)] assms(3) in auto)
  then show ?thesis
    using assms(2) store_ok_page [OF d(2) l assms(4)] d more_eq [OF d(1) assms(2)] l(1)
    by (simp add: idle_ok_def root_is_def)
qed

lemma idle_new_page:
  assumes "n \<in> set fs \<or> pview b n = None" "idle_ok t b E ps fs ov"
  shows "n \<notin> set ps" "\<And>e. e \<in> E \<Longrightarrow> n \<notin> set (fst (ov e))"
proof -
  note d = idle_okD [OF assms(2)]
  show "n \<notin> set ps" using assms(1) d(9,10) by blast
  show "n \<notin> set (fst (ov e))" if "e \<in> E" for e using values_okD(2,4) [OF d(11) that] assms(1) by blast
qed

lemma values_ok_new:
  assumes "idle_ok t b E ps fs ov" "n \<in> set fs \<or> pview b n = None" "\<And>k. k \<noteq> 0 \<Longrightarrow> k \<notin> set ps \<Longrightarrow> k \<noteq> n \<Longrightarrow> V k = pview b k"
  shows "values_ok V E (insert n (set ps)) (set (tl fs)) ov"
proof (rule values_ok_frame [OF idle_okD(11) [OF assms(1)] subset_refl])
  fix e k assume e: "e \<in> E" "k \<in> set (fst (ov e))"
  note v = values_okD(2,3) [OF idle_okD(11) [OF assms(1)] e(1)]
  have "k \<noteq> n" using idle_new_page(2) [OF assms(2,1) e(1)] e(2) by blast
  moreover have "k \<notin> set (tl fs)" using v(1) e(2) by (cases fs) auto
  ultimately show "V k = pview b k \<and> k \<notin> insert n (set ps) \<and> k \<notin> set (tl fs)"
    using v e(2) assms(3) [of k] by auto
qed

lemma idle_split:
  assumes "idle_ok t b E ps fs ov" "split_frame b fs l n b'" "implements t' b'" "l \<in> set ps"
    and "distinct ps'" "set ps' = insert n (set ps)" "pview b' l \<noteq> None" "pview b' n \<noteq> None"
  shows "idle_ok t' b' E ps' (tl fs) ov" "n \<notin> set ps" "n \<noteq> 0" "rootPageID t' = rootPageID t"
proof -
  note d = idle_okD [OF assms(1)]
  have s: "\<And>k. k \<noteq> 0 \<Longrightarrow> k \<noteq> l \<Longrightarrow> k \<noteq> n \<Longrightarrow> pview b' k = pview b k"
    "\<exists>m m'. pview b 0 = Some m \<and> pview b' 0 = Some m' \<and> GetRootPageID m' = GetRootPageID m"
    "\<And>k. pheld b' k = LFree" "store_ok b' (tl fs)" "n \<in> set fs \<or> pview b n = None" "n \<noteq> 0" "n \<notin> set (tl fs)"
    "pcap b' = pcap b" "plogopen b' = plogopen b" "pmore b' = pmore b"
    using assms(2) by (auto simp: split_frame_def)
  show "n \<notin> set ps" by (rule idle_new_page(1) [OF s(5) assms(1)])
  show "n \<noteq> 0" by (fact s(6))
  note m = more_eq [OF d(1) assms(3) s(10)]
  show "rootPageID t' = rootPageID t" by (fact m(2))
  have "values_ok (pview b') E (insert n (set ps)) (set (tl fs)) ov"
    by (rule values_ok_new [OF assms(1) s(5)]) (use s(1) assms(4) in auto)
  moreover have "root_is (pview b') (rootPageID t')" using d(6) s(2) m(2) by (auto simp: root_is_def)
  moreover have "set ps' \<inter> set (tl fs) = {}" using assms(6) s(7) d(9) by (cases fs) auto
  moreover have "\<forall>k \<in> set ps'. pview b' k \<noteq> None"
  proof
    fix k assume k: "k \<in> set ps'"
    show "pview b' k \<noteq> None"
    proof (cases "k = l \<or> k = n")
      case False
      then have "k \<in> set ps" "k \<noteq> 0" using k assms(6) d(8) by auto
      then show ?thesis using s(1) False d(10) by auto
    qed (use assms(7,8) in auto)
  qed
  ultimately show "idle_ok t' b' E ps' (tl fs) ov"
    using assms(3,5,6) s d(4,5,8) m by (simp add: idle_ok_def)
qed

section \<open>A new root\<close>

lemma impl_root:
  fixes t :: BTree
  assumes "implements t a"
  shows "implements (t\<lparr>rootPageID := r\<rparr>) (a\<lparr>pmore := BufferManager.more (t\<lparr>rootPageID := r\<rparr>)\<rparr>)"
proof -
  have f: "frame_at (t\<lparr>rootPageID := r\<rparr>) = frame_at t" by (simp add: fun_eq_iff frame_at_def)
  have e: "abs_pool (t\<lparr>rootPageID := r\<rparr>) = (abs_pool t)\<lparr>pmore := BufferManager.more (t\<lparr>rootPageID := r\<rparr>)\<rparr>"
    by (simp add: abs_pool_def page_view_def held_def touched_def f fun_eq_iff split: option.split)
  have w: "wf_bm (t\<lparr>rootPageID := r\<rparr>)" using implements_wf [OF assms] by (simp add: wf_bm_def f)
  show ?thesis
    by (rule implementsI [OF w e, where T = "ptouched a"])
      (use implements_sel [OF assms] in \<open>auto intro!: pool.equality\<close>)
qed


lemma newRoot_ok:
  assumes "idle_ok t b E ps fs ov" "pfile b div PageSize < 2 ^ 32" "space_used [KeyCell_Serialize (NewKeyCell c []), rc] \<le> PageSize"
  obtains n t' b' where "newRoot c rc t = Some (Inr (), t')" "idle_ok t' b' E (n # ps) (tl fs) ov" "rootPageID t' = n"
    "holds_cells (pview b' n) PageTypeInternal n [KeyCell_Serialize (NewKeyCell c []), rc]"
    "\<And>k. k \<in> set ps \<Longrightarrow> pview b' k = pview b k" "n \<notin> set ps" "n \<noteq> 0"
proof -
  note d = idle_okD [OF assms(1)]
  obtain n t1 a1 where al: "allocatePage PageTypeInternal t = Some (Inr n, t1)" "store t1 a1 (tl fs)" "allocated PageTypeInternal n b fs a1"
    by (rule allocatePage_ok [OF d(13) pages_free_less [OF d(14)], of PageTypeInternal]) (use assms(2) in auto)
  note ad = allocatedD [OF al(3)]
  have nps: "n \<notin> set ps" by (rule idle_new_page(1) [OF ad(2) assms(1)])
  have nfs: "n \<notin> set (tl fs)"
    using al(3) storeD(2) [OF d(13)] by (cases fs) (auto simp: allocated_def)
  obtain pn where pn: "pview a1 n = Some (Page_Init pn PageTypeInternal)" "GetPageID pn = n" "length pn = PageSize" using ad(13) by blast
  have pf1: "pages_free a1 5" using d(14) ad(12) by simp
  have fr: "pheld a1 n = LFree" "room a1 n" using ad(3,5) pages_free_room [of a1 4 n] pf1 by simp_all
  obtain q t2 where fw: "FetchPageForWrite n PageTypeInternal t1 = Some (Inr q, t2)" "norm_page q = Page_Init pn PageTypeInternal"
    "implements t2 (a1\<lparr>pheld := (pheld a1)(n := LWrite)\<rparr>)"
    using pool.fetchW_free [OF storeD(1) [OF al(2)] pn(1) fr(2,1) storeD(5) [OF al(2)], of PageTypeInternal] by blast
  have ql: "length q = PageSize" using fw(2) pn(3) by (metis length_norm_page length_page_setters(11))
  let ?cs = "[KeyCell_Serialize (NewKeyCell c []), rc]"
  obtain q' where q': "each Page_Insert q ?cs = Some q'" "wf_slotted q'" "page_cells q' = ?cs" "GetPageType q' = PageTypeInternal"
    "GetPageID q' = GetPageID pn" "length q' = PageSize"
    by (rule fill_page [where ty = PageTypeInternal, OF ql fw(2) pn(3) _ assms(3)]) auto
  let ?a2 = "a1\<lparr>pheld := (pheld a1)(n := LWrite)\<rparr>"
  let ?a3 = "?a2\<lparr>pview := (pview a1)(n \<mapsto> norm_page q'), ptouched := {n}\<rparr>"
  have i3: "implements (putPage n q' t2) ?a3"
    using pool.write_held [OF fw(3), of n q'] q'(6) ad(6) d(12) by simp
  define t3 where "t3 = (putPage n q' t2)\<lparr>rootPageID := n\<rparr>"
  let ?a4 = "?a3\<lparr>pmore := BufferManager.more t3\<rparr>"
  have i4: "implements t3 ?a4" using impl_root [OF i3, of n] by (simp add: t3_def)
  have t3: "treeWal t3 = treeWal t" "rootPageID t3 = n"
    using more_eq(1) [OF d(1) i3] ad(10) by (simp_all add: t3_def)
  have tw: "treeWal t3 \<longrightarrow> plogopen ?a4" using t3(1) d(5) ad(9) by simp
  obtain t4 where t4: "logFullPage n n t3 = Some t4" "implements t4 ?a4" "treeWal t4 = treeWal t3" "rootPageID t4 = rootPageID t3"
    by (rule logFullPage_ok [OF i4 _ _ tw, of n n]) auto
  have so4: "store_ok ?a4 (tl fs)"
  proof -
    have g: "GetPageID (norm_page q') = n" using norm_page_get(1) [OF q'(6)] q'(5) pn(2) by simp
    have "store_ok (a1\<lparr>pheld := (pheld a1)(n := LWrite)\<rparr>) (tl fs)"
      by (rule store_ok_latch [OF _ ad(1) nfs]) (use al(2) in \<open>simp add: store_def\<close>)
    from store_ok_page [OF this ad(1) nfs g] show ?thesis by (simp add: store_ok_def)
  qed
  have st4: "store t4 ?a4 (tl fs)" using t4(2) so4 by (simp add: store_def)
  have pf4: "pages_free ?a4 1"
    using pages_free_less [OF pages_free_hold [of a1 4 n LWrite], of 1] pf1 by (simp add: pages_free_def busy_def)
  obtain q0 t5 m where fm: "FetchPageForWrite 0 PageTypeMeta t4 = Some (Inr q0, t5)"
    "implements t5 (?a4\<lparr>pheld := (pheld ?a4)(0 := LWrite)\<rparr>)" "pview ?a4 0 = Some m" "norm_page q0 = m"
    "length q0 = PageSize" "GetFirstFreePageID q0 = GetFirstFreePageID m"
    "chain GetNextFreePageID (pview ?a4) (GetFirstFreePageID m) (tl fs)" "0 \<notin> ptouched ?a4"
    by (rule store_fetch_meta [OF st4 pf4])
  define m' where "m' = SetRootPageID m n"
  have ml: "length m = PageSize" using fm(4,5) by auto
  have mf: "GetPageID m' = GetPageID m" "GetFirstFreePageID m' = GetFirstFreePageID m" "GetRootPageID m' = n"
    using ml by (simp_all add: m'_def page_getters page_setters sub_blit_other)
  have nm: "norm_page (SetRootPageID q0 n) = m'" using norm_page_set(2) [OF fm(5)] fm(4) by (simp add: m'_def)
  let ?a5 = "?a4\<lparr>pheld := (pheld ?a4)(0 := LWrite)\<rparr>"
  let ?a6 = "?a5\<lparr>pview := (pview ?a4)(0 \<mapsto> m'), ptouched := {0, n}\<rparr>"
  have i6: "implements (putPage 0 (SetRootPageID q0 n) t5) ?a6"
    using pool.write_held [OF fm(2), of 0 "SetRootPageID q0 n"] fm(5) nm by simp
  have tw6: "treeWal (putPage 0 (SetRootPageID q0 n) t5) \<longrightarrow> plogopen ?a6"
    using more_eq(1) [OF t4(2) i6] t4(3) tw by simp
  obtain t7 where t7: "logFullPage 0 0 (putPage 0 (SetRootPageID q0 n) t5) = Some t7" "implements t7 ?a6"
    by (rule logFullPage_ok [OF i6 _ _ tw6, of 0 0]) auto
  obtain t8 where t8: "dropUnpin 0 True True t7 = Some t8"
    "implements t8 (?a6\<lparr>pheld := (pheld ?a6)(0 := LFree), ptouched := ptouched ?a6 - {0}\<rparr>)"
    by (rule dropUnpin_ok [OF t7(2), of 0]) auto
  let ?a8 = "?a6\<lparr>pheld := (pheld ?a6)(0 := LFree), ptouched := ptouched ?a6 - {0}\<rparr>"
  obtain t' where t': "UnpinPage n True True t8 = Some (Inr (), t')"
    "implements t' (?a8\<lparr>pheld := (pheld ?a8)(n := LFree), ptouched := ptouched ?a8 - {n}\<rparr>)"
    by (rule dropUnpin_ok [OF t8(2), of n]) (use ad(1) in auto)
  let ?b' = "?a8\<lparr>pheld := (pheld ?a8)(n := LFree), ptouched := ptouched ?a8 - {n}\<rparr>"
  have run: "newRoot c rc t = Some (Inr (), t')"
    using al(1) fw(1) q'(1) t4(1) fm(1) t7(1) t8(1) t'(1) by (simp add: newRoot_def t3_def del: each.simps)
  have hf: "pheld ?b' k = LFree" for k using ad(5) d(3) by simp
  have mid: "GetPageID m = 0" using storeD(3) [OF st4 fm(3)] .
  have so: "store_ok ?b' (tl fs)"
  proof -
    have "chain GetNextFreePageID ((pview ?a4)(0 \<mapsto> m')) (GetFirstFreePageID m) (tl fs)"
      using fm(7) storeD(8) [OF st4] by (subst chain_cong [of "tl fs" _ "pview ?a4"]) auto
    then show ?thesis using so4 mf mid hf by (auto simp: store_ok_def)
  qed
  have rt: "rootPageID t' = n"
    using more_eq(2) [OF t4(2) t'(2)] t4(4) t3(2) by simp
  have tw': "treeWal t' = treeWal t" using more_eq(1) [OF t4(2) t'(2)] t4(3) t3(1) by simp
  have vw: "pview ?b' k = pview b k" if "k \<noteq> 0" "k \<noteq> n" for k using ad(4) [OF that] that by simp
  have vo: "values_ok (pview ?b') E (insert n (set ps)) (set (tl fs)) ov"
    by (rule values_ok_new [OF assms(1) ad(2)]) (use vw in auto)
  have fd: "set (n # ps) \<inter> set (tl fs) = {}" using nfs d(9) by (cases fs) auto
  have ex: "\<forall>k \<in> set (n # ps). pview ?b' k \<noteq> None"
  proof
    fix k assume k: "k \<in> set (n # ps)"
    show "pview ?b' k \<noteq> None"
    proof (cases "k = n")
      case False
      then have "k \<in> set ps" "k \<noteq> 0" using k d(8) by auto
      then show ?thesis using vw False d(10) by auto
    qed (use ad(1) in simp)
  qed
  have idl: "idle_ok t' ?b' E (n # ps) (tl fs) ov"
    unfolding idle_ok_def
  proof (intro conjI)
    show "root_is (pview ?b') (rootPageID t')" using mf(3) rt by (simp add: root_is_def)
    show "implements t' ?b'" by (fact t'(2))
    show "store_ok ?b' (tl fs)" by (fact so)
    show "\<forall>k. pheld ?b' k = LFree" using hf by blast
    show "values_ok (pview ?b') E (set (n # ps)) (set (tl fs)) ov" using vo by (simp only: list.set)
    show "set (n # ps) \<inter> set (tl fs) = {}" by (fact fd)
    show "\<forall>k \<in> set (n # ps). pview ?b' k \<noteq> None" by (fact ex)
  qed (use d(4,5,7,8) ad(1,7,9) nps tw' in simp_all)
  have hc: "holds_cells (pview ?b' n) PageTypeInternal n ?cs"
    using holds_cells_norm [OF q'(2-4)] q'(5) pn(2) ad(1) by simp
  have "pview ?b' k = pview b k" if "k \<in> set ps" for k
    by (rule vw) (use that d(8) nps in auto)
  then show ?thesis using that [OF run idl rt hc _ nps ad(1)] by blast
qed
section \<open>A separator in a parent\<close>

text \<open>The longest key for which the two halves of a full internal node always fit in a page each.\<close>

abbreviation (input) max_key :: nat where "max_key \<equiv> 187"

definition short_seps :: "(u32 \<Rightarrow> page option) \<Rightarrow> u32 list \<Rightarrow> bool" where
  "short_seps V ps \<longleftrightarrow> (\<forall>i \<in> set ps. \<forall>p ks. V i = Some p \<and> node_page p ks \<longrightarrow> (\<forall>k \<in> set ks. length (kcKey k) \<le> max_key))"

lemma node_page_unique: "node_page p ks \<Longrightarrow> node_page p ks' \<Longrightarrow> ks = ks'"
  using key_cell.dec_all [of ks] key_cell.dec_all [of ks'] by (simp add: node_page_def list_all_iff)

lemma copyCells_ok: "wf_slotted p \<Longrightarrow> copyCells p = Some (page_cells p)"
proof -
  assume w: "wf_slotted p"
  have "map (getCell p) (slots p) = map (\<lambda>i. Some (page_cells p ! i)) (slots p)"
    by (rule map_cong [OF refl]) (use getCell_nth [OF w] in simp)
  then show ?thesis
    unfolding copyCells_def using map_nth [of "page_cells p"] by (simp only: those_map_Some length_page_cells)
qed

lemma short_fits: "(\<And>k. k \<in> set ks \<Longrightarrow> length (kcKey k) \<le> max_key) \<Longrightarrow> list_all key_cell_fits ks"
  by (fastforce simp: list_all_iff key_cell_fits_def)

lemma holds_node:
  assumes "holds_cells v PageTypeInternal i (map KeyCell_Serialize ks)" "\<And>k. k \<in> set ks \<Longrightarrow> length (kcKey k) \<le> max_key"
  obtains p where "v = Some p" "node_page p ks" "GetPageID p = i"
  using assms(1) short_fits [of ks] assms(2) that by (auto simp: holds_cells_def node_page_def)

lemma parent_fits:
  assumes i: "idle_ok t b E ps fs ov" and m: "m \<in> set ps" "pview b m = Some p" "node_page p (ks1 @ k # ks2)"
    and new: "node_ok lo hi (ks1 @ k # c # ks2)" "\<And>k'. k' \<in> set (ks1 @ k # c # ks2) \<Longrightarrow> length (kcKey k') \<le> max_key"
    and sp: "space_used (map KeyCell_Serialize (ks1 @ k # ks2) @ [KeyCell_Serialize c]) \<le> PageSize"
  obtains t' p' where "insertIntoParent l (KeyCell_Serialize c) (path @ [m]) t = Some (Inr (), t')"
    "implements t' (b\<lparr>pview := (pview b)(m \<mapsto> p')\<rparr>)" "node_page p' (ks1 @ k # c # ks2)" "GetPageID p' = m"
proof -
  note d = idle_okD [OF i]
  let ?ks = "ks1 @ k # ks2" and ?new = "ks1 @ k # c # ks2" and ?ser = "map KeyCell_Serialize"
  have sf: "list_all key_cell_fits ?new" by (rule short_fits [OF new(2)])
  have pid: "GetPageID p = m" by (rule storeD(3) [OF d(13) m(2)])
  have hm: "pheld b m = LFree" "room b m" using d(3,14) pages_free_room [of b 4 m] by simp_all
  obtain q t1 where f: "FetchPageForWrite m PageTypeInternal t = Some (Inr q, t1)" "norm_page q = p"
    "implements t1 (b\<lparr>pheld := (pheld b)(m := LWrite)\<rparr>)"
    using pool.fetchW_free [OF d(1) m(2) hm(2,1) d(15), of PageTypeInternal] by blast
  have ql: "length q = PageSize" using f(2) pview_page(1) [OF d(1) m(2)] by (metis length_norm_page)
  have nq: "node_page q ?ks" using node_page_norm [OF ql] f(2) m(3) by simp
  have qc: "wf_slotted q" "page_cells q = ?ser ?ks" "GetPageID q = m"
    using nq norm_page_get(1) [OF ql] f(2) pid by (simp_all add: node_page_def)
  obtain s q1 where ins: "Page_Insert q (KeyCell_Serialize c) = Some (Inr s, q1)" "wf_slotted q1"
    "page_cells q1 = page_cells q @ [KeyCell_Serialize c]" "page_header q1 = page_header q"
    using slotted.ins_fits [OF qc(1), of "KeyCell_Serialize c"] qc(2) sp by auto
  have q1: "length q1 = PageSize" "GetPageID q1 = m" "copyCells q1 = Some (?ser (?ks @ [c]))"
    using ins(2-4) qc copyCells_ok [OF ins(2)] by (simp_all add: wf_slotted_def page_header_def)
  have srt: "sortCells routing_key routing_less (?ser (?ks @ [c])) = Some (?ser ?new)"
  proof (rule sortCells_routing)
    show "list_all key_cell_fits (?ks @ [c])" using sf by simp
  qed (use new(1) in \<open>simp_all add: node_ok_def\<close>)
  have sp': "space_used (?ser ?new) \<le> PageSize"
    using sp space_used_mset [of "?ser ?new" "?ser ?ks @ [KeyCell_Serialize c]"] by simp
  obtain p' where p': "each Page_Insert (Page_Init q1 PageTypeInternal) (?ser ?new) = Some p'" "wf_slotted p'"
    "page_cells p' = ?ser ?new" "GetPageType p' = PageTypeInternal" "GetPageID p' = GetPageID q1" "norm_page p' = p'" "length p' = PageSize"
    by (rule rebuild_page [where m = PageTypeInternal, OF q1(1) _ sp']) auto
  let ?a2 = "b\<lparr>pheld := (pheld b)(m := LWrite), pview := (pview b)(m \<mapsto> p'), ptouched := insert m (ptouched b)\<rparr>"
  have i2: "implements (putPage m p' t1) ?a2" using pool.write_held [OF f(3), of m p'] p'(6,7) by simp
  have tw: "treeWal (putPage m p' t1) \<longrightarrow> plogopen ?a2" using more_eq(1) [OF d(1) i2] d(5) by simp
  obtain t3 where t3: "logFullPage m m (putPage m p' t1) = Some t3" "implements t3 ?a2"
    by (rule logFullPage_ok [OF i2 _ _ tw, of m m]) auto
  obtain t4 where t4: "UnpinPage m True True t3 = Some (Inr (), t4)" "implements t4 (b\<lparr>pview := (pview b)(m \<mapsto> p')\<rparr>)"
    by (rule release_rewritten [OF t3(2)]) (use d(3,12) in auto)
  have "insertIntoParent l (KeyCell_Serialize c) (path @ [m]) t = Some (Inr (), t4)"
    using f(1) ins(1) q1(3) srt p'(1) t3(1) t4(1) by (subst insertIntoParent.simps) (simp add: Let_def)
  moreover have "node_page p' ?new" using p' sf by (simp add: node_page_def)
  ultimately show ?thesis using that t4(2) p'(5) q1(2) by simp
qed

lemma space_keys: "space_used (map KeyCell_Serialize ks) = HeaderSize + sum_list (map (\<lambda>k. 10 + length (kcKey k)) ks)"
  by (simp add: space_used_def comp_def KeyCell_Size_def)

lemma halves_of_node:
  assumes "\<And>k. k \<in> set ks \<Longrightarrow> length (kcKey k) \<le> max_key" "space_used (map KeyCell_Serialize ks) \<le> PageSize + 197" "2 \<le> length ks"
  shows "space_used (map KeyCell_Serialize (take (length ks div 2) ks)) \<le> PageSize"
    "space_used (map KeyCell_Serialize (NewKeyCell x [] # drop (Suc (length ks div 2)) ks)) \<le> PageSize"
proof -
  let ?s = "map (\<lambda>k. 10 + length (kcKey k)) ks" and ?q = "length ks div 2"
  have b: "\<forall>x \<in> set ?s. 10 \<le> x \<and> x \<le> 197" using assms(1) by fastforce
  have t: "sum_list ?s \<le> 4064 + 197" using assms(2) by (simp add: space_keys)
  have h: "sum_list (take ?q ?s) \<le> 4064" "sum_list (drop ?q ?s) \<le> 4064"
    using half_fits [OF b t] by simp_all
  show "space_used (map KeyCell_Serialize (take ?q ks)) \<le> PageSize" using h(1) by (simp add: space_keys take_map)
  have "drop ?q ks = ks ! ?q # drop (Suc ?q) ks" using assms(3) by (simp add: Cons_nth_drop_Suc)
  then show "space_used (map KeyCell_Serialize (NewKeyCell x [] # drop (Suc ?q) ks)) \<le> PageSize"
    using h(2) by (simp add: space_keys drop_map NewKeyCell_def KeyCell_Size_def)
qed

lemma parent_full:
  assumes i: "idle_ok t b E ps fs ov" and m: "m \<in> set ps" "pview b m = Some p" "node_page p (ks1 @ k # ks2)"
    and new: "node_ok lo hi (ks1 @ k # c # ks2)" "\<And>k'. k' \<in> set (ks1 @ k # c # ks2) \<Longrightarrow> length (kcKey k') \<le> max_key"
    and sp: "PageSize < space_used (map KeyCell_Serialize (ks1 @ k # ks2) @ [KeyCell_Serialize c])"
    and pf: "pfile b div PageSize < 2 ^ 32"
  obtains n t' b' xs y ys where
    "insertIntoParent l (KeyCell_Serialize c) (path @ [m]) t = insertIntoParent m (KeyCell_Serialize (NewKeyCell n (kcKey y))) path t'"
    "ks1 @ k # c # ks2 = xs @ y # ys" "xs \<noteq> []" "implements t' b'" "split_frame b fs m n b'"
    "\<exists>p. pview b' m = Some p \<and> node_page p xs" "\<exists>p. pview b' n = Some p \<and> node_page p (NewKeyCell (ChildPageID y) [] # ys)"
proof -
  note d = idle_okD [OF i]
  let ?ks = "ks1 @ k # ks2" and ?new = "ks1 @ k # c # ks2" and ?ser = "map KeyCell_Serialize"
  have sf: "list_all key_cell_fits ?new" by (rule short_fits [OF new(2)])
  have hm: "pheld b m = LFree" "room b m" using d(3,14) pages_free_room [of b 4 m] by simp_all
  obtain q t1 where f: "FetchPageForWrite m PageTypeInternal t = Some (Inr q, t1)" "norm_page q = p"
    "implements t1 (b\<lparr>pheld := (pheld b)(m := LWrite)\<rparr>)"
    using pool.fetchW_free [OF d(1) m(2) hm(2,1) d(15), of PageTypeInternal] by blast
  have plen: "length p = PageSize" by (rule pview_page(1) [OF d(1) m(2)])
  have ql: "length q = PageSize" using f(2) plen by (metis length_norm_page)
  have nq: "node_page q ?ks" using node_page_norm [OF ql] f(2) m(3) by simp
  have qc: "wf_slotted q" "page_cells q = ?ser ?ks" using nq by (simp_all add: node_page_def)
  have ins: "Page_Insert q (KeyCell_Serialize c) = Some (Inl ErrPageFull, q)"
    by (rule Page_Insert_full [OF qc(1)]) (use sp qc(2) new(2) [of c] in \<open>simp_all add: KeyCell_Size_def\<close>)
  obtain q2 where q2: "getPage m t1 = Some q2" "norm_page q2 = p" "length q2 = PageSize"
    using impl_getPage [OF f(3), of m] m(2) by auto
  have n2: "node_page q2 ?ks" using node_page_norm [OF q2(3)] q2(2) m(3) by simp
  have cp: "copyCells q2 = Some (?ser ?ks)" using copyCells_ok [of q2] n2 by (simp add: node_page_def)
  have srt: "sortCells routing_key routing_less (?ser ?ks @ [KeyCell_Serialize c]) = Some (?ser ?new)"
    using sortCells_routing [of "?ks @ [c]" ?new] sf new(1) by (simp add: node_ok_def)
  define q where "q = length ?new div 2"
  have ln: "2 \<le> length ?new" by simp
  note smid = split_mid [OF ln, folded q_def]
  let ?xs = "take q ?new" and ?y = "?new ! q" and ?ys = "drop (Suc q) ?new"
  let ?right = "NewKeyCell (ChildPageID ?y) [] # ?ys"
  have tot: "space_used (?ser ?new) \<le> PageSize + 197"
  proof -
    have "space_used (?ser ?ks) \<le> PageSize" using slotted.inv_cap [OF qc(1)] qc(2) by simp
    moreover have "length (kcKey c) \<le> max_key" using new(2) by simp
    ultimately show ?thesis unfolding space_keys by simp
  qed
  note hv = halves_of_node(1) [OF new(2) tot ln, folded q_def] halves_of_node(2) [OF new(2) tot ln, folded q_def, of "ChildPageID ?y"]
  have mm: "m \<noteq> 0" "m \<notin> set fs" using m(1) d(8,9) by auto
  have twt: "treeWal t1 \<longrightarrow> plogopen b" using more_eq(1) [OF d(1) f(3)] d(5) by simp
  obtain n t2 qn t3 q3 ql' qr' t4 t5 t6 t' b' where sp2:
    "allocatePage PageTypeInternal (putPage m (Page_Init q2 PageTypeInternal) t1) = Some (Inr n, t2)"
    "FetchPageForWrite n PageTypeInternal t2 = Some (Inr qn, t3)"
    "getPage m t3 = Some q3" "each Page_Insert q3 (?ser ?xs) = Some ql'" "each Page_Insert qn (?ser ?right) = Some qr'"
    "GetPageID ql' = m" "GetPageID qr' = n"
    "logFullPage m m (putPage n qr' (putPage m ql' t3)) = Some t4" "logFullPage n n t4 = Some t5"
    "dropUnpin m True True t5 = Some t6" "dropUnpin n True True t6 = Some t'"
    "implements t' b'" "holds_cells (pview b' m) PageTypeInternal m (?ser ?xs)"
    "holds_cells (pview b' n) PageTypeInternal n (?ser ?right)" "split_frame b fs m n b'"
    by (rule split_pages [where ty = PageTypeInternal, OF f(3) d(2,3,12,4) twt mm q2(1) pf _ hv]) auto
  have dy: "DeserializeKeyCell (KeyCell_Serialize ?y) = Some ?y"
    using sf smid(3) by (intro key_cell.dec_enc) (auto simp: list_all_length)
  have nth: "?ser ?new ! q = KeyCell_Serialize ?y" using smid(3) by (simp only: nth_map)
  have "splitInternalNode m (KeyCell_Serialize c) t1 = Some (Inr (m, KeyCell_Serialize (NewKeyCell n (kcKey ?y))), t')"
  proof -
    have l: "length (?ser ?new) div 2 = q" by (simp add: q_def)
    have tk: "take q (?ser ?new) = ?ser ?xs" "drop (q + 1) (?ser ?new) = ?ser ?ys" by (simp_all only: take_map drop_map Suc_eq_plus1)
    have cons: "KeyCell_Serialize (NewKeyCell (ChildPageID ?y) []) # ?ser ?ys = ?ser ?right" by simp
    show ?thesis
      unfolding splitInternalNode_def q2(1) bind.bind_lunit cp srt Let_def sp2(1-3) prod.case sum.case l tk sp2(4) nth dy cons sp2(5)
      using sp2(6-11) by simp
  qed
  then have run: "insertIntoParent l (KeyCell_Serialize c) (path @ [m]) t =
      insertIntoParent m (KeyCell_Serialize (NewKeyCell n (kcKey ?y))) path t'"
    using f(1) ins by (subst insertIntoParent.simps) (simp add: Let_def)
  have sk: "length (kcKey k') \<le> max_key" if "k' \<in> set ?xs \<or> k' \<in> set ?right" for k'
  proof -
    have "k' \<in> set ?new \<or> k' = NewKeyCell (ChildPageID ?y) []"
      using that in_set_takeD [of k' q ?new] in_set_dropD [of k' "Suc q" ?new] by auto
    then show ?thesis using new(2) by (auto simp: NewKeyCell_def)
  qed
  obtain pl where pl: "pview b' m = Some pl" "node_page pl ?xs" by (rule holds_node [OF sp2(13)]) (use sk in blast)+
  obtain pr where pr: "pview b' n = Some pr" "node_page pr ?right" by (rule holds_node [OF sp2(14)]) (use sk in blast)+
  show ?thesis
    by (rule that [OF run smid(2,1) sp2(12,15)]) (use pl pr in blast)+
qed
section \<open>Passing a separator up the search path\<close>

inductive_cases hole_snocE: "hole V h r (path @ [m]) c d lo hi A B PA PB"
inductive_cases hole_NilE: "hole V h r [] c d lo hi A B PA PB"

lemma mset_split_list: "X @ Y = Z \<Longrightarrow> mset (PA @ (m # X) @ (n # Y) @ PB) = add_mset n (mset (PA @ (m # Z) @ PB))"
  by auto

lemma short_sepsD:
  "short_seps V ps \<Longrightarrow> i \<in> set ps \<Longrightarrow> V i = Some p \<Longrightarrow> node_page p ks \<Longrightarrow> k \<in> set ks \<Longrightarrow> length (kcKey k) \<le> max_key"
  unfolding short_seps_def by blast

lemma short_seps_frame:
  assumes "short_seps V ps" "\<And>i. i \<in> set ps' \<Longrightarrow> i \<in> set ps \<and> V' i = V i \<or>
     (\<exists>p ks. V' i = Some p \<and> node_page p ks \<and> (\<forall>k \<in> set ks. length (kcKey k) \<le> max_key))"
  shows "short_seps V' ps'"
  unfolding short_seps_def
proof (intro ballI allI impI, elim conjE)
  fix i p ks k assume a: "i \<in> set ps'" "V' i = Some p" "node_page p ks" "k \<in> set ks"
  from assms(2) [OF a(1)] show "length (kcKey k) \<le> max_key"
  proof
    assume "i \<in> set ps \<and> V' i = V i"
    then show ?thesis using short_sepsD [OF assms(1)] a by metis
  next
    assume "\<exists>p ks. V' i = Some p \<and> node_page p ks \<and> (\<forall>k \<in> set ks. length (kcKey k) \<le> max_key)"
    then show ?thesis using a node_page_unique by (metis option.inject)
  qed
qed

lemma grow_root:
  assumes i: "idle_ok t b E (ps1 @ ps2) fs ov" and tr: "tree_at (pview b) h c [] (Some K) es1 ps1" "tree_at (pview b) h n K None es2 ps2"
    and K: "[] < K" "length K \<le> max_key" and sh: "short_seps (pview b) (ps1 @ ps2)" and pf: "pfile b div PageSize < 2 ^ 32"
  shows "\<exists>t' b' h' ps' fs'. insertIntoParent c (KeyCell_Serialize (NewKeyCell n K)) [] t = Some (Inr (), t') \<and>
    idle_ok t' b' E ps' fs' ov \<and> tree_at (pview b') h' (rootPageID t') [] None (es1 @ es2) ps' \<and> short_seps (pview b') ps' \<and> h' \<le> Suc h"
proof -
  let ?ks = "[NewKeyCell c [], NewKeyCell n K]"
  have sp: "space_used [KeyCell_Serialize (NewKeyCell c []), KeyCell_Serialize (NewKeyCell n K)] \<le> PageSize"
    using K(2) by (simp add: KeyCell_Size_def NewKeyCell_def)
  obtain r t' b' where r: "newRoot c (KeyCell_Serialize (NewKeyCell n K)) t = Some (Inr (), t')" "idle_ok t' b' E (r # ps1 @ ps2) (tl fs) ov"
    "rootPageID t' = r"
    "holds_cells (pview b' r) PageTypeInternal r [KeyCell_Serialize (NewKeyCell c []), KeyCell_Serialize (NewKeyCell n K)]"
    "\<And>k. k \<in> set (ps1 @ ps2) \<Longrightarrow> pview b' k = pview b k" "r \<notin> set (ps1 @ ps2)" "r \<noteq> 0"
    by (rule newRoot_ok [OF i pf sp]) blast
  have sk: "\<And>k. k \<in> set ?ks \<Longrightarrow> length (kcKey k) \<le> max_key" using K(2) by (auto simp: NewKeyCell_def)
  obtain p where p: "pview b' r = Some p" "node_page p ?ks"
    by (rule holds_node [of _ r ?ks]) (use r(4) sk in auto)
  have tr': "tree_at (pview b') h c [] (Some K) es1 ps1" "tree_at (pview b') h n K None es2 ps2"
    by (rule tree_at_cong [OF _ tr(1)], use r(5) in simp) (rule tree_at_cong [OF _ tr(2)], use r(5) in simp)
  have "kids (pview b') h [] None ?ks [es1, es2] [ps1, ps2]" using tr' by (simp add: NewKeyCell_def)
  moreover have "node_ok [] None ?ks" using K(1) by (simp add: node_ok_def NewKeyCell_def in_range_def less_imp_le)
  ultimately have "tree_at (pview b') (Suc h) r [] None (concat [es1, es2]) (r # concat [ps1, ps2])"
    unfolding tree_at_Suc using p r(7) by blast
  then have "tree_at (pview b') (Suc h) (rootPageID t') [] None (es1 @ es2) (r # ps1 @ ps2)" by (simp add: r(3) del: tree_at.simps)
  moreover have "short_seps (pview b') (r # ps1 @ ps2)"
  proof (rule short_seps_frame [OF sh])
    fix i assume "i \<in> set (r # ps1 @ ps2)"
    then consider "i = r" | "i \<in> set (ps1 @ ps2)" by auto
    then show "i \<in> set (ps1 @ ps2) \<and> pview b' i = pview b i \<or>
      (\<exists>p ks. pview b' i = Some p \<and> node_page p ks \<and> (\<forall>k \<in> set ks. length (kcKey k) \<le> max_key))"
      using r(5) p sk by cases blast+
  qed
  moreover have "insertIntoParent c (KeyCell_Serialize (NewKeyCell n K)) [] t = Some (Inr (), t')"
    using r(1) by (subst insertIntoParent.simps) simp
  ultimately show ?thesis using r(2) order_refl [of "Suc h"] by blast
qed

lemma insertIntoParent_ok:
  assumes "idle_ok t b E (PA @ ps1 @ ps2 @ PB) fs ov" "hole (pview b) h (rootPageID t) path c d lo hi A B PA PB"
    and "tree_at (pview b) d c lo (Some K) es1 ps1" "tree_at (pview b) d n K hi es2 ps2" "lo < K" "in_range lo hi K"
    and "length K \<le> max_key" "short_seps (pview b) (PA @ ps1 @ ps2 @ PB)" "pfile b div PageSize + length path < 2 ^ 32"
  shows "\<exists>t' b' h' ps' fs'. insertIntoParent c (KeyCell_Serialize (NewKeyCell n K)) path t = Some (Inr (), t') \<and>
    idle_ok t' b' E ps' fs' ov \<and> tree_at (pview b') h' (rootPageID t') [] None (A @ es1 @ es2 @ B) ps' \<and>
    short_seps (pview b') ps' \<and> h' \<le> Suc h"
  using assms
proof (induction path arbitrary: t b PA ps1 ps2 PB fs c d lo hi A B K es1 es2 n rule: rev_induct)
  case Nil
  have e: "c = rootPageID t" "d = h" "lo = []" "hi = None" "A = []" "B = []" "PA = []" "PB = []"
    using Nil.prems(2) by (auto elim: hole_NilE)
  have "pfile b div PageSize < 2 ^ 32" using Nil.prems(9) by simp
  from grow_root [OF _ _ _ _ Nil.prems(7) _ this, of t E ps1 ps2 fs ov h c es1 n es2] show ?case
    using Nil.prems(1,3,4,5,8) by (simp add: e)
next
  case (snoc m path)
  let ?V = "pview b"
  obtain lo0 hi0 A0 B0 PA0 PB0 p ks1 k ks2 ess1 pss1 ess2 pss2 where hc:
    "hole ?V h (rootPageID t) path m (Suc d) lo0 hi0 A0 B0 PA0 PB0" "m \<noteq> 0" "?V m = Some p" "node_page p (ks1 @ k # ks2)"
    "node_ok lo0 hi0 (ks1 @ k # ks2)" "kids ?V d lo0 (Some (kcKey k)) ks1 ess1 pss1" "kids ?V d (kcKey (hd ks2)) hi0 ks2 ess2 pss2"
    and e: "c = ChildPageID k" "lo = (if ks1 = [] then lo0 else kcKey k)" "hi = nxt hi0 ks2" "A = A0 @ concat ess1"
    "B = concat ess2 @ B0" "PA = PA0 @ m # concat pss1" "PB = concat pss2 @ PB0"
    using snoc.prems(2) by (rule hole_snocE) auto
  define ck where "ck = NewKeyCell n K"
  have ck: "kcKey ck = K" "ChildPageID ck = n" by (simp_all add: ck_def NewKeyCell_def)
  let ?new = "ks1 @ k # ck # ks2" and ?ess = "ess1 @ es1 # es2 # ess2" and ?pss = "pss1 @ ps1 # ps2 # pss2"
  let ?ps = "PA @ ps1 @ ps2 @ PB"
  note d = idle_okD [OF snoc.prems(1)]
  have mps: "m \<in> set ?ps" by (simp add: e)
  have pseq: "?ps = PA0 @ (m # concat ?pss) @ PB0" by (simp add: e)
  have eseq: "A @ es1 @ es2 @ B = A0 @ concat ?ess @ B0" by (simp add: e)
  have dist: "distinct (PA0 @ (m # concat ?pss) @ PB0)" using d(7) unfolding pseq .
  have new: "node_ok lo0 hi0 ?new"
    by (rule node_insert [OF hc(5)]) (use snoc.prems(5,6) e ck in simp_all)
  have kd: "kids ?V d lo0 hi0 ?new ?ess ?pss"
    by (rule kids_insert [OF hc(6,7)]) (use snoc.prems(3,4) e ck in simp_all)
  have sh: "length (kcKey k') \<le> max_key" if "k' \<in> set ?new" for k'
    using that short_sepsD [OF snoc.prems(8) mps hc(3,4)] snoc.prems(7) ck by auto
  show ?case
  proof (cases "space_used (map KeyCell_Serialize (ks1 @ k # ks2) @ [KeyCell_Serialize ck]) \<le> PageSize")
    case True
    obtain t' p' where f: "insertIntoParent c (KeyCell_Serialize ck) (path @ [m]) t = Some (Inr (), t')"
      "implements t' (b\<lparr>pview := (pview b)(m \<mapsto> p')\<rparr>)" "node_page p' ?new" "GetPageID p' = m"
      by (rule parent_fits [OF snoc.prems(1) mps hc(3,4) new sh True])
    let ?V' = "?V(m \<mapsto> p')"
    have "kids ?V' d lo0 hi0 ?new ?ess ?pss" by (rule kids_cong [OF _ kd]) (use dist in auto)
    moreover have "?V' m = Some p'" by simp
    ultimately have "tree_at ?V' (Suc d) m lo0 hi0 (concat ?ess) (m # concat ?pss)"
      unfolding tree_at_Suc using hc(2) f(3) new by blast
    moreover have "hole ?V' h (rootPageID t) path m (Suc d) lo0 hi0 A0 B0 PA0 PB0"
      by (rule hole_frame [OF hc(1)]) (use dist in auto)
    ultimately have "tree_at ?V' h (rootPageID t) [] None (A0 @ concat ?ess @ B0) (PA0 @ (m # concat ?pss) @ PB0)"
      using hole_plug by blast
    then have "tree_at ?V' h (rootPageID t') [] None (A @ es1 @ es2 @ B) ?ps"
      using more_eq(2) [OF d(1) f(2)] unfolding eseq pseq by simp
    moreover have "idle_ok t' (b\<lparr>pview := ?V'\<rparr>) E ?ps fs ov" by (rule idle_page [OF snoc.prems(1) f(2) mps f(4)])
    moreover have "short_seps ?V' ?ps"
      by (rule short_seps_frame [OF snoc.prems(8)]) (use f(3) sh in auto)
    moreover have "pview (b\<lparr>pview := ?V'\<rparr>) = ?V'" by simp
    ultimately show ?thesis using f(1) le_SucI [OF order_refl, of h] unfolding ck_def by metis
  next
    case False
    have full: "PageSize < space_used (map KeyCell_Serialize (ks1 @ k # ks2) @ [KeyCell_Serialize ck])" using False by simp
    have pf: "pfile b div PageSize < 2 ^ 32" using snoc.prems(9) by simp
    obtain n' t' b' xs y ys where f:
      "insertIntoParent c (KeyCell_Serialize ck) (path @ [m]) t = insertIntoParent m (KeyCell_Serialize (NewKeyCell n' (kcKey y))) path t'"
      "?new = xs @ y # ys" "xs \<noteq> []" "implements t' b'" "split_frame b fs m n' b'"
      "\<exists>p. pview b' m = Some p \<and> node_page p xs" "\<exists>p. pview b' n' = Some p \<and> node_page p (NewKeyCell (ChildPageID y) [] # ys)"
      by (rule parent_full [OF snoc.prems(1) mps hc(3,4) new sh full pf, of c path])
    let ?V' = "pview b'" and ?x = "length xs"
    have vw: "?V' x = ?V x" if "x \<noteq> 0" "x \<noteq> m" "x \<noteq> n'" for x using f(5) that by (simp add: split_frame_def)
    have nn: "n' \<notin> set ?ps" "n' \<noteq> 0"
      using idle_new_page(1) [OF _ snoc.prems(1), of n'] f(5) by (auto simp: split_frame_def)
    note ns = node_split [OF new [unfolded f(2)] f(3)]
    note ks = kids_split [OF kd [unfolded f(2)] f(3)]
    let ?pl = "m # concat (take ?x ?pss)" and ?pr = "n' # concat (drop ?x ?pss)"
    have cc: "concat (take ?x ?pss) @ concat (drop ?x ?pss) = concat ?pss" "concat (take ?x ?ess) @ concat (drop ?x ?ess) = concat ?ess"
      by (metis append_take_drop_id concat_append)+
    have old: "x \<in> set (concat ?pss)" if "x \<in> set (concat (take ?x ?pss)) \<or> x \<in> set (concat (drop ?x ?pss))" for x
      using that cc(1) by (metis Un_iff set_append)
    have fr: "?V x = ?V' x" if "x \<in> set (concat ?pss)" for x
    proof -
      have "x \<in> set ?ps" "x \<noteq> m" using that dist unfolding pseq by auto
      then show ?thesis using vw [of x] d(8) nn(1) by metis
    qed
    have k1: "kids ?V' d lo0 (Some (kcKey y)) xs (take ?x ?ess) (take ?x ?pss)"
      by (rule kids_cong [OF _ ks(1)]) (use fr old in blast)
    have k2: "kids ?V' d (kcKey y) hi0 (NewKeyCell (ChildPageID y) [] # ys) (drop ?x ?ess) (drop ?x ?pss)"
      by (rule kids_cong [OF _ ks(2)]) (use fr old in blast)
    have t1: "tree_at ?V' (Suc d) m lo0 (Some (kcKey y)) (concat (take ?x ?ess)) ?pl"
      unfolding tree_at_Suc using hc(2) f(6) ns(1) k1 by blast
    have t2: "tree_at ?V' (Suc d) n' (kcKey y) hi0 (concat (drop ?x ?ess)) ?pr"
      unfolding tree_at_Suc using nn(2) f(7) ns(2) k2 by blast
    let ?ps' = "PA0 @ ?pl @ ?pr @ PB0"
    have ms: "mset ?ps' = add_mset n' (mset ?ps)" unfolding pseq by (rule mset_split_list [OF cc(1)])
    have dp: "distinct ?ps'" "set ?ps' = insert n' (set ?ps)"
    proof -
      have m: "mset ?ps' = mset (n' # ?ps)" using ms by simp
      have "distinct (n' # ?ps)" using nn(1) d(7) by simp
      then show "distinct ?ps'" using mset_eq_imp_distinct_iff [OF m] by blast
      show "set ?ps' = insert n' (set ?ps)" using mset_eq_setD [OF m] by simp
    qed
    have ex: "?V' m \<noteq> None" "?V' n' \<noteq> None" using f(6,7) by auto
    note id = idle_split [OF snoc.prems(1) f(5,4) mps dp ex]
    have hole': "hole ?V' h (rootPageID t') path m (Suc d) lo0 hi0 A0 B0 PA0 PB0"
      unfolding id(4)
    proof (rule hole_frame [OF hc(1)])
      fix x assume x: "x \<in> set PA0 \<union> set PB0"
      then have "x \<in> set ?ps" "x \<noteq> m" using dist unfolding pseq by auto
      then show "?V' x = ?V x" using vw [of x] d(8) nn(1) by metis
    qed
    have yn: "y \<in> set ?new" using f(2) by simp
    have sh': "short_seps ?V' ?ps'"
    proof (rule short_seps_frame [OF snoc.prems(8)])
      fix i assume i: "i \<in> set ?ps'"
      have xk: "length (kcKey k') \<le> max_key" if "k' \<in> set xs \<or> k' \<in> set (NewKeyCell (ChildPageID y) [] # ys)" for k'
        using that sh [of k'] f(2) by (auto simp: NewKeyCell_def)
      show "i \<in> set ?ps \<and> ?V' i = ?V i \<or> (\<exists>p ks. ?V' i = Some p \<and> node_page p ks \<and> (\<forall>k \<in> set ks. length (kcKey k) \<le> max_key))"
      proof (cases "i = m \<or> i = n'")
        case True
        then show ?thesis using f(6,7) xk by blast
      next
        case False
        then have ip: "i \<in> set ?ps" using i unfolding dp(2) by blast
        then have "i \<noteq> 0" using d(8) by metis
        then show ?thesis using vw [of i] False ip by blast
      qed
    qed
    have pf': "pfile b' div PageSize + length path < 2 ^ 32"
    proof -
      have "pfile b' \<le> pfile b + PageSize" using f(5) by (simp add: split_frame_def)
      then have "pfile b' div PageSize \<le> Suc (pfile b div PageSize)"
        using div_le_mono [of "pfile b'" "pfile b + PageSize" PageSize] by simp
      then show ?thesis using snoc.prems(9) by simp
    qed
    have "\<exists>t'' b'' h' ps' fs'. insertIntoParent m (KeyCell_Serialize (NewKeyCell n' (kcKey y))) path t' = Some (Inr (), t'') \<and>
      idle_ok t'' b'' E ps' fs' ov \<and>
      tree_at (pview b'') h' (rootPageID t'') [] None (A0 @ concat (take ?x ?ess) @ concat (drop ?x ?ess) @ B0) ps' \<and>
      short_seps (pview b'') ps' \<and> h' \<le> Suc h"
      by (rule snoc.IH [OF id(1) hole' t1 t2 ns(3,4) sh [OF yn] sh' pf'])
    moreover have "A0 @ concat (take ?x ?ess) @ concat (drop ?x ?ess) @ B0 = A @ es1 @ es2 @ B"
      unfolding eseq by (simp only: append_assoc [symmetric] cc(2))
    ultimately show ?thesis using f(1) unfolding ck_def by simp
  qed
qed
section \<open>Splitting a leaf\<close>

lemma holds_leaf:
  assumes "holds_cells v PageTypeLeaf i (map KVCell_Serialize kvs)" "list_all kv_cell_fits kvs"
  obtains p where "v = Some p" "leaf_page p kvs" "GetPageID p = i"
  using assms that by (auto simp: holds_cells_def leaf_page_def)

lemma leaf_not_node: "leaf_page p kvs \<Longrightarrow> \<not> node_page p ks"
  by (simp add: leaf_page_def node_page_def)

text \<open>Giving up the latch of a leaf that has not been written to.\<close>

lemma mid_idle:
  assumes m: "mid_ok t b l E ps fs ov" and ex: "\<And>k. k \<in> set ps \<Longrightarrow> pview b k \<noteq> None"
  obtains t0 where "idle_ok t0 b E ps fs ov" "rootPageID t0 = rootPageID t"
proof -
  note d = mid_okD [OF m]
  let ?a = "b\<lparr>pheld := (pheld b)(l := LWrite)\<rparr>"
  obtain t0 where u: "implements t0 (?a\<lparr>pheld := (pheld ?a)(l := LFree), ptouched := ptouched ?a - {l}\<rparr>)"
    using pool.unpin_write [OF d(1), of l True] by auto
  have "(pheld b)(l := LWrite, l := LFree) = pheld b" using d(3) by (simp add: fun_upd_idem)
  then have "b\<lparr>pheld := (pheld b)(l := LWrite, l := LFree), ptouched := {}\<rparr> = b" using d(4) by (simp add: pool.equality)
  then have i: "implements t0 b" using u d(4) by simp
  note r = more_eq [OF d(1) i]
  have "idle_ok t0 b E ps fs ov" using i d(2,3,5-9,11,16) ex r by (simp add: idle_ok_def)
  then show ?thesis using that r by simp
qed

lemma routing_between:
  assumes "sorted_wrt (<) (map Key ys)" "\<And>e. e \<in> set ys \<Longrightarrow> in_range lo hi (Key e)" "2 \<le> length ys"
  defines "q \<equiv> length ys div 2"
  shows "lo < Key (ys ! q)" "in_range lo hi (Key (ys ! q))" "q < length ys"
    "\<And>e. e \<in> set (take q ys) \<Longrightarrow> in_range lo (Some (Key (ys ! q))) (Key e)"
    "\<And>e. e \<in> set (drop q ys) \<Longrightarrow> in_range (Key (ys ! q)) hi (Key e)"
proof -
  show q: "q < length ys" using assms(3) by (simp add: q_def)
  have q0: "0 < q" using assms(3) by (simp add: q_def)
  have lt: "Key (ys ! i) < Key (ys ! j)" if "i < j" "j < length ys" for i j
    using sorted_wrt_nth_less [OF assms(1)] that by simp
  show "in_range lo hi (Key (ys ! q))" using assms(2) q by simp
  have "ys ! 0 \<in> set ys" using q by (intro nth_mem) auto
  then have "lo \<le> Key (ys ! 0)" using assms(2) by (simp add: in_range_def)
  then show "lo < Key (ys ! q)" using lt [OF q0 q] by simp
  fix e
  show "in_range lo (Some (Key (ys ! q))) (Key e)" if t: "e \<in> set (take q ys)"
  proof -
    obtain i where "i < q" "e = ys ! i" using t by (auto simp: in_set_conv_nth)
    then show ?thesis using lt [of i q] q assms(2) [of "ys ! i"] by (simp add: in_range_def)
  qed
  show "in_range (Key (ys ! q)) hi (Key e)" if t: "e \<in> set (drop q ys)"
  proof -
    obtain i where i: "q \<le> i" "i < length ys" "e = ys ! i"
      using t by (auto simp: in_set_conv_nth) (metis add.commute le_add1 less_diff_conv)
    then show ?thesis using lt [of q i] assms(2) [of "ys ! i"] by (cases "i = q") (auto simp: in_range_def)
  qed
qed

lemma splitLeafCells_run:
  assumes m: "mid_ok t b l E ps fs ov" and ex: "\<And>k. k \<in> set ps \<Longrightarrow> pview b k \<noteq> None"
    and xs: "list_all kv_cell_fits xs" "mset ys = mset xs" "sorted_wrt (<) (map Key ys)" "2 \<le> length ys"
    and hv: "space_used (map KVCell_Serialize (take (length ys div 2) ys)) \<le> PageSize"
      "space_used (map KVCell_Serialize (drop (length ys div 2) ys)) \<le> PageSize"
    and pf: "pfile b div PageSize < 2 ^ 32"
  obtains n t' b' where
    "splitLeafCells l path (map KVCell_Serialize xs) t =
       insertIntoParent l (KeyCell_Serialize (NewKeyCell n (Key (ys ! (length ys div 2))))) path t'"
    "implements t' b'" "split_frame b fs l n b'"
    "\<exists>p. pview b' l = Some p \<and> leaf_page p (take (length ys div 2) ys)"
    "\<exists>p. pview b' n = Some p \<and> leaf_page p (drop (length ys div 2) ys)"
proof -
  note d = mid_okD [OF m]
  define q where "q = length ys div 2"
  have q: "q < length ys" using xs(4) by (simp add: q_def)
  let ?ser = "map KVCell_Serialize"
  have yf: "list_all kv_cell_fits ys" using xs(1) mset_eq_setD [OF xs(2)] by (simp add: list_all_iff)
  have srt: "sortCells kv_key kv_less (?ser xs) = Some (?ser ys)" by (rule sortCells_kv [OF xs(1-3)])
  obtain g where g: "getPage l t = Some g"
    using impl_getPage [OF d(1), of l] ex [OF d(10)] by auto
  obtain n t1 qn t2 ql ql' qr' t4 t5 t6 t' b' where s:
    "allocatePage PageTypeLeaf (putPage l (Page_Init g PageTypeLeaf) t) = Some (Inr n, t1)" "FetchPageForWrite n PageTypeLeaf t1 = Some (Inr qn, t2)"
    "getPage l t2 = Some ql" "each Page_Insert ql (?ser (take q ys)) = Some ql'" "each Page_Insert qn (?ser (drop q ys)) = Some qr'"
    "GetPageID ql' = l" "GetPageID qr' = n"
    "logFullPage l l (putPage n qr' (putPage l ql' t2)) = Some t4" "logFullPage n n t4 = Some t5"
    "dropUnpin l True True t5 = Some t6" "dropUnpin n True True t6 = Some t'"
    "implements t' b'" "holds_cells (pview b' l) PageTypeLeaf l (?ser (take q ys))"
    "holds_cells (pview b' n) PageTypeLeaf n (?ser (drop q ys))" "split_frame b fs l n b'"
    by (rule split_pages [where ty = PageTypeLeaf, OF d(1-6,12,13) g pf _ hv [folded q_def]]) auto
  have k: "kv_key (?ser ys ! q) = Some (Key (ys ! q))"
    using q yf by (simp add: kv_key_cell list_all_length)
  have "splitLeafCells l path (?ser xs) t = insertIntoParent l (KeyCell_Serialize (NewKeyCell n (Key (ys ! q)))) path t'"
  proof -
    have l: "length (?ser ys) div 2 = q" "q < length (?ser ys) \<longleftrightarrow> True" by (simp_all add: q_def q [unfolded q_def])
    have tk: "take q (?ser ys) = ?ser (take q ys)" "drop q (?ser ys) = ?ser (drop q ys)" by (simp_all only: take_map drop_map)
    show ?thesis
      unfolding splitLeafCells_def srt bind.bind_lunit g Let_def s(1-3) prod.case sum.case l tk s(4,5) if_True k
      using s(2-11) by simp
  qed
  moreover have "list_all kv_cell_fits (take q ys)" "list_all kv_cell_fits (drop q ys)"
    using yf by (auto simp: list_all_iff dest: in_set_takeD in_set_dropD)
  then have "\<exists>p. pview b' l = Some p \<and> leaf_page p (take q ys)" "\<exists>p. pview b' n = Some p \<and> leaf_page p (drop q ys)"
    using holds_leaf [OF s(13)] holds_leaf [OF s(14)] by metis+
  ultimately show ?thesis using that s(12,15) unfolding q_def by blast
qed

lemma splitLeafCells_ok:
  assumes m: "mid_ok t b l (set (A @ ys @ B)) (PA @ [l] @ PB) fs ov"
    and hole: "hole (pview b) h (rootPageID t) path l 0 lo hi A B PA PB" and ex: "\<And>k. k \<in> set (PA @ [l] @ PB) \<Longrightarrow> pview b k \<noteq> None"
    and xs: "list_all kv_cell_fits xs" "mset ys = mset xs" "sorted_wrt (<) (map Key ys)" "2 \<le> length ys"
    and rg: "\<And>e. e \<in> set ys \<Longrightarrow> in_range lo hi (Key e)" and len: "length (Key (ys ! (length ys div 2))) \<le> max_key"
    and hv: "space_used (map KVCell_Serialize (take (length ys div 2) ys)) \<le> PageSize"
      "space_used (map KVCell_Serialize (drop (length ys div 2) ys)) \<le> PageSize"
    and sh: "short_seps (pview b) (PA @ [l] @ PB)" and pf: "pfile b div PageSize + length path + 1 < 2 ^ 32"
  shows "\<exists>t' b' h' ps' fs'. splitLeafCells l path (map KVCell_Serialize xs) t = Some (Inr (), t') \<and>
    db_ok t' b' h' (A @ ys @ B) ps' fs' ov \<and> short_seps (pview b') ps' \<and> h' \<le> Suc h"
proof -
  define q where "q = length ys div 2"
  let ?ps = "PA @ [l] @ PB" and ?E = "set (A @ ys @ B)" and ?K = "Key (ys ! q)"
  have pf0: "pfile b div PageSize < 2 ^ 32" using pf by simp
  obtain n t' b' where r:
    "splitLeafCells l path (map KVCell_Serialize xs) t = insertIntoParent l (KeyCell_Serialize (NewKeyCell n ?K)) path t'"
    "implements t' b'" "split_frame b fs l n b'" "\<exists>p. pview b' l = Some p \<and> leaf_page p (take q ys)"
    "\<exists>p. pview b' n = Some p \<and> leaf_page p (drop q ys)"
    by (rule splitLeafCells_run [OF m ex xs hv pf0, folded q_def])
  obtain t0 where i0: "idle_ok t0 b ?E ?ps fs ov" "rootPageID t0 = rootPageID t" by (rule mid_idle [OF m ex])
  note d = idle_okD [OF i0(1)] and bt = routing_between [OF xs(3) rg xs(4), folded q_def]
  have nn: "n \<notin> set ?ps" "n \<noteq> 0"
    using idle_new_page(1) [OF _ i0(1), of n] r(3) by (auto simp: split_frame_def)
  let ?ps' = "PA @ [l] @ [n] @ PB"
  have dp: "distinct ?ps'" "set ?ps' = insert n (set ?ps)" using d(7) nn(1) by auto
  have exn: "pview b' l \<noteq> None" "pview b' n \<noteq> None" using r(4,5) by auto
  have lps: "l \<in> set ?ps" by simp
  note id = idle_split [OF i0(1) r(3,2) lps dp exn]
  have vw: "pview b' x = pview b x" if "x \<in> set PA \<union> set PB" for x
  proof -
    have "x \<noteq> l" "x \<noteq> n" "x \<noteq> 0" using that d(7,8) nn(1) by auto
    then show ?thesis using r(3) by (simp add: split_frame_def)
  qed
  have hole': "hole (pview b') h (rootPageID t') path l 0 lo hi A B PA PB"
    unfolding id(4) i0(2) by (rule hole_frame [OF hole vw])
  have st: "sorted_wrt (<) (map Key (take q ys))" "sorted_wrt (<) (map Key (drop q ys))"
    using xs(3) by (simp_all add: take_map drop_map sorted_wrt_take sorted_wrt_drop flip: take_map drop_map)
  have t1: "tree_at (pview b') 0 l lo (Some ?K) (take q ys) [l]" using d(8) r(4) st(1) bt(4) by simp
  have t2: "tree_at (pview b') 0 n ?K hi (drop q ys) [n]" using nn(2) r(5) st(2) bt(5) by simp
  have sh': "short_seps (pview b') ?ps'"
    unfolding short_seps_def
  proof (intro ballI allI impI, elim conjE)
    fix i p ks k assume a: "i \<in> set ?ps'" "pview b' i = Some p" "node_page p ks" "k \<in> set ks"
    have "i \<noteq> l" "i \<noteq> n" using r(4,5) a(2,3) leaf_not_node by auto
    then have "i \<in> set PA \<union> set PB" using a(1) by auto
    then show "length (kcKey k) \<le> max_key" using short_sepsD [OF sh _ _ a(3,4)] vw [of i] a(2) by auto
  qed
  have pf': "pfile b' div PageSize + length path < 2 ^ 32"
  proof -
    have "pfile b' \<le> pfile b + PageSize" using r(3) by (simp add: split_frame_def)
    then have "pfile b' div PageSize \<le> Suc (pfile b div PageSize)"
      using div_le_mono [of "pfile b'" "pfile b + PageSize" PageSize] by simp
    then show ?thesis using pf by simp
  qed
  obtain t'' b'' h' ps'' fs'' where f: "insertIntoParent l (KeyCell_Serialize (NewKeyCell n ?K)) path t' = Some (Inr (), t'')"
    "idle_ok t'' b'' ?E ps'' fs'' ov" "tree_at (pview b'') h' (rootPageID t'') [] None (A @ take q ys @ drop q ys @ B) ps''"
    "short_seps (pview b'') ps''" "h' \<le> Suc h"
    using insertIntoParent_ok [OF id(1) hole' t1 t2 bt(1,2) len [folded q_def] sh' pf'] by blast
  have "A @ take q ys @ drop q ys @ B = A @ ys @ B" by (metis append_assoc append_take_drop_id)
  then show ?thesis using r(1) f unfolding db_ok_idle by metis
qed
end
