(* ===== verification/Tree_Grow.thy ===== *)
theory Tree_Grow imports Tree_Split
begin

text \<open>Upserts that split leaves: \<^verbatim>\<open>upsertCell\<close> of \<^verbatim>\<open>btree.go\<close> with its call of
  \<^verbatim>\<open>splitLeafCells\<close> and \<^verbatim>\<open>insertIntoParent\<close>, the databases of small cells, on which every
  upsert succeeds, and the runs of a client that reads and writes such a database.\<close>

section \<open>An upsert that splits the leaf\<close>

text \<open>The two halves, by number of cells, into which a full leaf is split when the key is added to it fit in a
  page each, and the separator is short enough for the inner nodes.\<close>

definition upsert_halves :: "bytes \<Rightarrow> bytes \<Rightarrow> KVCell list \<Rightarrow> bool" where
  "upsert_halves key val kvs \<longleftrightarrow>
     (let ys = put (NewKVCell 0 key (replicate (stored_len val) 0)) kvs; q = length ys div 2
      in space_used (map KVCell_Serialize (take q ys)) \<le> PageSize \<and>
         space_used (map KVCell_Serialize (drop q ys)) \<le> PageSize \<and> length (Key (ys ! q)) \<le> max_key)"

lemma space_sizes:
  assumes "map KVCell_Size xs = map KVCell_Size ys"
  shows "space_used (map KVCell_Serialize xs) = space_used (map KVCell_Serialize ys)"
proof -
  have "map (\<lambda>c. SlotSize + length c) (map KVCell_Serialize zs) = map (\<lambda>n. SlotSize + n) (map KVCell_Size zs)" for zs by simp
  then show ?thesis using assms by (simp only: space_used_def)
qed

lemma put_shape:
  assumes "Key kv = Key kv'" "length (Value kv) = length (Value kv')"
  shows "map Key (put kv kvs) = map Key (put kv' kvs)" "map KVCell_Size (put kv kvs) = map KVCell_Size (put kv' kvs)"
  using assms by (simp_all add: put_def KVCell_Size_def)

lemma upsert_halvesD:
  assumes "upsert_halves key val kvs" "Key kv = key" "length (Value kv) = stored_len val"
  defines "q \<equiv> length (put kv kvs) div 2"
  shows "space_used (map KVCell_Serialize (take q (put kv kvs))) \<le> PageSize"
    "space_used (map KVCell_Serialize (drop q (put kv kvs))) \<le> PageSize"
    "length (Key (put kv kvs ! q)) \<le> max_key"
proof -
  let ?z = "NewKVCell 0 key (replicate (stored_len val) 0)"
  have z: "Key kv = Key ?z" "length (Value kv) = length (Value ?z)" using assms(2,3) by (simp_all add: NewKVCell_def)
  note p = put_shape [OF z, of kvs]
  have l: "length (put kv kvs) = length (put ?z kvs)" using arg_cong [OF p(1), of length] by simp
  have q: "q < length (put kv kvs)" unfolding q_def by (simp add: put_def)
  have h: "space_used (map KVCell_Serialize (take q (put ?z kvs))) \<le> PageSize"
    "space_used (map KVCell_Serialize (drop q (put ?z kvs))) \<le> PageSize" "length (Key (put ?z kvs ! q)) \<le> max_key"
    using assms(1) unfolding upsert_halves_def Let_def q_def l by blast+
  have "map KVCell_Size (take q (put kv kvs)) = map KVCell_Size (take q (put ?z kvs))"
    "map KVCell_Size (drop q (put kv kvs)) = map KVCell_Size (drop q (put ?z kvs))"
    using p(2) by (metis take_map drop_map)+
  then show "space_used (map KVCell_Serialize (take q (put kv kvs))) \<le> PageSize"
    "space_used (map KVCell_Serialize (drop q (put kv kvs))) \<le> PageSize"
    using h(1,2) space_sizes by metis+
  have "Key (put kv kvs ! q) = Key (put ?z kvs ! q)" using p(1) q l by (metis nth_map)
  then show "length (Key (put kv kvs ! q)) \<le> max_key" using h(3) by simp
qed

lemma upsert_split:
  assumes pre: "upsert_pre t a h es ps fs ov key val flag path l kvs"
    and nc: "\<And>e. e \<in> set kvs \<Longrightarrow> writeConflict (fst (ExtractMVCCKey key)) (snd (ExtractMVCCKey key)) tm (Key e) = None"
    and full: "\<not> upsert_room key val kvs" and hv: "upsert_halves key val kvs" and sh: "short_seps (pview a) ps"
    and pf: "pfile a div PageSize + length val + length path + 1 < 2 ^ 32"
  obtains t' a' h' ps' fs' ov' kv where "upsertCell key val flag tm t = Some (Inr (), (tm, t'))"
    "db_ok t' a' h' (put kv es) ps' fs' ov'" "Key kv = key" "snd (ov' kv) = val" "IsDeleted kv \<longleftrightarrow> flag = KEY_DELETED_FLAG"
    "Flag kv = KEY_DELETED_FLAG \<longleftrightarrow> flag = KEY_DELETED_FLAG \<and> length val \<le> MaxInlineValueSize"
    "\<forall>e. Key e \<noteq> key \<longrightarrow> ov' e = ov e" "short_seps (pview a') ps'" "h' \<le> Suc h" "length (Value kv) = stored_len val"
    "IsOverflow kv \<longleftrightarrow> length val > MaxInlineValueSize"
proof -
  obtain kv xs t3 b fs3 js val' flag' where u:
    "upsertCell key val flag tm t = (if space_used (map KVCell_Serialize xs) \<le> PageSize
       then rewriteLeaf key val' flag' l (map KVCell_Serialize xs) (tm, t3)
       else onTree tm (splitLeafCells l path (map KVCell_Serialize xs) t3))"
    "mset xs = mset (put kv kvs)" "list_all kv_cell_fits xs" "kv = NewKVCell flag' key val'"
    "mid_ok t3 b l (set (put kv es)) ps fs3 (ov(kv := (js, val)))"
    "\<And>k. k \<in> set ps \<Longrightarrow> pview b k = pview a k" "rootPageID t3 = rootPageID t"
    "length val' = stored_len val" "IsDeleted kv \<longleftrightarrow> flag = KEY_DELETED_FLAG"
    "Flag kv = KEY_DELETED_FLAG \<longleftrightarrow> flag = KEY_DELETED_FLAG \<and> length val \<le> MaxInlineValueSize"
    "pfile b \<le> pfile a + PageSize * length val" "IsOverflow kv \<longleftrightarrow> length val > MaxInlineValueSize"
    by (rule upsert_prefix [OF pre nc]) blast+
  have db: "db_ok t a h es ps fs ov" and ds: "descent (pview a) h (rootPageID t) key path l"
    and lv: "\<exists>p. pview a l = Some p \<and> leaf_page p kvs" using pre by (simp_all add: upsert_pre_def)
  have kk: "Key kv = key" "KVCell_Size kv = 5 + length key + stored_len val" "length (Value kv) = stored_len val"
    using u(4,8) by (simp_all add: NewKVCell_def KVCell_Size_def)
  note tr = db_okD(4) [OF db]
  obtain lo hi A B PA PB es' ps' where hd: "hole (pview a) h (rootPageID t) path l 0 lo hi A B PA PB"
    "tree_at (pview a) 0 l lo hi es' ps'" "in_range lo hi key" "es = A @ es' @ B" "ps = PA @ ps' @ PB"
    using hole_descend [OF hole.hole_root tr _ ds] by (auto simp: in_range_def)
  have lf: "ps' = [l]" "es' = kvs" using hd(2) lv leaf_page_unique by auto
  have rg: "in_range lo hi (Key e)" if "e \<in> set (put kv kvs)" for e
    using that hd(2,3) lf(2) kk(1) by (auto simp: set_put)
  have srt: "sorted_wrt (<) (map Key es)" by (rule tree_sorted [OF tr])
  have sk: "sorted_wrt (<) (map Key (put kv kvs))"
    by (rule sorted_put) (use srt hd(4) lf(2) in \<open>auto simp: sorted_wrt_append\<close>)
  let ?ys = "put kv kvs"
  have big: "\<not> space_used (map KVCell_Serialize xs) \<le> PageSize"
    using full space_put [OF u(2)] kk by (simp add: upsert_room_def)
  have sp: "space_used (map KVCell_Serialize xs) = space_used (map KVCell_Serialize ?ys)"
    by (rule space_used_mset) (simp add: u(2))
  note hf = upsert_halvesD [OF hv kk(1,3)]
  have two: "2 \<le> length ?ys"
  proof (rule ccontr)
    assume "\<not> ?thesis"
    then have "length ?ys div 2 = 0" by simp
    then show False using hf(2) big sp by simp
  qed
  have pb: "put kv es = A @ put kv kvs @ B"
  proof -
    obtain lo2 hi2 A2 B2 where li: "leaf_in (pview a) h (rootPageID t) [] None es ps key l lo2 hi2 A2 kvs B2"
      by (rule leaf_start [OF pre]) blast
    have e2: "es = A2 @ kvs @ B2" using li by (simp add: leaf_in_def)
    obtain x xs' where x: "kvs = x # xs'" using two by (cases kvs) (simp_all add: put_def)
    have "distinct es" using srt by (auto simp: strict_sorted_iff distinct_map)
    then have "x \<notin> set A2" "x \<notin> set (xs' @ B2)" unfolding e2 x by auto
    moreover have "A2 @ x # (xs' @ B2) = A @ x # (xs' @ B)" using e2 hd(4) lf(2) x by simp
    ultimately have eq: "A2 = A" "B2 = B" using append_Cons_eq_iff [of x A2 "xs' @ B2" A "xs' @ B"] by auto
    have "put kv (A2 @ kvs @ B2) = A2 @ put kv kvs @ B2"
      by (rule put_between) (use li kk in \<open>auto simp: leaf_in_def in_range_def split: option.splits\<close>)
    then show ?thesis unfolding e2 eq .
  qed
  have pseq: "ps = PA @ [l] @ PB" using hd(5) lf(1) by simp
  have ex: "pview b k \<noteq> None" if "k \<in> set ps" for k using tree_pages [OF tr that] u(6) [OF that] by simp
  have hole: "hole (pview b) h (rootPageID t3) path l 0 lo hi A B PA PB"
    unfolding u(7) by (rule hole_frame [OF hd(1)]) (use u(6) pseq in auto)
  have shb: "short_seps (pview b) ps"
    using sh u(6) unfolding short_seps_def by metis
  have pfb: "pfile b div PageSize + length path + 1 < 2 ^ 32"
  proof -
    have "pfile b div PageSize \<le> (pfile a + PageSize * length val) div PageSize" by (rule div_le_mono [OF u(11)])
    also have "\<dots> = pfile a div PageSize + length val" by simp
    finally show ?thesis using pf by simp
  qed
  obtain t' b' h' ps2 fs' where r: "splitLeafCells l path (map KVCell_Serialize xs) t3 = Some (Inr (), t')"
    "db_ok t' b' h' (A @ ?ys @ B) ps2 fs' (ov(kv := (js, val)))" "short_seps (pview b') ps2" "h' \<le> Suc h"
    using splitLeafCells_ok [OF u(5) [unfolded pb pseq] hole ex [unfolded pseq] u(3) u(2) [symmetric] sk two rg hf(3,1,2) shb [unfolded pseq] pfb]
    by blast
  show ?thesis
    by (rule that [of t' b' h' kv ps2 fs' "ov(kv := (js, val))"])
      (use u(1,9,10,12) big r kk pb in \<open>auto simp: onTree_def\<close>)
qed
section \<open>Databases of small cells\<close>

text \<open>Keys of 9 bytes (an empty user key) to \<^const>\<open>max_key\<close> bytes and cells of at most 258 bytes, values inline:
  then the halves of an overfull leaf always fit, since a half by number of cells cannot exceed a page.\<close>

definition small_write :: "bytes \<Rightarrow> bytes \<Rightarrow> bool" where
  "small_write key val \<longleftrightarrow> 9 \<le> length key \<and> length key \<le> max_key \<and> 5 + length key + length val \<le> 258"

definition small_cell :: "KVCell \<Rightarrow> bool" where
  "small_cell kv \<longleftrightarrow> small_write (Key kv) (Value kv) \<and> \<not> IsOverflow kv"

definition small_db ::
  "BTree \<Rightarrow> _ pool \<Rightarrow> nat \<Rightarrow> KVCell list \<Rightarrow> u32 list \<Rightarrow> u32 list \<Rightarrow> (KVCell \<Rightarrow> u32 list \<times> bytes) \<Rightarrow> bool" where
  "small_db t a h es ps fs ov \<longleftrightarrow> db_ok t a h es ps fs ov \<and> short_seps (pview a) ps \<and> list_all small_cell es"

lemma small_halves:
  assumes kvs: "space_used (map KVCell_Serialize kvs) \<le> PageSize" "list_all small_cell kvs" and kv: "small_write key val"
  shows "upsert_halves key val kvs"
proof -
  have sl: "stored_len val = length val" using kv by (simp add: stored_len_def small_write_def)
  define z where "z = NewKVCell 0 key (replicate (stored_len val) 0)"
  define ys where "ys = put z kvs"
  define q where "q = length ys div 2"
  let ?w = "\<lambda>e. SlotSize + KVCell_Size e"
  have z: "Key z = key" "length (Value z) = length val" using sl by (simp_all add: z_def NewKVCell_def)
  have sm: "small_write (Key e) (Value e)" if "e \<in> set ys" for e
    using that kvs(2) kv z by (auto simp: ys_def set_put list_all_iff small_cell_def small_write_def)
  have su: "space_used (map KVCell_Serialize xs) = HeaderSize + sum_list (map ?w xs)" for xs
    by (simp add: space_used_def comp_def)
  have b: "\<forall>x \<in> set (map ?w ys). 18 \<le> x \<and> x \<le> 262"
    using sm by (fastforce simp: small_write_def KVCell_Size_def)
  have "sum_list (map ?w ys) \<le> sum_list (map ?w kvs) + 262"
  proof -
    have "space_used (map KVCell_Serialize ys) = space_used (map KVCell_Serialize (filter (\<lambda>e. Key e \<noteq> Key z) kvs)) + SlotSize + KVCell_Size z"
      by (rule space_put) (simp add: ys_def)
    moreover have "sum_list (map ?w (filter (\<lambda>e. Key e \<noteq> Key z) kvs)) \<le> sum_list (map ?w kvs)" by (induction kvs) auto
    moreover have "SlotSize + KVCell_Size z \<le> 262" using kv z by (simp add: small_write_def KVCell_Size_def)
    ultimately show ?thesis by (simp add: su)
  qed
  moreover have "sum_list (map ?w kvs) \<le> 4064" using kvs(1) by (simp add: su)
  ultimately have "sum_list (map ?w ys) \<le> 4064 + 262" by simp
  note hf = half_fits [OF b this]
  have "sum_list (map ?w (take q ys)) \<le> 4064" "sum_list (map ?w (drop q ys)) \<le> 4064"
    using hf by (simp_all add: q_def take_map drop_map)
  moreover have "length (Key (ys ! q)) \<le> max_key"
  proof -
    have "q < length ys" unfolding q_def ys_def by (simp add: put_def)
    then show ?thesis using sm [of "ys ! q"] by (simp add: small_write_def)
  qed
  ultimately show ?thesis
    unfolding upsert_halves_def Let_def z_def [symmetric] ys_def [symmetric] q_def [symmetric] su by simp
qed

text \<open>The height of a tree is less than the number of pages of the file.\<close>

lemma tree_height: "tree_at V h i lo hi es ps \<Longrightarrow> h < length ps"
proof (induction h arbitrary: i lo hi es ps)
  case (Suc h)
  obtain ks pss ess where t: "ks \<noteq> []" "length pss = length ks" "ps = i # concat pss"
    "\<forall>j < length ks. tree_at V h (ChildPageID (ks ! j)) (low_of lo ks j) (high_of hi ks j) (ess ! j) (pss ! j)"
    using Suc.prems by auto
  have "h < length (pss ! 0)" using t(1,4) Suc.IH by blast
  moreover have "length (pss ! 0) \<le> length (concat pss)" using t(1,2) by (cases pss) auto
  ultimately show ?case using t(3) by simp
qed simp

lemma descent_length: "descent V h i key path l \<Longrightarrow> length path = h"
  by (induction h arbitrary: i path) auto

text \<open>A search takes the same path as long as the inner nodes stay as they are.\<close>

lemma descent_frame:
  assumes "tree_at V d c lo hi es ps" "\<And>k p ks. k \<in> set ps \<Longrightarrow> V k = Some p \<Longrightarrow> node_page p ks \<Longrightarrow> V' k = Some p"
    and "in_range lo hi key" "descent V d c key path l"
  shows "descent V' d c key path l"
  using assms
proof (induction d arbitrary: c lo hi es ps path)
  case (Suc d)
  obtain p ks ess pss j where c: "V c = Some p" "node_page p ks" "j < length ks" "length ess = length ks"
    "length pss = length ks" "es = concat ess" "ps = c # concat pss"
    "nextChild p key = Some (ChildPageID (ks ! j))" "in_range (low_of lo ks j) (high_of hi ks j) key"
    "tree_at V d (ChildPageID (ks ! j)) (low_of lo ks j) (high_of hi ks j) (ess ! j) (pss ! j)"
    by (rule tree_child [OF Suc.prems(1,3)])
  obtain path' where d: "path = c # path'" "descent V d (ChildPageID (ks ! j)) key path' l" using Suc.prems(4) c(1,8) by auto
  have sub: "set (pss ! j) \<subseteq> set ps" using nth_mem [of j pss] c(3,5,7) by auto
  have "descent V' d (ChildPageID (ks ! j)) key path' l"
    by (rule Suc.IH [OF c(10) _ c(9) d(2)]) (use Suc.prems(2) sub in blast)
  moreover have "V' c = Some p" using Suc.prems(2) [of c p ks] c(1,2,7) by simp
  ultimately show ?case using c(8) d(1) by auto
qed simp

lemma page_in_file:
  assumes "implements t a" "pview a k \<noteq> None"
  shows "unat k < pfile a div PageSize"
proof -
  have "disk_page (pager t) k \<noteq> None"
  proof (cases "frame_at t k")
    case None
    then show ?thesis using assms(2) implements_sel(1) [OF assms(1), symmetric] by (simp add: page_view_def)
  next
    case (Some fr)
    then show ?thesis using wf_frame [OF implements_wf [OF assms(1)]] by (simp add: frame_ok_def)
  qed
  then show ?thesis using implements_sel(6) [OF assms(1)] by (auto simp: disk_page_def split: if_splits)
qed

lemma height_bound:
  assumes "db_ok t a h es ps fs ov"
  shows "h < pfile a div PageSize"
proof -
  have i: "implements t a" using db_okD(1) [OF assms] by (simp add: store_def)
  have "unat k < pfile a div PageSize" if "k \<in> set ps" for k
    by (rule page_in_file [OF i tree_pages [OF db_okD(4) [OF assms] that]])
  then have "unat ` set ps \<subseteq> {..<pfile a div PageSize}" by auto
  then have "card (unat ` set ps) \<le> pfile a div PageSize" using card_mono [of "{..<pfile a div PageSize}"] by fastforce
  moreover have "inj_on unat (set ps)" by (rule inj_onI) (simp add: word_unat_eq_iff)
  then have "card (unat ` set ps) = length ps"
    using db_okD(5) [OF assms] by (simp add: card_image distinct_card)
  ultimately show ?thesis using tree_height [OF db_okD(4) [OF assms]] by simp
qed
lemma small_cell_value: "db_ok t a h es ps fs ov \<Longrightarrow> e \<in> set es \<Longrightarrow> \<not> IsOverflow e \<Longrightarrow> snd (ov e) = Value e"
  using db_okD(7) by (fastforce simp: cell_value_def)

lemma db_ok_impl: "db_ok t a h es ps fs ov \<Longrightarrow> implements t' a \<Longrightarrow> db_ok t' a h es ps fs ov"
  using more_eq [of t a t' a] by (simp add: db_ok_alt)

lemma tree_leaf_sub:
  assumes "upsert_pre t a h es ps fs ov key val flag path l kvs"
  shows "set kvs \<subseteq> set es"
  by (rule leaf_start [OF assms]) (auto simp: leaf_in_def)

lemma upsert_pre_small:
  assumes "small_db t a h es ps fs ov" "small_write key val" "flag = 0 \<or> flag = KEY_DELETED_FLAG"
    and "2 * (pfile a div PageSize) + 300 < 2 ^ 32"
  obtains path l kvs where "upsert_pre t a h es ps fs ov key val flag path l kvs" "list_all small_cell kvs"
    "upsert_halves key val kvs" "pfile a div PageSize + length val + length path + 1 < 2 ^ 32" "l \<in> set ps"
proof -
  have db: "db_ok t a h es ps fs ov" using assms(1) by (simp add: small_db_def)
  obtain l leaf path t1 kvs where f: "leaf_page leaf kvs" "pview a l = Some (norm_page leaf)" "length leaf = PageSize"
    "l \<in> set ps" "descent (pview a) h (rootPageID t) key path l"
    by (rule findLeafPage_ok [OF db, of key True])
  have ln: "length val \<le> 258" "length key < 64000" "length val < 2 ^ 32" using assms(2) by (simp_all add: small_write_def)
  have up: "upsert_pre t a h es ps fs ov key val flag path l kvs"
    using db f(1,2,5) leaf_page_norm [OF f(3)] ln assms(3,4) by (auto simp: upsert_pre_def)
  have sm: "list_all small_cell kvs" using assms(1) tree_leaf_sub [OF up] by (auto simp: small_db_def list_all_iff)
  have "space_used (map KVCell_Serialize kvs) \<le> PageSize"
    using f(1) slotted.inv_cap [of leaf] by (simp add: leaf_page_def)
  note hv = small_halves [OF this sm assms(2)]
  have "pfile a div PageSize + length val + length path + 1 < 2 ^ 32"
    using height_bound [OF db] descent_length [OF f(5)] ln(1) assms(4) by simp
  then show ?thesis using that [OF up sm hv] f(4) by blast
qed

text \<open>An upsert on a database of small cells: it is rejected for a conflict and changes nothing, or it puts
  the cell of the key in its place.\<close>

definition upsert_effect ::
  "bytes \<Rightarrow> bytes \<Rightarrow> u8 \<Rightarrow> KVCell list \<Rightarrow> goerr + unit \<Rightarrow> KVCell list \<Rightarrow> bool" where
  "upsert_effect key val flag es r es' \<longleftrightarrow>
     (case r of Inl err \<Rightarrow> (\<exists>u v. err = ErrConflictRunning u v \<or> err = ErrConflictNewer u v) \<and> es' = es
      | Inr _ \<Rightarrow> \<exists>kv. Key kv = key \<and> Value kv = val \<and> (IsDeleted kv \<longleftrightarrow> flag = KEY_DELETED_FLAG) \<and> es' = put kv es)"

lemma small_put: "list_all small_cell es \<Longrightarrow> small_cell kv \<Longrightarrow> list_all small_cell (put kv es)"
  by (auto simp: list_all_iff set_put)

lemma upsert_small:
  assumes s: "small_db t a h es ps fs ov" and w: "small_write key val" and fl: "flag = 0 \<or> flag = KEY_DELETED_FLAG"
    and pf: "2 * (pfile a div PageSize) + 300 < 2 ^ 32"
  shows "\<exists>r tm' t' a' h' es' ps' fs' ov'. upsertCell key val flag tm t = Some (r, (tm', t')) \<and>
    small_db t' a' h' es' ps' fs' ov' \<and> upsert_effect key val flag es r es'"
proof -
  obtain path l kvs where p: "upsert_pre t a h es ps fs ov key val flag path l kvs" "list_all small_cell kvs"
    "upsert_halves key val kvs" "pfile a div PageSize + length val + length path + 1 < 2 ^ 32" "l \<in> set ps"
    by (rule upsert_pre_small [OF s w fl pf])
  have db: "db_ok t a h es ps fs ov" "short_seps (pview a) ps" "list_all small_cell es" using s by (simp_all add: small_db_def)
  have ln: "length val \<le> 1024" "stored_len val = length val" using w by (simp_all add: small_write_def stored_len_def)
  let ?C = "\<lambda>e. writeConflict (fst (ExtractMVCCKey key)) (snd (ExtractMVCCKey key)) tm (Key e)"
  have fin: "small_db t' a' h' (put kv es) ps' fs' ov' \<and> upsert_effect key val flag es (Inr ()) (put kv es)"
    if "db_ok t' a' h' (put kv es) ps' fs' ov'" "Key kv = key" "snd (ov' kv) = val" "IsDeleted kv \<longleftrightarrow> flag = KEY_DELETED_FLAG"
      "short_seps (pview a') ps'" "IsOverflow kv \<longleftrightarrow> 1024 < length val" for t' a' h' kv ps' fs' ov'
  proof -
    have v: "Value kv = val" using small_cell_value [OF that(1), of kv] that(3,6) ln(1) by (simp add: set_put)
    have "small_cell kv" using w v that(2,6) ln(1) by (simp add: small_cell_def)
    then show ?thesis using that v small_put [OF db(3)] by (auto simp: small_db_def upsert_effect_def)
  qed
  show ?thesis
  proof (cases "find (\<lambda>e. ?C e \<noteq> None) kvs")
    case (Some e)
    then obtain err where er: "?C e = Some err" by (auto simp: find_Some_iff)
    obtain t' where t': "upsertCell key val flag tm t = Some (Inl err, (tm, t'))" "implements t' a"
      by (rule upsert_conflict [OF p(1) ln(1) _ Some er]) (use p(2) in \<open>auto simp: list_all_iff small_cell_def\<close>)
    have "small_db t' a h es ps fs ov" using db_ok_impl [OF db(1) t'(2)] db(2,3) by (simp add: small_db_def)
    moreover have "upsert_effect key val flag es (Inl err) es" using writeConflict_error [OF er] by (auto simp: upsert_effect_def)
    ultimately show ?thesis using t'(1) by blast
  next
    case None
    then have nc: "?C e = None" if "e \<in> set kvs" for e using that by (auto simp: find_None_iff)
    show ?thesis
    proof (cases "upsert_room key val kvs")
      case True
      obtain tm' t' a' fs' ov' kv where u: "upsertCell key val flag tm t = Some (Inr (), (tm', t'))"
        "db_ok t' a' h (put kv es) ps fs' ov'" "Key kv = key" "snd (ov' kv) = val" "IsDeleted kv \<longleftrightarrow> flag = KEY_DELETED_FLAG"
        "\<And>k. k \<in> set ps \<Longrightarrow> k \<noteq> l \<Longrightarrow> pview a' k = pview a k"
        "\<exists>p. pview a' l = Some p \<and> leaf_page p (put kv kvs)" "IsOverflow kv \<longleftrightarrow> 1024 < length val"
        by (rule upsert_in_place [OF p(1) nc True]) blast+
      have "short_seps (pview a') ps"
        unfolding short_seps_def
      proof (intro ballI allI impI, elim conjE)
        fix i q ks k assume i: "i \<in> set ps" "pview a' i = Some q" "node_page q ks" "k \<in> set ks"
        then have "i \<noteq> l" using u(7) leaf_not_node by auto
        then show "length (kcKey k) \<le> max_key" using short_sepsD [OF db(2) i(1) _ i(3,4)] u(6) [OF i(1)] i(2) by simp
      qed
      from fin [OF u(2-5) this u(8)] show ?thesis using u(1) by blast
    next
      case False
      obtain t' a' h' ps' fs' ov' kv where u: "upsertCell key val flag tm t = Some (Inr (), (tm, t'))"
        "db_ok t' a' h' (put kv es) ps' fs' ov'" "Key kv = key" "snd (ov' kv) = val" "IsDeleted kv \<longleftrightarrow> flag = KEY_DELETED_FLAG"
        "short_seps (pview a') ps'" "IsOverflow kv \<longleftrightarrow> 1024 < length val"
        by (rule upsert_split [OF p(1) nc False p(3) db(2) p(4)]) blast+
      from fin [OF u(2-7)] show ?thesis using u(1) by blast
    qed
  qed
qed

section \<open>The tree as a map\<close>

text \<open>What a store of keys promises its clients: a write either fails and changes nothing or maps the key to
  the value, or to a tombstone (\<^const>\<open>None\<close>), a read returns what the map says and changes nothing, and neither gets stuck.\<close>

type_synonym kvmap = "bytes \<Rightarrow> bytes option option"

definition read_result :: "bytes option option \<Rightarrow> goerr + bytes" where
  "read_result x = (case x of Some (Some v) \<Rightarrow> Inr v | _ \<Rightarrow> Inl ErrKeyNotFound)"

locale kv_store =
  fixes holds :: "'s \<Rightarrow> kvmap \<Rightarrow> bool" and upsert :: "bytes \<Rightarrow> bytes option \<Rightarrow> 's \<Rightarrow> ((goerr + unit) \<times> 's) option"
    and lookup :: "bytes \<Rightarrow> 's \<Rightarrow> ((goerr + bytes) \<times> 's) option"
    and admits :: "'s \<Rightarrow> bytes \<Rightarrow> bytes option \<Rightarrow> bool"
  assumes upsert_spec: "holds s m \<Longrightarrow> admits s k w \<Longrightarrow>
      \<exists>r s'. upsert k w s = Some (r, s') \<and> holds s' (case r of Inl _ \<Rightarrow> m | Inr _ \<Rightarrow> m(k \<mapsto> w))"
    and lookup_spec: "holds s m \<Longrightarrow> \<exists>s'. lookup k s = Some (read_result (m k), s') \<and> holds s' m"
begin

lemma upsert_keeps: "upsert k w s = Some (r, s') \<Longrightarrow> holds s m \<Longrightarrow> admits s k w \<Longrightarrow>
    holds s' (case r of Inl _ \<Rightarrow> m | Inr _ \<Rightarrow> m(k \<mapsto> w))"
  using upsert_spec [of s m k w] by auto

lemma lookup_keeps: "lookup k s = Some (r, s') \<Longrightarrow> holds s m \<Longrightarrow> holds s' m \<and> r = read_result (m k)"
  using lookup_spec [of s m k] by auto

text \<open>Writing one key and reading any other, or reading it twice, is reading it before the write.\<close>

lemma write_read:
  assumes "holds s m" "admits s k w" "upsert k w s = Some (Inr (), s')"
  shows "\<exists>s2. lookup k' s' = Some (if k' = k then read_result (Some w) else read_result (m k'), s2)"
  using lookup_spec [OF upsert_keeps [OF assms(3,1,2)], of k'] by auto

lemma failed_write_read:
  assumes "holds s m" "admits s k w" "upsert k w s = Some (Inl e, s')"
  shows "\<exists>s2. lookup k' s' = Some (read_result (m k'), s2)"
  using lookup_spec [OF upsert_keeps [OF assms(3,1,2)], of k'] by auto

end

text \<open>The entries of a tree as a map, the states of transaction manager and tree that hold a map in small
  cells, and the writes they admit while page ids last.\<close>

definition cell_content :: "KVCell \<Rightarrow> bytes option" where
  "cell_content kv = (if IsDeleted kv then None else Some (Value kv))"

definition contents :: "KVCell list \<Rightarrow> kvmap" where
  "contents es k = map_option cell_content (find (\<lambda>kv. Key kv = k) es)"

definition tree_holds :: "TransactionManager option \<times> BTree \<Rightarrow> kvmap \<Rightarrow> bool" where
  "tree_holds s m \<longleftrightarrow> (\<exists>a h es ps fs ov. small_db (snd s) a h es ps fs ov \<and> m = contents es)"

definition tree_admits :: "TransactionManager option \<times> BTree \<Rightarrow> bytes \<Rightarrow> bytes option \<Rightarrow> bool" where
  "tree_admits s k w \<longleftrightarrow> small_write k (case w of None \<Rightarrow> [] | Some v \<Rightarrow> v) \<and> 2 * page_count (pager (snd s)) + 300 < 2 ^ 32"

definition tree_upsert ::
  "bytes \<Rightarrow> bytes option \<Rightarrow> TransactionManager option \<times> BTree \<Rightarrow> ((goerr + unit) \<times> (TransactionManager option \<times> BTree)) option" where
  "tree_upsert k w s = (case w of None \<Rightarrow> Delete k (fst s) (snd s) | Some v \<Rightarrow> Insert k v (fst s) (snd s))"

definition tree_lookup ::
  "bytes \<Rightarrow> TransactionManager option \<times> BTree \<Rightarrow> ((goerr + bytes) \<times> (TransactionManager option \<times> BTree)) option" where
  "tree_lookup k s = map_option (\<lambda>(r, t). (r, (fst s, t))) (Find k (snd s))"

lemma contents_put:
  assumes "sorted_wrt (<) (map Key es)"
  shows "contents (put kv es) = (contents es)(Key kv \<mapsto> cell_content kv)"
  by (auto simp: contents_def find_put [OF assms] fun_eq_iff)

lemma tree_upsert_spec:
  assumes "tree_holds s m" "tree_admits s k w"
  shows "\<exists>r s'. tree_upsert k w s = Some (r, s') \<and> tree_holds s' (case r of Inl _ \<Rightarrow> m | Inr _ \<Rightarrow> m(k \<mapsto> w))"
proof -
  obtain a h es ps fs ov where s: "small_db (snd s) a h es ps fs ov" "m = contents es"
    using assms(1) by (auto simp: tree_holds_def)
  let ?flag = "case w of None \<Rightarrow> KEY_DELETED_FLAG | Some _ \<Rightarrow> (0 :: u8)" and ?v = "case w of None \<Rightarrow> [] | Some v \<Rightarrow> v"
  have db: "db_ok (snd s) a h es ps fs ov" using s(1) by (simp add: small_db_def)
  have im: "implements (snd s) a" using db by (simp add: db_ok_alt)
  have pf: "2 * (pfile a div PageSize) + 300 < 2 ^ 32"
    using assms(2) implements_sel(6) [OF im] by (simp add: tree_admits_def page_count_def)
  have w: "small_write k ?v" using assms(2) by (simp add: tree_admits_def)
  have fl: "?flag = 0 \<or> ?flag = KEY_DELETED_FLAG" by (cases w) simp_all
  obtain r tm' t' a' h' es' ps' fs' ov' where u: "upsertCell k ?v ?flag (fst s) (snd s) = Some (r, (tm', t'))"
    "small_db t' a' h' es' ps' fs' ov'" "upsert_effect k ?v ?flag es r es'"
    using upsert_small [OF s(1) w fl pf, of "fst s"] by blast
  have "contents es' = (case r of Inl _ \<Rightarrow> m | Inr _ \<Rightarrow> m(k \<mapsto> w))"
    using u(3) contents_put [OF tree_sorted [OF db_okD(4) [OF db]]] s(2)
    by (auto simp: upsert_effect_def flag_values cell_content_def split: sum.splits option.splits)
  then have "tree_holds (tm', t') (case r of Inl _ \<Rightarrow> m | Inr _ \<Rightarrow> m(k \<mapsto> w))"
    using u(2) unfolding tree_holds_def by (metis snd_conv)
  moreover have "tree_upsert k w s = Some (r, (tm', t'))"
    using u(1) by (cases w) (simp_all add: tree_upsert_def Insert_def Delete_def)
  ultimately show ?thesis by blast
qed

lemma tree_lookup_spec:
  assumes "tree_holds s m"
  shows "\<exists>s'. tree_lookup k s = Some (read_result (m k), s') \<and> tree_holds s' m"
proof -
  obtain a h es ps fs ov where s: "small_db (snd s) a h es ps fs ov" "m = contents es"
    using assms by (auto simp: tree_holds_def)
  have db: "db_ok (snd s) a h es ps fs ov" "list_all small_cell es" "short_seps (pview a) ps" using s(1) by (simp_all add: small_db_def)
  obtain t' where f: "Find k (snd s) = Some (find_result ov (find (\<lambda>kv. Key kv = k) es), t')" "implements t' a"
    using Find_ok [OF db(1)] by blast
  have "small_db t' a h es ps fs ov" using db_ok_impl [OF db(1) f(2)] db(2,3) by (simp add: small_db_def)
  then have "tree_holds (fst s, t') m" unfolding tree_holds_def snd_conv using s(2) by blast
  moreover have "find_result ov (find (\<lambda>kv. Key kv = k) es) = read_result (m k)"
  proof (cases "find (\<lambda>kv. Key kv = k) es")
    case None
    then show ?thesis by (simp add: find_result_def read_result_def contents_def s(2))
  next
    case (Some e)
    then have "e \<in> set es" by (auto simp: find_Some_iff)
    then have "snd (ov e) = Value e" using small_cell_value [OF db(1)] db(2) by (simp add: list_all_iff small_cell_def)
    then show ?thesis using Some by (simp add: find_result_def read_result_def contents_def cell_content_def s(2))
  qed
  ultimately show ?thesis using f(1) by (auto simp: tree_lookup_def)
qed

interpretation small_tree: kv_store tree_holds tree_upsert tree_lookup tree_admits
  by unfold_locales (fact tree_upsert_spec, fact tree_lookup_spec)

section \<open>Runs of clients\<close>

text \<open>The steps of clients of one tree, in any order: writes (they may be refused), reads of a version, snapshot
  reads and, between them, any change of the transaction manager, which other clients begin and end transactions with.
  A run records the writes that succeeded.\<close>

inductive run :: "TransactionManager option \<times> BTree \<Rightarrow> (bytes \<times> bytes option) list \<Rightarrow> TransactionManager option \<times> BTree \<Rightarrow> bool"
  for s where
  run_start: "run s [] s"
| run_write: "run s tr s1 \<Longrightarrow> tree_admits s1 k w \<Longrightarrow> tree_upsert k w s1 = Some (Inr (), s2) \<Longrightarrow> run s (tr @ [(k, w)]) s2"
| run_refused: "run s tr s1 \<Longrightarrow> tree_admits s1 k w \<Longrightarrow> tree_upsert k w s1 = Some (Inl e, s2) \<Longrightarrow> run s tr s2"
| run_read: "run s tr s1 \<Longrightarrow> tree_lookup k s1 = Some (r, s2) \<Longrightarrow> run s tr s2"
| run_snapshot: "run s tr (tm, t1) \<Longrightarrow> FindLatest k tm t1 = Some (r, t2) \<Longrightarrow> run s tr (tm, t2)"
| run_txn: "run s tr (tm, t1) \<Longrightarrow> run s tr (tm', t1)"

definition replay :: "kvmap \<Rightarrow> (bytes \<times> bytes option) list \<Rightarrow> kvmap" where
  "replay m tr = foldl (\<lambda>m (k, w). m(k \<mapsto> w)) m tr"

lemma replay_simps [simp]: "replay m [] = m" "replay m (tr @ [(k, w)]) = (replay m tr)(k \<mapsto> w)"
  by (simp_all add: replay_def)

lemma latest_keeps:
  assumes "tree_holds (tm, t) m" "FindLatest k tm2 t = Some (r, t')"
  shows "tree_holds (tm', t') m"
proof -
  obtain a h es ps fs ov where s: "small_db t a h es ps fs ov" "m = contents es"
    using assms(1) by (auto simp: tree_holds_def)
  have db: "db_ok t a h es ps fs ov" "list_all small_cell es" "short_seps (pview a) ps" using s(1) by (simp_all add: small_db_def)
  have "implements t' a" using FindLatest_ok [OF db(1), of k tm2] assms(2) by auto
  then have "small_db t' a h es ps fs ov" using db_ok_impl [OF db(1)] db(2,3) by (simp add: small_db_def)
  then show ?thesis unfolding tree_holds_def snd_conv using s(2) by blast
qed

lemma run_holds: "run s tr s' \<Longrightarrow> tree_holds s m \<Longrightarrow> tree_holds s' (replay m tr)"
proof (induction rule: run.induct)
  case (run_write tr s1 k w s2)
  then have "tree_holds s2 (case (Inr () :: goerr + unit) of Inl _ \<Rightarrow> replay m tr | Inr _ \<Rightarrow> (replay m tr)(k \<mapsto> w))"
    by (intro small_tree.upsert_keeps) blast+
  then show ?case by (simp only: replay_simps sum.case)
next
  case (run_refused tr s1 k w e s2)
  then show ?case using small_tree.upsert_keeps [OF run_refused.hyps(3), of "replay m tr"] by simp
next
  case (run_read tr s1 k r s2)
  then show ?case using small_tree.lookup_keeps by blast
next
  case (run_snapshot tr tm t1 k r t2)
  then show ?case using latest_keeps by blast
next
  case (run_txn tr tm t1 tm')
  then show ?case by (simp add: tree_holds_def)
qed simp
section \<open>Properties of trees that grow\<close>

text \<open>C6: Insert refines the update of a sorted map also when the leaf is full. On a consistent database
  whose separators are short, when the leaf of the key has no room, the two halves by number of cells fit
  in a page and no cell of the leaf is in conflict, Insert splits the leaf, splits the inner nodes on the
  search path that are full, gives the tree a new root when the old one splits, and leaves a consistent
  database whose cells are the old ones with the cell of the key replaced or added in order; the tree has
  grown by at most one level and the key reads back. Where a half does not fit in a page the property says nothing: the
  code then drops the cells that are left over.\<close>

theorem Insert_split_refines:
  assumes "upsert_pre t a h es ps fs ov key val 0 path l kvs" "\<not> upsert_room key val kvs" "upsert_halves key val kvs"
    and "short_seps (pview a) ps" "pfile a div PageSize + length val + length path + 1 < 2 ^ 32"
    and "\<forall>e \<in> set kvs. writeConflict (fst (ExtractMVCCKey key)) (snd (ExtractMVCCKey key)) tm (Key e) = None"
  shows "\<exists>t' a' h' ps' fs' ov' kv t2. Insert key val tm t = Some (Inr (), (tm, t')) \<and>
    db_ok t' a' h' (put kv es) ps' fs' ov' \<and> short_seps (pview a') ps' \<and> h' \<le> Suc h \<and>
    Key kv = key \<and> \<not> IsDeleted kv \<and> snd (ov' kv) = val \<and> (\<forall>e. Key e \<noteq> key \<longrightarrow> ov' e = ov e) \<and>
    Find key t' = Some (Inr val, t2)"
proof -
  obtain t' a' h' ps' fs' ov' kv where u: "upsertCell key val 0 tm t = Some (Inr (), (tm, t'))"
    "db_ok t' a' h' (put kv es) ps' fs' ov'" "Key kv = key" "snd (ov' kv) = val" "IsDeleted kv \<longleftrightarrow> 0 = KEY_DELETED_FLAG"
    "\<forall>e. Key e \<noteq> key \<longrightarrow> ov' e = ov e" "short_seps (pview a') ps'" "h' \<le> Suc h"
    by (rule upsert_split [OF assms(1) _ assms(2-5), of tm]) (use assms(6) in blast)+
  have "db_ok t a h es ps fs ov" using assms(1) by (simp add: upsert_pre_def)
  note fp = find_put [OF tree_sorted [OF db_okD(4) [OF this]], of _ kv]
  obtain t2 where "Find key t' = Some (Inr val, t2)"
    using Find_ok [OF u(2), of key] fp [of key] u(3-5) by (auto simp: find_result_def flag_values)
  moreover have "\<not> IsDeleted kv" using u(5) by (simp add: flag_values)
  ultimately show ?thesis using u(1-4,6-8) unfolding Insert_def by blast
qed

definition full_cells :: "KVCell list" where
  "full_cells = map (\<lambda>w. NewKVCell 0 (BuildMVCCKey [w] 5) (replicate 1000 0)) [1, 2, 3]"

lemma full_page:
  obtains p where "leaf_page p full_cells" "GetPageID p = 1" "norm_page p = p"
proof -
  let ?p = "SetPageID (replicate PageSize 0) 1"
  have n: "norm_page (Page_Init ?p PageTypeLeaf) = Page_Init ?p PageTypeLeaf" by (rule norm_page_set(3)) simp
  have "space_used (map KVCell_Serialize full_cells) \<le> PageSize"
    by (simp add: full_cells_def KVCell_Size_def NewKVCell_def BuildMVCCKey_layout)
  from fill_page [OF _ n _ _ this] obtain q where q: "wf_slotted q" "page_cells q = map KVCell_Serialize full_cells"
    "GetPageType q = PageTypeLeaf" "GetPageID q = GetPageID ?p" "length q = PageSize" by auto
  have "list_all kv_cell_fits full_cells"
    by (simp add: full_cells_def kv_cell_fits_def NewKVCell_def BuildMVCCKey_layout)
  then have "leaf_page q full_cells" using q(1-3) by (simp add: leaf_page_def)
  then show ?thesis
    using that [of "norm_page q"] leaf_page_norm [OF q(5)] norm_page_get(1) [OF q(5)] q(4,5)
    by (simp add: page_set_same)
qed

theorem Insert_split_refines_witness:
  "\<exists>p t' t2. Insert (BuildMVCCKey [4] 5) (replicate 1001 0) None (one_leaf p) = Some (Inr (), (None, t')) \<and>
     Find (BuildMVCCKey [4] 5) t' = Some (Inr (replicate 1001 0), t2)"
proof -
  obtain p where p: "leaf_page p full_cells" "GetPageID p = 1" "norm_page p = p" by (rule full_page)
  have srt: "sorted_wrt (<) (map Key full_cells)" by (simp add: full_cells_def NewKVCell_def BuildMVCCKey_layout)
  have db: "db_ok (one_leaf p) (abs_pool (one_leaf p)) 0 full_cells [1] [] (\<lambda>kv. ([], Value kv))"
    by (rule one_leaf_ok [OF p srt]) (simp add: full_cells_def NewKVCell_def IsOverflow_def)
  have len: "length p = PageSize" using p(1) by (simp add: leaf_page_def wf_slotted_def)
  let ?key = "BuildMVCCKey [4] 5" and ?val = "replicate 1001 0"
  note pre = one_leaf_pre [OF db len, of ?key ?val 0]
  have "\<not> upsert_room ?key ?val full_cells" "upsert_halves ?key ?val full_cells"
    by (simp_all add: upsert_room_def upsert_halves_def stored_len_def full_cells_def put_def NewKVCell_def KVCell_Size_def
      BuildMVCCKey_layout Let_def)
  moreover have "short_seps (pview (abs_pool (one_leaf p))) [1]"
    using db_okD(4) [OF db] leaf_not_node by (auto simp: short_seps_def)
  ultimately show ?thesis
    using Insert_split_refines [OF pre(1), of None] pre(2) by (auto simp: BuildMVCCKey_layout writeConflict_def Let_def)
qed

text \<open>C15: A database of small cells stays one. Every write of a small key and value, and every deletion,
  returns on every database of small cells; it is refused with a conflict error and the cells are unchanged,
  or it succeeds and the cells are the old ones with the cell of the key replaced or added. Whatever
  splits it takes, no cell is lost and the result is a consistent database of small cells.\<close>

theorem small_writes_keep_database:
  assumes "small_db t a h es ps fs ov" "small_write key val" "flag = 0 \<or> flag = KEY_DELETED_FLAG"
    and "2 * (pfile a div PageSize) + 300 < 2 ^ 32"
  shows "\<exists>r tm' t' a' h' es' ps' fs' ov'. upsertCell key val flag tm t = Some (r, (tm', t')) \<and>
    small_db t' a' h' es' ps' fs' ov' \<and> upsert_effect key val flag es r es'"
  by (rule upsert_small [OF assms])

lemma demo_small: "small_db (one_leaf demo_leaf) (abs_pool (one_leaf demo_leaf)) 0 [demo_cell] [1] [] (\<lambda>kv. ([], Value kv))"
proof -
  have "tree_at (pview (abs_pool (one_leaf demo_leaf))) 0 (rootPageID (one_leaf demo_leaf)) [] None [demo_cell] [1]"
    by (rule db_okD(4) [OF demo_ok])
  then have "short_seps (pview (abs_pool (one_leaf demo_leaf))) [1]"
    using leaf_not_node by (auto simp: short_seps_def)
  moreover have "small_cell demo_cell"
    by (simp add: small_cell_def small_write_def demo_cell_def NewKVCell_def IsOverflow_def BuildMVCCKey_layout)
  ultimately show ?thesis using demo_ok by (simp add: small_db_def)
qed

lemma demo_pages: "length (fbytes (pager (one_leaf demo_leaf))) = 8192"
  using one_leaf_pre(2) [OF demo_ok, of "[]" "[]" 0] by (simp add: demo_leaf_def)

lemma small_key: "length u \<le> 100 \<Longrightarrow> length v \<le> 100 \<Longrightarrow> small_write (BuildMVCCKey u w) v"
  by (simp add: small_write_def BuildMVCCKey_layout)

theorem small_writes_keep_database_witness:
  "\<exists>r tm' t'. upsertCell (BuildMVCCKey [107] 9) [120] 0 None (one_leaf demo_leaf) = Some (r, (tm', t'))"
  using small_writes_keep_database [OF demo_small small_key [of "[107]" "[120]" 9], of 0 None] demo_pages by auto

text \<open>C1: The tree refines a map under any interleaving of clients that write small cells. Starting from a database of
  small cells (keys of 9 to 187 bytes on disk, cells of at most 258 bytes) that holds the map m, after any run of writes of
  small cells, refused ones included, reads, snapshot reads and changes of the transaction manager the tree holds the map
  that the successful writes, replayed in their order, make of m, and a read of any key returns what that map says. The
  writes of a run are those that tree_admits allows: small cells, while page ids last.\<close>

theorem run_refines_map:
  assumes "tree_holds s m" "run s tr s'"
  shows "tree_holds s' (replay m tr) \<and> (\<exists>s2. tree_lookup k s' = Some (read_result (replay m tr k), s2))"
  using run_holds [OF assms(2,1)] small_tree.lookup_spec by blast

lemma demo_holds: "tree_holds (tm, one_leaf demo_leaf) (contents [demo_cell])"
  unfolding tree_holds_def snd_conv using demo_small by blast

lemma demo_write:
  obtains tm' t' where "tree_upsert (BuildMVCCKey [107] 9) (Some [120]) (None, one_leaf demo_leaf) = Some (Inr (), (tm', t'))"
    "tree_admits (None, one_leaf demo_leaf) (BuildMVCCKey [107] 9) (Some [120])"
proof -
  have "upsert_room (BuildMVCCKey [107] 9) [120] [demo_cell]"
    by (simp add: upsert_room_def stored_len_def demo_size BuildMVCCKey_layout)
  then have "\<exists>tm' t'. Insert (BuildMVCCKey [107] 9) [120] None (one_leaf demo_leaf) = Some (Inr (), (tm', t'))"
    using insert_then_find [OF demo_pre [of "BuildMVCCKey [107] 9" "[120]" 0], of None]
    by (auto simp: writeConflict_def BuildMVCCKey_layout Let_def)
  moreover have "tree_admits (None, one_leaf demo_leaf) (BuildMVCCKey [107] 9) (Some [120])"
    using small_key [of "[107]" "[120]" 9] demo_pages by (simp add: tree_admits_def page_count_def)
  ultimately show ?thesis using that by (auto simp: tree_upsert_def)
qed

theorem run_refines_map_witness:
  "\<exists>s1 s2 s3 s4. run (None, one_leaf demo_leaf) [(BuildMVCCKey [107] 9, Some [120])] s2 \<and>
     tree_upsert (BuildMVCCKey [107] 9) (Some [120]) (None, one_leaf demo_leaf) = Some (Inr (), s1) \<and>
     tree_lookup (BuildMVCCKey [107] 9) s1 = Some (Inr [120], s2) \<and>
     tree_lookup (BuildMVCCKey [107] 9) s2 = Some (Inr [120], s3) \<and> tree_lookup (BuildMVCCKey [107] 5) s2 = Some (Inr [118], s4)"
proof -
  let ?k = "BuildMVCCKey [107] 9" and ?k5 = "BuildMVCCKey [107] 5" and ?tr = "[(BuildMVCCKey [107] 9, Some [120])]"
  let ?m = "replay (contents [demo_cell]) ?tr"
  obtain tm' t' where w: "tree_upsert ?k (Some [120]) (None, one_leaf demo_leaf) = Some (Inr (), (tm', t'))"
    "tree_admits (None, one_leaf demo_leaf) ?k (Some [120])" by (rule demo_write)
  have r1: "run (None, one_leaf demo_leaf) ?tr (tm', t')" using run_write [OF run_start w(2,1)] by simp
  have "BigPutUint64 5 < BigPutUint64 9" unfolding BigPutUint64_less by simp
  then have "BigPutUint64 5 \<noteq> BigPutUint64 9" by auto
  then have m: "read_result (?m ?k) = Inr [120]" "read_result (?m ?k5) = Inr [118]"
    by (simp_all add: replay_def read_result_def contents_def cell_content_def demo_cell_def NewKVCell_def IsDeleted_def
        BuildMVCCKey_layout)
  obtain s2 where s2: "tree_lookup ?k (tm', t') = Some (Inr [120], s2)"
    using run_refines_map [OF demo_holds r1, of ?k] m(1) by auto
  have r2: "run (None, one_leaf demo_leaf) ?tr s2" by (rule run_read [OF r1 s2])
  show ?thesis
    using run_refines_map [OF demo_holds r2, of ?k] run_refines_map [OF demo_holds r2, of ?k5] m w(1) s2 r2 by (cases s2) auto
qed

text \<open>C16: No client gets stuck. In every state that a run of clients reaches from a database of small cells,
  every admitted write, every read and every snapshot read returns: none of them panics, waits for a latch that
  is never released or runs out of frames.\<close>

theorem run_never_stuck:
  assumes "tree_holds s m" "run s tr s'"
  shows "tree_lookup k s' \<noteq> None \<and> FindLatest k tm (snd s') \<noteq> None \<and> (tree_admits s' k w \<longrightarrow> tree_upsert k w s' \<noteq> None)"
proof -
  have h: "tree_holds s' (replay m tr)" by (rule run_holds [OF assms(2,1)])
  obtain a h' es ps fs ov where "db_ok (snd s') a h' es ps fs ov" using h by (auto simp: tree_holds_def small_db_def)
  then have "FindLatest k tm (snd s') \<noteq> None" using FindLatest_ok [of "snd s'" a h' es ps fs ov k tm] by auto
  then show ?thesis using small_tree.lookup_spec [OF h, of k] small_tree.upsert_spec [OF h, of k w] by auto
qed

theorem run_never_stuck_witness:
  "tree_upsert (BuildMVCCKey [107] 9) (Some [120]) (None, one_leaf demo_leaf) \<noteq> None"
proof -
  have "tree_admits (None, one_leaf demo_leaf) (BuildMVCCKey [107] 9) (Some [120])"
    using small_key [of "[107]" "[120]" 9] demo_pages by (simp add: tree_admits_def page_count_def)
  then show ?thesis using run_never_stuck [OF demo_holds run_start, where k = "BuildMVCCKey [107] 9" and w = "Some [120]"] by simp
qed
end
