(* ===== verification/Session.thy ===== *)
theory Session
  imports Server Tree_Grow
begin

text \<open>
  Sessions of the server: what the calls of \<^verbatim>\<open>internal/engine/db.go\<close> and the lines that \<^verbatim>\<open>handleConnection\<close>
  of \<^verbatim>\<open>server.go\<close> handles do to the statuses of transactions.
\<close>

section \<open>What the operations leave of the transaction table\<close>

lemma rewriteLeaf_txns:
  assumes "rewriteLeaf key val flag l cells (Some tm, t) = Some (r, (m, t'))"
  shows "\<exists>m'. m = Some m' \<and> (\<forall>x. GetStatus m' x = GetStatus tm x)"
  using assms by (auto simp: rewriteLeaf_def Let_def split: bind_splits if_splits sum.splits prod.splits)

lemma upsertCell_txns:
  assumes "upsertCell key val flag (Some tm) t = Some (r, (m, t'))"
  shows "\<exists>m'. m = Some m' \<and> (\<forall>x. GetStatus m' x = GetStatus tm x)"
  using assms unfolding upsertCell_def upsertValue_def andThen_eq_Some onTree_eq_Some
  by (auto simp: andThen_eq_Some onTree_eq_Some Let_def split: if_splits dest!: rewriteLeaf_txns)

lemma Rollback_status:
  assumes "Rollback txid tm t = Some (r, (tm', t'))"
  shows "GetStatus tm' x = (if x = txid then case r of Inl _ \<Rightarrow> TXN_ROLLINGBACK | Inr _ \<Rightarrow> TXN_ROLLEDBACK else GetStatus tm x)"
  using assms by (auto simp: Rollback_def Let_def andThen_eq_Some onTree_eq_Some)

lemma Commit_status:
  assumes "Commit txid tm t = (r, (tm', t'))"
  shows "GetStatus tm' x = (if x = txid \<and> \<not> isl r then TXN_COMMITED else GetStatus tm x)"
  using assms by (auto simp: Commit_def Let_def split: if_splits sum.splits prod.splits)

section \<open>Status of a transaction after the engine's calls\<close>

text \<open>A transaction the server treats as ended: it is rolled back, or its rollback stopped at a log record that
  could not be read.\<close>

definition aborting :: "TxnStatus \<Rightarrow> bool" where
  "aborting s \<longleftrightarrow> s = TXN_ROLLINGBACK \<or> s = TXN_ROLLEDBACK"

lemma DB_Rollback_status:
  assumes "DB_Rollback txID db = Some (r, db')"
  shows "aborting (GetStatus (txMgr db') txID)" "x \<noteq> txID \<Longrightarrow> GetStatus (txMgr db') x = GetStatus (txMgr db) x"
  using assms by (auto simp: DB_Rollback_def aborting_def Rollback_status split: sum.splits)

lemma DB_Commit_status:
  "GetStatus (txMgr (snd (DB_Commit txID db))) x =
     (if x = txID \<and> \<not> isl (fst (DB_Commit txID db)) then TXN_COMMITED else GetStatus (txMgr db) x)"
  by (cases "Commit txID (txMgr db) (index db)") (simp add: DB_Commit_def Commit_status split: prod.split)

definition conflict_result :: "goerr + 'a \<Rightarrow> bool" where
  "conflict_result r \<longleftrightarrow> (case r of Inl e \<Rightarrow> isConflict e | Inr _ \<Rightarrow> False)"

lemma finishWrite_status:
  assumes "finishWrite txID db u = Some (r, db')"
    and "\<And>r m t. u = Some (r, (m, t)) \<Longrightarrow> \<exists>m'. m = Some m' \<and> (\<forall>x. GetStatus m' x = GetStatus (txMgr db) x)"
  shows "if conflict_result r then aborting (GetStatus (txMgr db') txID) \<and>
      (\<forall>x. x \<noteq> txID \<longrightarrow> GetStatus (txMgr db') x = GetStatus (txMgr db) x)
    else (\<forall>x. GetStatus (txMgr db') x = GetStatus (txMgr db) x)"
proof -
  obtain r0 m t where u: "u = Some (r0, (m, t))" using assms(1) by (auto simp: finishWrite_def split: bind_splits)
  obtain m' where m: "m = Some m'" "\<And>x. GetStatus m' x = GetStatus (txMgr db) x" using assms(2) [OF u] by blast
  let ?db = "\<lparr>index = t, txMgr = m'\<rparr>"
  have same: "db' = ?db \<Longrightarrow> GetStatus (txMgr db') x = GetStatus (txMgr db) x" for x using m(2) by simp
  show ?thesis
  proof (cases "\<exists>e. r0 = Inl e \<and> isConflict e")
    case True
    then obtain e r1 where e: "r = Inl e" "isConflict e" "DB_Rollback txID ?db = Some (r1, db')"
      using assms(1) m(1) by (auto simp: finishWrite_def Let_def u split: bind_splits)
    then show ?thesis using DB_Rollback_status [OF e(3)] m(2) by (simp add: conflict_result_def)
  next
    case False
    then have "db' = ?db" "\<not> conflict_result r"
      using assms(1) m(1) by (auto simp: finishWrite_def Let_def u conflict_result_def split: sum.splits if_splits)
    then show ?thesis using same by simp
  qed
qed

lemma DB_write_status:
  assumes "DB_Set txID key val db = Some (r, db') \<or> DB_Delete txID key db = Some (r, db')"
  shows "if conflict_result r then aborting (GetStatus (txMgr db') txID) \<and>
      (\<forall>x. x \<noteq> txID \<longrightarrow> GetStatus (txMgr db') x = GetStatus (txMgr db) x)
    else (\<forall>x. GetStatus (txMgr db') x = GetStatus (txMgr db) x)"
  using assms unfolding DB_Set_def DB_Delete_def Let_def Insert_def Delete_def
  by (elim disjE; elim finishWrite_status) (rule upsertCell_txns, assumption)+

lemma executeCommand_status:
  assumes "executeCommand txID line db = Some (rep, r, db')"
  shows "x \<noteq> txID \<or> \<not> conflict_result r \<Longrightarrow> GetStatus (txMgr db') x = GetStatus (txMgr db) x"
proof -
  have g: "GetStatus (txMgr db') x = GetStatus (txMgr db) x" if "DB_Get txID k db = Some (r2, db')" for k r2
    using that by (auto simp: DB_Get_def Let_def)
  have w: "GetStatus (txMgr db') x = GetStatus (txMgr db) x"
    if "DB_Set txID k v db = Some (r2, db') \<or> DB_Delete txID k db = Some (r2, db')" "x \<noteq> txID \<or> \<not> conflict_result r2" for k v r2
    using DB_write_status [OF that(1)] that(2) by (auto split: if_splits)
  assume "x \<noteq> txID \<or> \<not> conflict_result r"
  then show ?thesis
    using assms unfolding executeCommand_def Let_def
    by (auto simp: conflict_result_def split: if_splits bind_splits sum.splits intro: g w)
qed

section \<open>Sessions\<close>

text \<open>The open transaction of a session is running.\<close>

definition session_ok :: "ClientState \<times> DB \<Rightarrow> bool" where
  "session_ok s \<longleftrightarrow> (InTx (fst s) \<longrightarrow> GetStatus (txMgr (snd s)) (TxID (fst s)) = TXN_RUNNING)"

lemma Begin_status:
  assumes "Begin m now = (x, m')"
  shows "x = now" "GetStatus m' y = (if y = now then TXN_RUNNING else GetStatus m y)"
  using assms GetStatus_simps(5) [of m now y] by (auto simp: Begin_def GenerateTxID_def Let_def)

lemma executeCommand_keeps:
  "executeCommand txID line db = Some (rep, Inl e, db') \<Longrightarrow> \<not> isConflict e \<Longrightarrow> GetStatus (txMgr db') x = GetStatus (txMgr db) x"
  "executeCommand txID line db = Some (rep, Inr u, db') \<Longrightarrow> GetStatus (txMgr db') x = GetStatus (txMgr db) x"
  by (rule executeCommand_status, assumption, simp add: conflict_result_def)+

lemma handleLine_ok:
  assumes "handleLine now line (c, db) = Some (out, q, c', db')" "session_ok (c, db)"
  shows "session_ok (c', db')"
proof (cases "InTx c")
  case True
  show ?thesis
    using assms True unfolding handleLine_def Let_def prod.case session_ok_def
    by (auto split: if_splits bind_splits sum.splits)
      (simp_all add: executeCommand_keeps [of "TxID c'" "TrimSpace line" db])
next
  case False
  show ?thesis
    using assms False
    by (auto simp: handleLine_def Let_def session_ok_def Begin_status split: if_splits bind_splits sum.splits prod.splits)
qed

lemma scanLine_ok:
  assumes "scanLine now line s = Some (out, q, s')" "session_ok s"
  shows "session_ok s'"
  using assms handleLine_ok [of now line "fst s" "snd s" out q "fst s'" "snd s'"]
  by (simp add: scanLine_def split: if_splits)

lemma handleLines_ok:
  assumes "handleLines ls s = Some (out, s')" "session_ok s"
  shows "session_ok s'"
  using assms
proof (induction ls arbitrary: s out)
  case (Cons l ls)
  obtain now line where l: "l = (now, line)" by (cases l)
  obtain o1 q s1 where h: "scanLine now line s = Some (o1, q, s1)" using Cons.prems(1) by (auto simp: l split: bind_splits)
  then have ok: "session_ok s1" using scanLine_ok Cons.prems(2) by blast
  show ?case
  proof (cases q)
    case True
    then show ?thesis using Cons.prems(1) h ok by (simp add: l)
  next
    case False
    then obtain o2 where "handleLines ls s1 = Some (o2, s')" using Cons.prems(1) h by (auto simp: l split: bind_splits)
    then show ?thesis using Cons.IH ok by blast
  qed
qed simp

section \<open>Properties of sessions\<close>

text \<open>C8: The life of a session's transaction. Whatever lines a client sends, while its session is in a
  transaction that transaction is running; and when the connection ends with the transaction still open, it is
  rolled back (or its rollback has begun, if a log record cannot be read) and the status of no other
  transaction changes.\<close>

theorem session_transaction_lifecycle:
  assumes "handleLines ls (NewClientState, db) = Some (out, c, db1)"
  shows "(InTx c \<longrightarrow> GetStatus (txMgr db1) (TxID c) = TXN_RUNNING) \<and>
    (InTx c \<and> handleConnection ls db = Some (out', db2) \<longrightarrow>
       aborting (GetStatus (txMgr db2) (TxID c)) \<and>
       (\<forall>x. x \<noteq> TxID c \<longrightarrow> GetStatus (txMgr db2) x = GetStatus (txMgr db1) x)) \<and>
    (\<not> InTx c \<longrightarrow> handleConnection ls db = Some (RWelcome # out, db1))"
proof -
  have "session_ok (NewClientState, db)" by (simp add: session_ok_def NewClientState_def)
  from handleLines_ok [OF assms this] have "InTx c \<longrightarrow> GetStatus (txMgr db1) (TxID c) = TXN_RUNNING"
    by (simp add: session_ok_def)
  moreover have "aborting (GetStatus (txMgr db2) (TxID c)) \<and>
      (\<forall>x. x \<noteq> TxID c \<longrightarrow> GetStatus (txMgr db2) x = GetStatus (txMgr db1) x)"
    if h: "InTx c" "handleConnection ls db = Some (out', db2)"
  proof -
    obtain r where "DB_Rollback (TxID c) db1 = Some (r, db2)"
      using h assms by (auto simp: handleConnection_def deferredRollback_def split: bind_splits)
    from DB_Rollback_status [OF this] show ?thesis by blast
  qed
  moreover have "handleConnection ls db = Some (RWelcome # out, db1)" if "\<not> InTx c"
    using that assms by (simp add: handleConnection_def deferredRollback_def)
  ultimately show ?thesis by blast
qed

definition demo_db :: DB where
  "demo_db = NewDB (one_leaf demo_leaf) NewTransactionManager"

theorem session_transaction_lifecycle_witness:
  "\<exists>c db1. handleLines [(7, ascii ''begin'')] (NewClientState, demo_db) = Some ([ROk], c, db1) \<and>
     InTx c \<and> GetStatus (txMgr db1) 7 = TXN_RUNNING"
proof -
  have "\<exists>db1. handleLines [(7, ascii ''begin'')] (NewClientState, demo_db) = Some ([ROk], \<lparr>InTx = True, TxID = 7\<rparr>, db1)"
    by (simp add: scanLine_def MaxScanTokenSize_def handleLine_def TrimSpace_def ToUpper_def firstField_def is_space_def ascii_def
        NewClientState_def Begin_def GenerateTxID_def Let_def)
  then obtain db1 where h: "handleLines [(7, ascii ''begin'')] (NewClientState, demo_db) = Some ([ROk], \<lparr>InTx = True, TxID = 7\<rparr>, db1)"
    by blast
  then show ?thesis using session_transaction_lifecycle [OF h] by auto
qed

text \<open>C10: A write-write conflict aborts the transaction. When Set or Delete reports a conflict, the
  transaction is rolled back (or its rollback has begun) and no other transaction's status changes; every
  other outcome of Set or Delete leaves the status of every transaction as it was.\<close>

theorem conflict_aborts_transaction:
  assumes "DB_Set txID key val db = Some (r, db') \<or> DB_Delete txID key db = Some (r, db')"
  shows "if conflict_result r
    then aborting (GetStatus (txMgr db') txID) \<and> (\<forall>x. x \<noteq> txID \<longrightarrow> GetStatus (txMgr db') x = GetStatus (txMgr db) x)
    else (\<forall>x. GetStatus (txMgr db') x = GetStatus (txMgr db) x)"
  by (rule DB_write_status [OF assms])

theorem conflict_aborts_transaction_witness:
  "\<exists>e db'. DB_Set 9 [107] [120] (NewDB (one_leaf demo_leaf) (SetStatus NewTransactionManager 5 TXN_RUNNING)) = Some (Inl e, db') \<and>
     isConflict e \<and> aborting (GetStatus (txMgr db') 9) \<and> GetStatus (txMgr db') 5 = TXN_RUNNING"
proof -
  let ?tm = "SetStatus NewTransactionManager 5 TXN_RUNNING" and ?e = "ErrConflictRunning [107] 5"
  have pre: "upsert_pre (one_leaf demo_leaf) (abs_pool (one_leaf demo_leaf)) 0 [demo_cell] [1] [] (\<lambda>kv. ([], Value kv))
    (BuildMVCCKey [107] 9) [120] 0 [] 1 [demo_cell]" by (rule demo_pre) (simp_all add: BuildMVCCKey_layout)
  have c: "writeConflict [107] 9 (Some ?tm) (Key demo_cell) = Some ?e"
    by (simp add: writeConflict_def demo_size)
  have no: "\<not> IsOverflow demo_cell" by (simp add: demo_cell_def NewKVCell_def IsOverflow_def)
  obtain t' where "upsertCell (BuildMVCCKey [107] 9) [120] 0 (Some ?tm) (one_leaf demo_leaf) = Some (Inl ?e, (Some ?tm, t'))"
    by (rule upsert_conflict [OF pre, of "Some ?tm" demo_cell ?e]) (use c no in auto)
  moreover have "\<exists>m t. Rollback 9 ?tm t' = Some (Inr (), (m, t))"
    by (subst Rollback_def, subst rollbackLoop.simps)
      (simp add: Let_def onTree_def GetLastLSN_def NewTransactionManager_def SetStatus_def)
  ultimately obtain db' where d: "DB_Set 9 [107] [120] (NewDB (one_leaf demo_leaf) ?tm) = Some (Inl ?e, db')"
    by (auto simp: DB_Set_def Insert_def finishWrite_def DB_Rollback_def NewDB_def Let_def)
  then show ?thesis using conflict_aborts_transaction [of 9 "[107]" "[120]" "NewDB (one_leaf demo_leaf) ?tm" "Inl ?e" db']
    by (auto simp: NewDB_def conflict_result_def)
qed

text \<open>C39: A failed auto-commit command leaves its transaction running. When a command outside a
  transaction reports an error other than a conflict, the transaction the server began for it is neither
  committed nor rolled back: it stays running after the command, the session cannot end it, and the vacuum
  watermark cannot rise above it.\<close>

theorem autocommit_failure_leaks:
  assumes "handleLine now line (c, db) = Some ([RError e], q, c', db')" "\<not> InTx c" "\<not> isConflict e"
  shows "c' = c \<and> GetStatus (txMgr db') now = TXN_RUNNING \<and> GetMinActiveTxID (txMgr db') \<le> now"
proof -
  obtain x m rep r db1 where b: "Begin (txMgr db) now = (x, m)" by (cases "Begin (txMgr db) now")
  have st: "x = now" "GetStatus m now = TXN_RUNNING" using Begin_status [OF b] by simp_all
  have rep: "rep = RError e \<longleftrightarrow> r = Inl e" if "executeCommand i t d = Some (rep, r, d')" for i t d rep r d'
    using that unfolding executeCommand_def Let_def by (auto split: if_splits bind_splits sum.splits)
  have "c' = c \<and> executeCommand now (TrimSpace line) (db\<lparr>txMgr := m\<rparr>) = Some (RError e, Inl e, db')"
    using assms(1,2) b st(1) unfolding handleLine_def Let_def prod.case
    by (auto split: if_splits bind_splits sum.splits dest: rep)
  then have c: "c' = c" "executeCommand now (TrimSpace line) (db\<lparr>txMgr := m\<rparr>) = Some (RError e, Inl e, db')" by blast+
  have s: "GetStatus (txMgr db') now = TXN_RUNNING"
    using executeCommand_keeps(1) [OF c(2) assms(3), of now] st(2) by simp
  then have "GetMinActiveTxID (txMgr db') \<le> now" by (rule min_active_le)
  then show ?thesis using s c(1) by blast
qed

theorem autocommit_failure_leaks_witness:
  "\<exists>db'. handleLine 9 (ascii ''GET x'') (NewClientState, demo_db) = Some ([RError ErrKeyNotFound], False, NewClientState, db') \<and>
     GetStatus (txMgr db') 9 = TXN_RUNNING"
proof -
  obtain t' where f: "FindLatest (BuildMVCCKey [120] 9) (Some (snd (Begin NewTransactionManager 9))) (one_leaf demo_leaf) = Some (Inl ErrKeyNotFound, t')"
  proof -
    have "\<not> isVersionVisible (Key demo_cell) (BuildMVCCKey [120] 9) tm" for tm
      by (simp add: isVersionVisible_def demo_size)
    then show ?thesis
      using that FindLatest_ok [OF demo_ok, of "BuildMVCCKey [120] 9" "Some (snd (Begin NewTransactionManager 9))"]
      by (auto simp: latest_result_def)
  qed
  have "\<exists>db'. handleLine 9 (ascii ''GET x'') (NewClientState, demo_db) = Some ([RError ErrKeyNotFound], False, NewClientState, db')"
    using f [unfolded Begin_def Let_def GenerateTxID_def]
    by (simp add: handleLine_def TrimSpace_def ToUpper_def firstField_def is_space_def ascii_def NewClientState_def
        executeCommand_def DB_Get_def demo_db_def NewDB_def Let_def Begin_def GenerateTxID_def numeral_3_eq_3)
  then obtain db' where h: "handleLine 9 (ascii ''GET x'') (NewClientState, demo_db) = Some ([RError ErrKeyNotFound], False, NewClientState, db')"
    by blast
  then show ?thesis using autocommit_failure_leaks [OF h] by (auto simp: NewClientState_def)
qed
end
