(* ===== verification/Recovery.thy ===== *)
theory Recovery
  imports BTree
begin

text \<open>
  Crash recovery: \<^verbatim>\<open>Recover\<close> of \<^verbatim>\<open>internal/storage/recovery.go\<close> (analysis, redo, undo) and \<^verbatim>\<open>NewBTree\<close>
  of \<^verbatim>\<open>btree.go\<close>, which runs it. The dirty page table and the table of active transactions are
  association lists. The undo phase takes the transaction with the greatest LSN; two active
  transactions never have the same LSN, so the order in which Go ranges over the table does not
  matter and the list order stands for it.
\<close>

section \<open>Analysis\<close>

type_synonym dpt = "(u32 \<times> u64) list"
type_synonym att = "(u64 \<times> u64) list"

fun dptLoop :: "nat \<Rightarrow> nat \<Rightarrow> bytes \<Rightarrow> dpt \<Rightarrow> dpt option" where
  "dptLoop 0 valOffset val dpt = Some dpt"
| "dptLoop (Suc n) valOffset val dpt = do {
     p \<leftarrow> goslice val valOffset (valOffset + 4);
     l \<leftarrow> goslice val (valOffset + 4) (valOffset + 12);
     dptLoop n (valOffset + 12) val (AList.update (Uint32 p) (Uint64 l) dpt)
   }"

definition analysisStep :: "LogRecord \<Rightarrow> dpt \<Rightarrow> att \<Rightarrow> (dpt \<times> att) option" where
  "analysisStep rec dpt att = do {
     dpt \<leftarrow> (if OpType rec = LogOpCheckpoint
             then do {
               n \<leftarrow> goslice (recValue rec) 0 4;
               dptLoop (unat (Uint32 n)) 4 (recValue rec) dpt
             }
             else if OpType rec = LogOpFullPage \<or> OpType rec = LogOpInsert \<or>
                     OpType rec = LogOpDelete \<or> OpType rec = LogOpCLR
             then Some (if map_of dpt (PageID rec) = None
                        then AList.update (PageID rec) (LSN rec) dpt else dpt)
             else Some dpt);
     Some (dpt,
       if TxnID rec \<noteq> 0
       then (if OpType rec = LogOpCommit \<or> OpType rec = LogOpAbort
             then AList.delete (TxnID rec) att
             else AList.update (TxnID rec) (LSN rec) att)
       else att)
   }"

partial_function (option) analysisLoop :: "WAL \<Rightarrow> u64 \<Rightarrow> dpt \<Rightarrow> att \<Rightarrow> (dpt \<times> att \<times> u64) option" where
  "analysisLoop w lsn dpt att =
     Option.bind (ReadRecord w lsn) (\<lambda>r.
       case r of
         Inl e \<Rightarrow> Some (dpt, att, lsn)
       | Inr (rec, sz) \<Rightarrow>
           Option.bind (analysisStep rec dpt att) (\<lambda>(dpt, att).
             analysisLoop w (lsn + ucast sz) dpt att))"

definition startLSN :: "WAL \<Rightarrow> u64 \<Rightarrow> u64" where
  "startLSN w lsn =
     (if lsn = 0
      then (case ReadAt (wfile w) 4 0 of Inr buf \<Rightarrow> (if buf = wal_magic then 4 else 0) | Inl e \<Rightarrow> 0)
      else lsn)"

definition minRecLSN :: "u64 \<Rightarrow> u64 \<Rightarrow> dpt \<Rightarrow> u64" where
  "minRecLSN checkpointLSN lsn dpt =
     (if dpt = [] then checkpointLSN
      else fold (\<lambda>(_, recLSN) minLSN. if recLSN < minLSN then recLSN else minLSN) dpt lsn)"

section \<open>Redo\<close>

definition redoRecord :: "dpt \<Rightarrow> LogRecord \<Rightarrow> BTree \<Rightarrow> ((goerr + unit) \<times> BTree) option" where
  "redoRecord dpt rec t =
     (case map_of dpt (PageID rec) of
        None \<Rightarrow> Some (Inr (), t)
      | Some recLSN \<Rightarrow>
          if LSN rec < recLSN then Some (Inr (), t)
          else do {
            (r, t) \<leftarrow> FetchPageForWrite (PageID rec) PageTypeLeaf t;
            (case r of
               Inl e \<Rightarrow> Some (Inl (ErrWrap ''failed to fetch page during redo'' e), t)
             | Inr page \<Rightarrow>
                 if GetLSN page \<ge> LSN rec \<and> LSN rec \<noteq> 0
                 then do {
                   t \<leftarrow> dropUnpin (PageID rec) False True t;
                   Some (Inr (), t)
                 }
                 else do {
                   page \<leftarrow> (if OpType rec = LogOpFullPage then Some (blit page 0 (recValue rec))
                            else if OpType rec = LogOpInsert \<or> OpType rec = LogOpDelete
                            then redoUpsertOnPage page (recKey rec) (recValue rec) (OpType rec)
                            else Some page);
                   let t = putPage (PageID rec) (SetLSN page (LSN rec)) t;
                   t \<leftarrow> dropUnpin (PageID rec) True True t;
                   Some (Inr (), t)
                 })
          })"

partial_function (option) redoPhase :: "dpt \<Rightarrow> u64 \<Rightarrow> BTree \<Rightarrow> ((goerr + unit) \<times> BTree) option" where
  "redoPhase dpt lsn t =
     Option.bind (ReadRecord (wal t) lsn) (\<lambda>r.
       case r of
         Inl e \<Rightarrow> Some (Inr (), t)
       | Inr (rec, sz) \<Rightarrow> andThen (redoRecord dpt rec t) (\<lambda>_ t. redoPhase dpt (lsn + ucast sz) t))"

section \<open>Undo\<close>

definition maxEntry :: "att \<Rightarrow> u64 \<times> u64" where
  "maxEntry att = fold (\<lambda>(txn, lsn) (maxTxn, maxLSN). if lsn > maxLSN then (txn, lsn) else (maxTxn, maxLSN)) att (0, 0)"

partial_function (option) undoPhase :: "att \<Rightarrow> BTree \<Rightarrow> BTree option" where
  "undoPhase att t =
     (if att = [] then Some t
      else
        let (maxTxn, maxLSN) = maxEntry att
        in if maxLSN = 0 then Some t
        else Option.bind (ReadRecord (wal t) maxLSN) (\<lambda>r.
          case r of
            Inl e \<Rightarrow> Some t
          | Inr (rec, _) \<Rightarrow>
              Option.bind (undoRecord maxTxn rec t) (\<lambda>t.
                if PrevLSN rec = 0
                then undoPhase (AList.delete maxTxn att) (snd (dropAppend maxTxn 0 0 LogOpAbort [] [] t))
                else undoPhase (AList.update maxTxn (PrevLSN rec) att) t)))"

definition Recover :: "BTree \<Rightarrow> ((goerr + unit) \<times> BTree) option" where
  "Recover t =
     (if \<not> treeWal t then Some (Inr (), t)
      else do {
        let t = t\<lparr>treeWal := False, bmWal := False\<rparr>;
        let checkpointLSN =
          (case chkFile t of Some buf \<Rightarrow> (if length buf = 8 then Uint64 buf else 0) | None \<Rightarrow> 0);
        (dpt, att, lsn) \<leftarrow> analysisLoop (wal t) (startLSN (wal t) checkpointLSN) [] [];
        let minLSN = minRecLSN checkpointLSN lsn dpt;
        (r, t) \<leftarrow> redoPhase dpt (startLSN (wal t) minLSN) t;
        (case r of
           Inl e \<Rightarrow> Some (Inl e, t\<lparr>treeWal := True, bmWal := True\<rparr>)
         | Inr _ \<Rightarrow> do {
             t \<leftarrow> undoPhase att (t\<lparr>treeWal := True, bmWal := True\<rparr>);
             Some (Inr (), t)
           })
      })"

section \<open>Opening a database\<close>

definition NewBTree ::
  "bytes option \<Rightarrow> bytes option \<Rightarrow> bytes option \<Rightarrow> (nat \<Rightarrow> u32 list \<Rightarrow> u32 list) \<Rightarrow> ((goerr + unit) \<times> BTree) option" where
  "NewBTree walFile dbFile chk ord =
     (let w = NewWAL walFile;
          bm = NewBufferManager dbFile 100 w True ord;
          tree = BufferManager.extend bm (BTree.fields True 0 chk)
      in do {
        (r, t) \<leftarrow> Recover tree;
        (case r of
           Inl e \<Rightarrow> Some (Inl (ErrWrap ''failed during recovery'' e), t)
         | Inr _ \<Rightarrow>
             if fbytes (pager t) = []
             then (case AllocatePage (pager t) PageTypeMeta of
                 (Inl e, f) \<Rightarrow> Some (Inl (ErrWrap ''failed to allocate meta page'' e), t\<lparr>pager := f\<rparr>)
               | (Inr metaID, f) \<Rightarrow>
                 (case AllocatePage f PageTypeLeaf of
                    (Inl e, f) \<Rightarrow> Some (Inl (ErrWrap ''failed to allocate root page'' e), t\<lparr>pager := f\<rparr>)
                  | (Inr rootID, f) \<Rightarrow>
                      andThen (FetchPageForWrite metaID PageTypeMeta (t\<lparr>pager := f\<rparr>)) (\<lambda>metaPage t. do {
                        let metaPage = SetRootPageID metaPage rootID;
                        let metaPage = SetFirstFreePageID metaPage 0;
                        t \<leftarrow> logFullPage metaID metaID (putPage metaID metaPage t);
                        t \<leftarrow> dropUnpin metaID True True t;
                        Some (Inr (), t\<lparr>rootPageID := rootID\<rparr>)
                      })))
             else do {
               (r, t) \<leftarrow> FetchPageForRead MetaPageID PageTypeMeta t;
               (case r of
                  Inl e \<Rightarrow> Some (Inl (ErrWrap ''failed to read meta page'' e), t)
                | Inr metaPage \<Rightarrow> do {
                    let t = t\<lparr>rootPageID := GetRootPageID metaPage\<rparr>;
                    t \<leftarrow> dropUnpin MetaPageID False False t;
                    Some (Inr (), t)
                  })
             })
      })"

end
