(* ===== verification/Recovery_Analysis.thy ===== *)
theory Recovery_Analysis imports Recovery Tree_Search
begin

text \<open>
  The analysis pass of \<^verbatim>\<open>Recover\<close> (\<^verbatim>\<open>recovery.go\<close>) against a specification over the list of log records, and
  its composition with \<^verbatim>\<open>Checkpoint\<close> (\<^verbatim>\<open>btree.go\<close>) and \<^verbatim>\<open>WriteCheckpoint\<close> (\<^verbatim>\<open>wal.go\<close>).
\<close>

section \<open>The checkpointed dirty page table\<close>

definition dpt_value :: "dpt \<Rightarrow> bytes" where
  "dpt_value d = PutUint32 (of_nat (length d)) @ dpt_bytes d"

lemma dptLoop_bytes:
  "dptLoop (length d) (length pre) (pre @ dpt_bytes d @ post) acc = Some (fold (\<lambda>(p, l). AList.update p l) d acc)"
proof (induction d arbitrary: pre acc)
  case (Cons e d)
  obtain p l where e: "e = (p, l)" by (cases e)
  let ?v = "pre @ PutUint32 p @ PutUint64 l @ dpt_bytes d @ post"
  have "sub ?v (length pre) 4 = PutUint32 p" "sub ?v (length pre + 4) 8 = PutUint64 l"
    by (simp_all add: sub_append_right)
  then have s: "goslice ?v (length pre) (length pre + 4) = Some (PutUint32 p)"
    "goslice ?v (length pre + 4) (length pre + 12) = Some (PutUint64 l)"
    by (simp_all add: goslice_Some)
  have "dptLoop (length d) (length (pre @ PutUint32 p @ PutUint64 l)) ((pre @ PutUint32 p @ PutUint64 l) @ dpt_bytes d @ post)
      (AList.update p l acc) = Some (fold (\<lambda>(p, l). AList.update p l) d (AList.update p l acc))" by (rule Cons.IH)
  then show ?case using s by (simp add: e)
qed simp

lemma map_of_fold_update: "map_of (fold (\<lambda>(p, l). AList.update p l) d acc) = map_of acc ++ map_of (rev d)"
  by (induction d arbitrary: acc) (auto simp: update_conv' map_add_def fun_eq_iff split: option.splits)

lemma decode_dpt:
  assumes "length d < 2 ^ 32" "distinct (map fst d)"
  shows "\<exists>d'. goslice (dpt_value d) 0 4 = Some (PutUint32 (of_nat (length d))) \<and>
    dptLoop (length d) 4 (dpt_value d) acc = Some d' \<and> (\<forall>p. map_of d' p = (case map_of d p of Some l \<Rightarrow> Some l | None \<Rightarrow> map_of acc p))"
proof -
  have "dptLoop (length d) (length (PutUint32 (of_nat (length d)))) (PutUint32 (of_nat (length d)) @ dpt_bytes d @ []) acc =
    Some (fold (\<lambda>(p, l). AList.update p l) d acc)" by (rule dptLoop_bytes)
  moreover have "map_of (rev d) = map_of d" using assms(2) by (intro map_of_inject_set [THEN iffD2]) (simp_all add: rev_map [symmetric])
  moreover have "goslice (dpt_value d) 0 4 = Some (PutUint32 (of_nat (length d)))"
    by (simp add: dpt_value_def goslice_Some)
  ultimately show ?thesis by (auto simp: dpt_value_def map_of_fold_update map_add_def)
qed

section \<open>Analysis\<close>

definition page_op :: "LogRecord \<Rightarrow> bool" where
  "page_op r \<longleftrightarrow> OpType r = LogOpFullPage \<or> OpType r = LogOpInsert \<or> OpType r = LogOpDelete \<or> OpType r = LogOpCLR"

definition ends_txn :: "LogRecord \<Rightarrow> bool" where
  "ends_txn r \<longleftrightarrow> OpType r = LogOpCommit \<or> OpType r = LogOpAbort"

text \<open>The first record that changes a page, and whether a transaction is active at the end of a log.\<close>

definition first_change :: "LogRecord list \<Rightarrow> u32 \<Rightarrow> u64 option" where
  "first_change rs p = map_option LSN (find (\<lambda>r. page_op r \<and> PageID r = p) rs)"

definition active_at_end :: "LogRecord list \<Rightarrow> u64 \<Rightarrow> u64 option" where
  "active_at_end rs x =
     (case find (\<lambda>r. TxnID r = x) (rev rs) of
        None \<Rightarrow> None
      | Some r \<Rightarrow> if x = 0 \<or> ends_txn r then None else Some (LSN r))"

lemma find_snoc: "find P (xs @ [y]) = (case find P xs of None \<Rightarrow> if P y then Some y else None | Some z \<Rightarrow> Some z)"
  by (induction xs) auto

lemma analysisStep_plain:
  assumes "OpType r \<noteq> LogOpCheckpoint"
  shows "\<exists>d a. analysisStep r dpt att = Some (d, a) \<and>
    (\<forall>p. map_of d p = (case map_of dpt p of Some l \<Rightarrow> Some l | None \<Rightarrow> if page_op r \<and> PageID r = p then Some (LSN r) else None)) \<and>
    (\<forall>x. map_of a x = (if x \<noteq> 0 \<and> TxnID r = x then (if ends_txn r then None else Some (LSN r)) else map_of att x))"
  using assms by (auto simp: analysisStep_def page_op_def ends_txn_def update_conv' delete_conv' split: option.splits)

lemma analysisStep_checkpoint:
  assumes "OpType r = LogOpCheckpoint" "recValue r = dpt_value d" "TxnID r = 0" "length d < 2 ^ 32" "distinct (map fst d)"
  shows "\<exists>d'. analysisStep r dpt att = Some (d', att) \<and>
    (\<forall>p. map_of d' p = (case map_of d p of Some l \<Rightarrow> Some l | None \<Rightarrow> map_of dpt p))"
  using decode_dpt [OF assms(4,5), of dpt] assms by (auto simp: analysisStep_def)

lemma analysisLoop_suffix:
  assumes w: "wal_holds w rs" and i: "i \<le> length rs" and nc: "\<forall>r \<in> set (drop i rs). OpType r \<noteq> LogOpCheckpoint"
  shows "\<exists>d a. analysisLoop w (wal_log.pos w rs i) dpt att = Some (d, a, currentLSN w) \<and>
    (\<forall>p. map_of d p = (case map_of dpt p of Some l \<Rightarrow> Some l | None \<Rightarrow> first_change (drop i rs) p)) \<and>
    (\<forall>x. map_of a x = (if x \<noteq> 0 \<and> (\<exists>r \<in> set (drop i rs). TxnID r = x) then active_at_end (drop i rs) x else map_of att x))"
  using i nc
proof (induction "length rs - i" arbitrary: i dpt att)
  case 0
  then have "wal_log.pos w rs i = currentLSN w" "drop i rs = []" by (simp_all add: wal_log.pos_def)
  then show ?case using wal_log.rd_tail [OF w]
    by (auto simp: analysisLoop.simps first_change_def active_at_end_def split: option.splits)
next
  case (Suc n)
  then have i: "i < length rs" by simp
  obtain sz where sz: "ReadRecord w (wal_log.pos w rs i) = Some (Inr (rs ! i, sz))"
    "wal_log.pos w rs i + ucast sz = wal_log.pos w rs (Suc i)"
    by (rule wal_log.rd_pos [OF w i])
  have dr: "drop i rs = rs ! i # drop (Suc i) rs" using i by (simp add: Cons_nth_drop_Suc)
  obtain d1 a1 where st: "analysisStep (rs ! i) dpt att = Some (d1, a1)"
    "\<And>p. map_of d1 p = (case map_of dpt p of Some l \<Rightarrow> Some l | None \<Rightarrow> if page_op (rs ! i) \<and> PageID (rs ! i) = p then Some (LSN (rs ! i)) else None)"
    "\<And>x. map_of a1 x = (if x \<noteq> 0 \<and> TxnID (rs ! i) = x then (if ends_txn (rs ! i) then None else Some (LSN (rs ! i))) else map_of att x)"
    using analysisStep_plain [of "rs ! i" dpt att] Suc.prems(2) dr by auto
  have n: "n = length rs - Suc i" using Suc.hyps(2) by simp
  obtain d a where ih: "analysisLoop w (wal_log.pos w rs (Suc i)) d1 a1 = Some (d, a, currentLSN w)"
    "\<And>p. map_of d p = (case map_of d1 p of Some l \<Rightarrow> Some l | None \<Rightarrow> first_change (drop (Suc i) rs) p)"
    "\<And>x. map_of a x = (if x \<noteq> 0 \<and> (\<exists>r \<in> set (drop (Suc i) rs). TxnID r = x) then active_at_end (drop (Suc i) rs) x else map_of a1 x)"
    using Suc.hyps(1) [OF n, of d1 a1] Suc.prems(2) i dr by auto
  have "analysisLoop w (wal_log.pos w rs i) dpt att = Some (d, a, currentLSN w)"
    using sz st(1) ih(1) by (subst analysisLoop.simps) simp
  moreover have "map_of d p = (case map_of dpt p of Some l \<Rightarrow> Some l | None \<Rightarrow> first_change (drop i rs) p)" for p
    unfolding ih(2) st(2) dr by (simp add: first_change_def split: option.split)
  moreover have "map_of a x = (if x \<noteq> 0 \<and> (\<exists>r \<in> set (drop i rs). TxnID r = x) then active_at_end (drop i rs) x else map_of att x)" for x
  proof (cases "find (\<lambda>r. TxnID r = x) (rev (drop (Suc i) rs))")
    case (Some r)
    then have "\<exists>r \<in> set (drop (Suc i) rs). TxnID r = x" unfolding find_Some_iff by (metis nth_mem set_rev)
    then show ?thesis unfolding ih(3) using Some dr st(3) [of 0] by (auto simp: active_at_end_def find_snoc)
  next
    case None
    then have "\<not> (\<exists>r \<in> set (drop (Suc i) rs). TxnID r = x)" by (auto simp: find_None_iff)
    then show ?thesis unfolding ih(3) st(3) using None dr by (auto simp: active_at_end_def find_snoc)
  qed
  ultimately show ?case by blast
qed

lemma active_absent:
  assumes "\<not> (x \<noteq> 0 \<and> (\<exists>r \<in> set rs. TxnID r = x))"
  shows "active_at_end rs x = None"
proof (cases "x = 0")
  case True
  then show ?thesis by (simp add: active_at_end_def split: option.split)
next
  case False
  then have "find (\<lambda>r. TxnID r = x) (rev rs) = None" using assms by (auto simp: find_None_iff)
  then show ?thesis by (simp add: active_at_end_def)
qed

lemma active_or_absent: "(if x \<noteq> 0 \<and> (\<exists>r \<in> set rs. TxnID r = x) then active_at_end rs x else None) = active_at_end rs x"
  using active_absent [of x rs] by auto

lemma case_some: "(case x of None \<Rightarrow> None | Some l \<Rightarrow> Some l) = x"
  by (cases x) auto

lemma analysis_start:
  assumes "wal_holds w rs" "\<forall>r \<in> set rs. OpType r \<noteq> LogOpCheckpoint"
  shows "\<exists>d a. analysisLoop w 4 [] [] = Some (d, a, currentLSN w) \<and>
    (\<forall>p. map_of d p = first_change rs p) \<and> (\<forall>x. map_of a x = active_at_end rs x)"
proof -
  have "wal_log.pos w rs 0 = 4"
  proof (cases "rs = []")
    case True
    then show ?thesis using assms(1) by (simp add: wal_log.pos_def wal_holds_def log_bytes_def wal_magic_def word_unat_eq_iff)
  next
    case False
    then show ?thesis using assms(1) lsns_from_nth [of 4 rs 0] by (simp add: wal_log.pos_def wal_holds_def word_unat_eq_iff)
  qed
  then show ?thesis using analysisLoop_suffix [OF assms(1), of 0 "[]" "[]"] assms(2) by (simp add: active_or_absent cong: if_cong)
qed

lemma analysis_checkpoint:
  assumes w: "wal_holds w rs" and i: "i < length rs" "OpType (rs ! i) = LogOpCheckpoint" "recValue (rs ! i) = dpt_value d" "TxnID (rs ! i) = 0"
    and d: "length d < 2 ^ 32" "distinct (map fst d)" and nc: "\<forall>r \<in> set (drop (Suc i) rs). OpType r \<noteq> LogOpCheckpoint"
  shows "\<exists>dpt att. analysisLoop w (LSN (rs ! i)) [] [] = Some (dpt, att, currentLSN w) \<and>
    (\<forall>p. map_of dpt p = (case map_of d p of Some l \<Rightarrow> Some l | None \<Rightarrow> first_change (drop (Suc i) rs) p)) \<and>
    (\<forall>x. map_of att x = active_at_end (drop (Suc i) rs) x)"
proof -
  obtain sz where sz: "ReadRecord w (LSN (rs ! i)) = Some (Inr (rs ! i, sz))" "LSN (rs ! i) + ucast sz = wal_log.pos w rs (Suc i)"
    using wal_log.rd_nth [OF w i(1)] by (auto simp: wal_log.pos_def)
  obtain d1 where s: "analysisStep (rs ! i) [] [] = Some (d1, [])" "\<And>p. map_of d1 p = map_of d p"
    using analysisStep_checkpoint [OF i(2-4) d, of "[]" "[]"] by (auto simp: case_some cong: option.case_cong)
  have "analysisLoop w (LSN (rs ! i)) [] [] = analysisLoop w (wal_log.pos w rs (Suc i)) d1 []"
    using sz s(1) by (subst analysisLoop.simps) simp
  moreover have "Suc i \<le> length rs" using i(1) by simp
  note analysisLoop_suffix [OF w this nc, of d1 "[]"]
  ultimately show ?thesis using s(2) by (simp add: active_or_absent cong: if_cong)
qed

section \<open>Properties of the analysis\<close>



text \<open>C12: A checkpoint is found again, and only the dirty page table is in it. After a checkpoint of a
  database whose log holds rs, the checkpoint file names the LSN of a new log record; the analysis started
  there returns exactly the dirty page table of the buffer pool, and no transaction, so that a transaction
  all of whose records precede the checkpoint is never undone after a crash, even if it is still running.\<close>

theorem checkpoint_recovered:
  assumes "wal_holds (wal t) rs" "treeWal t" "distinct (map fst (GetDirtyPageTable t))"
    and "length (GetDirtyPageTable t) < 2 ^ 28" "unat (currentLSN (wal t)) + 47 + 12 * length (GetDirtyPageTable t) < 2 ^ 63"
  shows "\<exists>t' lsn dpt. Checkpoint t = (Inr (), t') \<and> chkFile t' = Some (PutUint64 lsn) \<and>
    analysisLoop (wal t') lsn [] [] = Some (dpt, [], currentLSN (wal t')) \<and> map_of dpt = map_of (GetDirtyPageTable t)"
proof -
  let ?d = "GetDirtyPageTable t" and ?w = "wal t"
  let ?r = "\<lparr>LSN = currentLSN ?w, TxnID = 0, PrevLSN = 0, PageID = 0, OpType = LogOpCheckpoint, recKey = [], recValue = dpt_value ?d\<rparr> :: LogRecord"
  have len: "length (dpt_value ?d) = 4 + 12 * length ?d"
  proof -
    have "length (dpt_bytes d) = 12 * length d" for d by (induction d rule: dpt_bytes.induct) auto
    then show ?thesis by (simp add: dpt_value_def)
  qed
  have fit: "rec_fits ?r" using assms(4) len by (simp add: rec_fits_def rec_size_def)
  have room: "length (log_bytes rs) + rec_size ?r < 2 ^ 63"
    using assms(1,5) len by (simp add: wal_holds_def rec_size_def)
  note a = Append_holds [OF assms(1) refl fit room]
  let ?w' = "snd (Append ?w 0 0 0 LogOpCheckpoint [] (dpt_value ?d))"
  have "WriteCheckpoint ?w ?d = (Inr (currentLSN ?w), ?w')"
    using a(1) by (auto simp: WriteCheckpoint_def dpt_value_def Let_def split: prod.splits)
  then have c: "Checkpoint t = (Inr (), t\<lparr>ticks := Suc (ticks t), wal := ?w', chkFile := Some (PutUint64 (currentLSN ?w))\<rparr>)"
    using assms(2) by (simp add: Checkpoint_def Let_def)
  have "\<exists>dpt att. analysisLoop ?w' (LSN ((rs @ [?r]) ! length rs)) [] [] = Some (dpt, att, currentLSN ?w') \<and>
    (\<forall>p. map_of dpt p = (case map_of ?d p of Some l \<Rightarrow> Some l | None \<Rightarrow> first_change (drop (Suc (length rs)) (rs @ [?r])) p)) \<and>
    (\<forall>x. map_of att x = active_at_end (drop (Suc (length rs)) (rs @ [?r])) x)"
    by (rule analysis_checkpoint [OF a(2)]) (use assms(3,4) in simp_all)
  then obtain dpt att where r: "analysisLoop ?w' (currentLSN ?w) [] [] = Some (dpt, att, currentLSN ?w')"
    "\<And>p. map_of dpt p = map_of ?d p" "\<And>x. map_of att x = None"
    by (auto simp: first_change_def active_at_end_def case_some cong: option.case_cong)
  have "att = []"
  proof (cases att)
    case (Cons e es)
    then show ?thesis using r(3) [of "fst e"] by simp
  qed
  then show ?thesis using c r(1,2) by (auto simp: fun_eq_iff)
qed

theorem checkpoint_recovered_witness:
  "\<exists>t' lsn dpt. Checkpoint (one_leaf demo_leaf) = (Inr (), t') \<and> chkFile t' = Some (PutUint64 lsn) \<and>
     analysisLoop (wal t') lsn [] [] = Some (dpt, [], currentLSN (wal t'))"
proof -
  have t: "wal (one_leaf demo_leaf) = NewWAL None" "treeWal (one_leaf demo_leaf)" "pageTable (one_leaf demo_leaf) = []"
    "mapOrder (one_leaf demo_leaf) = (\<lambda>_ xs. xs)"
    by (simp_all add: one_leaf_def NewBufferManager_def BufferManager.defs BTree.defs)
  have d: "GetDirtyPageTable (one_leaf demo_leaf) = []"
    by (simp add: GetDirtyPageTable_def ranged_def t)
  have c: "currentLSN (NewWAL None) = 4" by (simp add: NewWAL_def OpenFile_def Let_def)
  show ?thesis using checkpoint_recovered [of "one_leaf demo_leaf" "[]"] NewWAL_holds by (auto simp: t(1,2) d c)
qed
end
