(* ===== verification/Fresh_Database.thy ===== *)
theory Fresh_Database imports Recovery_Analysis Tree_Grow
begin

text \<open>
  Opening a database without files: \<^verbatim>\<open>NewBTree\<close> of \<^verbatim>\<open>btree.go\<close> with the recovery of an empty log, and what clients
  find on the database it creates.
\<close>

section \<open>Recovery of an empty log\<close>

lemma startLSN_holds: "wal_holds w rs \<Longrightarrow> startLSN w 0 = 4"
  by (simp add: startLSN_def wal_holds_def log_bytes_def ReadAt_def wal_magic_def sub_def)

lemma Recover_empty:
  assumes "wal_holds (wal t) []" "treeWal t" "bmWal t" "chkFile t = None"
  shows "Recover t = Some (Inr (), t)"
proof -
  have cur: "currentLSN (wal t) = 4"
    using assms(1) by (simp add: wal_holds_def log_bytes_def wal_magic_def word_unat_eq_iff)
  obtain e where e: "ReadRecord (wal t) 4 = Some (Inl e)" using wal_holds_read_end [OF assms(1)] cur by simp
  have an: "analysisLoop (wal t) 4 [] [] = Some ([], [], 4)" by (subst analysisLoop.simps) (simp add: e)
  have re: "redoPhase [] 4 (t\<lparr>treeWal := False, bmWal := False\<rparr>) = Some (Inr (), t\<lparr>treeWal := False, bmWal := False\<rparr>)"
    by (subst redoPhase.simps) (simp add: e)
  have un: "undoPhase [] s = Some s" for s by (subst undoPhase.simps) simp
  have "t\<lparr>treeWal := True, bmWal := True\<rparr> = t" using assms(2,3) by simp
  then show ?thesis
    using assms(2,4) startLSN_holds [OF assms(1)] an re by (simp add: Recover_def Let_def minRecLSN_def un)
qed

section \<open>A new database\<close>

lemma fresh_pool:
  fixes ord :: "nat \<Rightarrow> u32 list \<Rightarrow> u32 list"
  assumes "\<And>n xs. mset (ord n xs) = mset xs"
  defines "t \<equiv> BufferManager.extend (NewBufferManager None 100 (NewWAL None) True ord) (BTree.fields True 0 None)"
  shows "implements t (abs_pool t)" "\<And>i. pview (abs_pool t) i = None" "\<And>i. pheld (abs_pool t) i = LFree"
    "ptouched (abs_pool t) = {}" "pcap (abs_pool t) = 100" "plogopen (abs_pool t)" "pfile (abs_pool t) = 0"
    "wal t = NewWAL None" "treeWal t" "bmWal t" "chkFile t = None" "fbytes (pager t) = []"
proof -
  have wf: "wf_bm t" using wf_NewBufferManager [OF assms(1)] by (simp add: t_def)
  show "implements t (abs_pool t)" by (rule implements_abs [OF wf])
  show "pview (abs_pool t) i = None" "pheld (abs_pool t) i = LFree" for i
    by (simp_all add: t_def NewBufferManager_obs disk_page_def OpenFile_def)
  show "ptouched (abs_pool t) = {}" by (simp add: t_def NewBufferManager_obs)
  show "pcap (abs_pool t) = 100" "plogopen (abs_pool t)" "pfile (abs_pool t) = 0" "wal t = NewWAL None" "treeWal t" "bmWal t" "chkFile t = None"
    "fbytes (pager t) = []"
    by (simp_all add: t_def)
      (simp_all add: NewBufferManager_def NewWAL_def OpenFile_def AppendFile_def Let_def NewPager_def BufferManager.defs BTree.defs)
qed

lemma empty_leaf: "leaf_page (SetPageID (NewPage PageTypeLeaf) i) []" "GetPageID (SetPageID (NewPage PageTypeLeaf) i) = i"
proof -
  have "SetPageID (NewPage PageTypeLeaf) i = Page_Init (SetPageID (replicate PageSize 0) i) PageTypeLeaf" by (rule SetPageID_NewPage)
  then show "leaf_page (SetPageID (NewPage PageTypeLeaf) i) []"
    using wf_Page_Init [of "SetPageID (replicate PageSize 0) i" PageTypeLeaf]
    by (simp add: leaf_page_def Page_Init_fields)
  show "GetPageID (SetPageID (NewPage PageTypeLeaf) i) = i" by (simp add: page_set_same)
qed

lemma meta_page:
  fixes m :: page
  defines "m \<equiv> SetFirstFreePageID (SetRootPageID (SetPageID (NewPage PageTypeMeta) 0) 1) 0"
  shows "GetPageID m = 0" "GetFirstFreePageID m = 0" "GetRootPageID m = 1" "length m = PageSize"
proof -
  have g: "GetPageID (SetRootPageID q x) = GetPageID q" "GetPageID (SetFirstFreePageID q x) = GetPageID q"
    "GetRootPageID (SetFirstFreePageID q x) = GetRootPageID q" if "length q = PageSize" for q x
    using that by (simp_all add: page_getters page_setters sub_blit_other)
  show "GetPageID m = 0" "GetRootPageID m = 1" "GetFirstFreePageID m = 0" "length m = PageSize"
    by (simp_all add: m_def g page_set_same)
qed

lemma NewBTree_fresh:
  assumes "\<And>n xs. mset (ord n xs) = mset xs"
  shows "\<exists>t a. NewBTree None None None ord = Some (Inr (), t) \<and> db_ok t a 0 [] [1] [] (\<lambda>kv. ([], Value kv)) \<and>
    pfile a = 2 * PageSize"
proof -
  define t0 where "t0 = BufferManager.extend (NewBufferManager None 100 (NewWAL None) True ord) (BTree.fields True 0 None)"
  note fp = fresh_pool [where ord = ord, OF assms, folded t0_def]
  have rec: "Recover t0 = Some (Inr (), t0)" by (rule Recover_empty) (use fp NewWAL_holds in simp_all)
  let ?a0 = "abs_pool t0" and ?m0 = "SetPageID (NewPage PageTypeMeta) 0" and ?l = "SetPageID (NewPage PageTypeLeaf) 1"
  obtain i0 f0 where al0: "AllocatePage (pager t0) PageTypeMeta = (Inr i0, f0)" "unat i0 = pfile ?a0 div PageSize"
    "implements (t0\<lparr>pager := f0\<rparr>) (?a0\<lparr>pview := (pview ?a0)(i0 \<mapsto> SetPageID (NewPage PageTypeMeta) i0), pfile := pfile ?a0 + PageSize\<rparr>)"
    by (rule impl_allocate [OF fp(1), of PageTypeMeta]) (use fp(7) in simp_all)
  have i0: "i0 = 0" using al0(2) fp(7) by (simp add: unat_eq_0)
  let ?a1 = "?a0\<lparr>pview := (pview ?a0)(0 \<mapsto> ?m0), pfile := PageSize\<rparr>"
  have im1: "implements (t0\<lparr>pager := f0\<rparr>) ?a1" using al0(3) fp(7) i0 by simp
  obtain i1 f1 where al1: "AllocatePage (pager (t0\<lparr>pager := f0\<rparr>)) PageTypeLeaf = (Inr i1, f1)" "unat i1 = pfile ?a1 div PageSize"
    "implements (t0\<lparr>pager := f0, pager := f1\<rparr>) (?a1\<lparr>pview := (pview ?a1)(i1 \<mapsto> SetPageID (NewPage PageTypeLeaf) i1), pfile := pfile ?a1 + PageSize\<rparr>)"
    by (rule impl_allocate [OF im1, of PageTypeLeaf]) simp_all
  have i1: "i1 = 1" using al1(2) by (simp add: word_unat_eq_iff)
  let ?V = "(pview ?a0)(0 \<mapsto> ?m0, 1 \<mapsto> ?l)"
  let ?a2 = "?a0\<lparr>pview := ?V, pfile := 2 * PageSize\<rparr>"
  have im2: "implements (t0\<lparr>pager := f1\<rparr>) ?a2" using al1(3) i1 by simp
  have rm: "room ?a2 0" using fp(3,5) by (simp add: room_def busy_def)
  obtain q t3 where fw: "FetchPageForWrite 0 PageTypeMeta (t0\<lparr>pager := f1\<rparr>) = Some (Inr q, t3)" "norm_page q = ?m0"
    "implements t3 (?a2\<lparr>pheld := (pheld ?a2)(0 := LWrite)\<rparr>)"
    using pool.fetchW_free [OF im2, of 0 ?m0 PageTypeMeta] rm fp(3,6) by auto
  have ql: "length q = PageSize" using arg_cong [OF fw(2), of length] by simp
  define m where "m = SetFirstFreePageID (SetRootPageID q 1) 0"
  have nm: "norm_page m = SetFirstFreePageID (SetRootPageID ?m0 1) 0"
    using norm_page_set [of q] norm_page_set [of "SetRootPageID q 1"] ql fw(2) by (simp add: m_def)
  have ml: "length m = PageSize" using ql by (simp add: m_def)
  let ?m = "SetFirstFreePageID (SetRootPageID ?m0 1) 0"
  let ?a4 = "?a2\<lparr>pheld := (pheld ?a2)(0 := LWrite), pview := ?V(0 \<mapsto> ?m), ptouched := {0}\<rparr>"
  have im4: "implements (putPage 0 m t3) ?a4" using pool.write_held [OF fw(3), of 0 m] ml nm fp(4) by simp
  obtain t5 where t5: "logFullPage 0 0 (putPage 0 m t3) = Some t5" "implements t5 ?a4"
    by (rule logFullPage_ok [OF im4, of 0 0]) (use fp(6) in auto)
  let ?a6 = "?a4\<lparr>pheld := (pheld ?a4)(0 := LFree), ptouched := {}\<rparr>"
  obtain t6 where t6: "dropUnpin 0 True True t5 = Some t6" "implements t6 ?a6"
    by (rule dropUnpin_ok [OF t5(2), of 0]) auto
  let ?t = "t6\<lparr>rootPageID := 1\<rparr>" and ?b = "?a6\<lparr>pmore := BufferManager.more (t6\<lparr>rootPageID := 1\<rparr>)\<rparr>"
  have run: "NewBTree None None None ord = Some (Inr (), ?t)"
    using rec fp(12) al0(1) al1(1) fw(1) t5(1) t6(1) i0 i1 by (simp add: NewBTree_def t0_def [symmetric] Let_def m_def)
  have ib: "implements ?t ?b" by (rule impl_root [OF t6(2)])
  have v: "pview ?b i = (if i = 0 then Some ?m else if i = 1 then Some ?l else None)" for i using fp(2) by simp
  have h: "pheld ?b i = LFree" for i using fp(3) by simp
  have "store_ok ?b []"
    using meta_page empty_leaf(2) h fp(2,6) by (auto simp: store_ok_def split: if_splits)
  then have "db_ok ?t ?b 0 [] [1] [] (\<lambda>kv. ([], Value kv))"
    using ib h fp(5,6) meta_page(3) empty_leaf(1) by (auto simp: db_ok_alt values_ok_def root_is_def v)
  then show ?thesis using run by (intro exI [of _ ?t] exI [of _ ?b]) simp
qed

section \<open>Properties of a new database\<close>

text \<open>C2: A new database is empty and correct from then on. Opening a database in a directory without data,
  log and checkpoint files succeeds, whatever order the language's map iteration takes: recovery finds
  nothing to do, the meta page and an empty root leaf are created, and the tree holds the empty map; after any
  run of clients on it whose writes are of small cells (keys of 9 to 187 bytes on disk, cells of at most 258 bytes, as run admits
  them) every read returns what the successful writes of the run, in their order, say.\<close>

theorem new_database_serves_map:
  assumes "\<forall>n xs. mset (ord n xs) = mset xs"
  shows "\<exists>t. NewBTree None None None ord = Some (Inr (), t) \<and> tree_holds (tm, t) Map.empty \<and>
    (\<forall>tr s k. run (tm, t) tr s \<longrightarrow> (\<exists>s2. tree_lookup k s = Some (read_result (replay Map.empty tr k), s2)))"
proof -
  obtain t a where t: "NewBTree None None None ord = Some (Inr (), t)" "db_ok t a 0 [] [1] [] (\<lambda>kv. ([], Value kv))"
    using NewBTree_fresh [of ord] assms by blast
  have "tree_at (pview a) 0 (rootPageID t) [] None [] [1]" by (rule db_okD(4) [OF t(2)])
  then have "short_seps (pview a) [1]" using leaf_not_node by (auto simp: short_seps_def)
  then have "small_db t a 0 [] [1] [] (\<lambda>kv. ([], Value kv))" using t(2) by (simp add: small_db_def)
  moreover have "Map.empty = contents []" by (simp add: contents_def fun_eq_iff)
  ultimately have h: "tree_holds (tm, t) Map.empty" unfolding tree_holds_def snd_conv by blast
  then show ?thesis using t(1) run_holds [OF _ h] small_tree.lookup_spec by blast
qed

theorem new_database_serves_map_witness:
  "\<exists>t. NewBTree None None None (\<lambda>_ xs. xs) = Some (Inr (), t) \<and> tree_holds (None, t) Map.empty"
  using new_database_serves_map [of "\<lambda>_ xs. xs" None] by auto
end
