(* ===== verification/Vacuum.thy ===== *)
theory Vacuum
  imports BTree
begin

text \<open>
  The vacuum of \<^verbatim>\<open>internal/storage/vacuum.go\<close>: a walk over all leaves that drops versions no active
  transaction can need and tombstones older than all of them, frees their overflow chains, and then
  prunes the transaction tables. The background goroutine that repeats it is not modelled.
\<close>

section \<open>Operations\<close>

fun vacuumLoop ::
  "page \<Rightarrow> u64 \<Rightarrow> nat list \<Rightarrow> bytes list \<Rightarrow> nat \<Rightarrow> BTree \<Rightarrow> (bytes list \<times> nat \<times> BTree) option" where
  "vacuumLoop leaf minActive [] cellsToKeep cleanedCount t = Some (cellsToKeep, cleanedCount, t)"
| "vacuumLoop leaf minActive (i # is) cellsToKeep cleanedCount t = do {
     c \<leftarrow> getCell leaf i;
     kv \<leftarrow> DeserializeKVCell c;
     let (userKey, txID) = ExtractMVCCKey (Key kv);
     isOldVersion \<leftarrow>
       (if of_nat i < getSlotCount leaf - 1
        then do {
          nextC \<leftarrow> getCell leaf (i + 1);
          nextKV \<leftarrow> DeserializeKVCell nextC;
          let (nextUserKey, nextTxID) = ExtractMVCCKey (Key nextKV);
          Some (userKey = nextUserKey \<and> nextTxID < minActive)
        }
        else Some False);
     (if isOldVersion \<or> IsDeleted kv \<and> txID < minActive
      then do {
        t \<leftarrow> (if IsOverflow kv then freeOverflowChain (Value kv) t else Some t);
        vacuumLoop leaf minActive is cellsToKeep (cleanedCount + 1) t
      }
      else vacuumLoop leaf minActive is (cellsToKeep @ [c]) cleanedCount t)
   }"

definition vacuumLeaf :: "u32 \<Rightarrow> u64 \<Rightarrow> BTree \<Rightarrow> ((goerr + unit) \<times> BTree) option" where
  "vacuumLeaf pageID minActive t =
     andThen (FetchPageForWrite pageID PageTypeLeaf t) (\<lambda>leaf t. do {
       (cellsToKeep, cleanedCount, t) \<leftarrow> vacuumLoop leaf minActive (slots leaf) [] 0 t;
       (if cleanedCount > 0
        then do {
          leaf \<leftarrow> each Page_Insert (Page_Init leaf PageTypeLeaf) cellsToKeep;
          UnpinPage pageID True True (putPage pageID leaf t)
        }
        else UnpinPage pageID False True t)
     })"

definition childIDs :: "page \<Rightarrow> u32 list option" where
  "childIDs page = those (map (\<lambda>i. do {
     cellData \<leftarrow> getCell page i;
     kCell \<leftarrow> DeserializeKeyCell cellData;
     Some (ChildPageID kCell)
   }) (slots page))"

text \<open>The loop over the children of an internal node.\<close>

fun forEach :: "('x \<Rightarrow> 's \<Rightarrow> 's option) \<Rightarrow> 'x list \<Rightarrow> 's \<Rightarrow> 's option" where
  "forEach f [] s = Some s"
| "forEach f (x # xs) s = Option.bind (f x s) (forEach f xs)"

lemma forEach_mono [partial_function_mono]:
  assumes "\<And>x s. mono_option (\<lambda>f. G x s f)"
  shows "mono_option (\<lambda>f. forEach (\<lambda>x s. G x s f) xs s)"
proof (induction xs arbitrary: s)
  case Nil
  then show ?case by (simp add: option.const_mono)
next
  case (Cons x xs)
  show ?case unfolding forEach.simps by (rule bind_mono [OF assms]) (rule Cons.IH)
qed

partial_function (option) vacuumNode :: "u64 \<Rightarrow> u32 \<Rightarrow> BTree \<Rightarrow> ((goerr + unit) \<times> BTree) option" where
  "vacuumNode minActive pageID t =
     andThen (FetchPageForRead pageID PageTypeInternal t) (\<lambda>page t.
       if GetPageType page = PageTypeLeaf
       then Option.bind (dropUnpin pageID False False t) (\<lambda>t. vacuumLeaf pageID minActive t)
       else
         Option.bind (childIDs page) (\<lambda>children.
         Option.bind (dropUnpin pageID False False t) (\<lambda>t.
         Option.bind (forEach (\<lambda>childID t.
             if childID \<noteq> 0
             then Option.bind (vacuumNode minActive childID t) (\<lambda>(_, t). Some t)
             else Some t) children t) (\<lambda>t.
           Some (Inr (), t)))))"

definition Vacuum :: "TransactionManager \<Rightarrow> BTree \<Rightarrow> ((goerr + unit) \<times> (TransactionManager \<times> BTree)) option" where
  "Vacuum txMgr t = do {
     let minActive = GetMinActiveTxID txMgr;
     (err, t) \<leftarrow> vacuumNode minActive (rootPageID t) t;
     Some (err, (PruneTables txMgr minActive, t))
   }"

end
