(* ===== verification/Server_Run.thy ===== *)
theory Server_Run
  imports Session Fresh_Database Vacuum
begin

text \<open>
  The server process of \<^verbatim>\<open>server.go\<close>: \<^verbatim>\<open>main\<close> with its accept loop, the connections it serves at the same time, and the background
  routines of \<^verbatim>\<open>vacuum.go\<close> and \<^verbatim>\<open>btree.go\<close>. The goroutines interleave as a step relation: a step is one accepted connection, one
  iteration of the read loop of one connection, its end, or one round of a routine. The numbers of connections stand for the sockets.
\<close>

section \<open>The server process\<close>

text \<open>The open connections by number; the goroutine of a connection holds its client state.\<close>

record server =
  srvDB :: DB
  sessions :: "nat \<rightharpoonup> ClientState"

text \<open>\<^verbatim>\<open>main\<close> up to the accept loop: \<open>Inl\<close> is the exit with a fatal error.\<close>

definition server_main ::
  "bytes option \<Rightarrow> bytes option \<Rightarrow> bytes option \<Rightarrow> (nat \<Rightarrow> u32 list \<Rightarrow> u32 list) \<Rightarrow> (goerr + server) option" where
  "server_main walFile dbFile chk ord = do {
     (r, t) \<leftarrow> NewBTree walFile dbFile chk ord;
     (case r of
        Inl e \<Rightarrow> Some (Inl (ErrWrap ''Failed to initialize database'' e))
      | Inr _ \<Rightarrow> Some (Inr \<lparr>srvDB = NewDB t NewTransactionManager, sessions = Map.empty\<rparr>))
   }"

text \<open>One round of the background routines: an error is only printed.\<close>

definition vacuumTick :: "server \<Rightarrow> server option" where
  "vacuumTick s = do {
     (_, (m, t)) \<leftarrow> Vacuum (txMgr (srvDB s)) (index (srvDB s));
     Some (s\<lparr>srvDB := \<lparr>index = t, txMgr = m\<rparr>\<rparr>)
   }"

definition checkpointTick :: "server \<Rightarrow> server" where
  "checkpointTick s = s\<lparr>srvDB := (srvDB s)\<lparr>index := snd (Checkpoint (index (srvDB s)))\<rparr>\<rparr>"

text \<open>An accepted connection gets a goroutine with a fresh client state and the greeting.\<close>

definition acceptConn :: "nat \<Rightarrow> server \<Rightarrow> server" where
  "acceptConn c s = s\<lparr>sessions := (sessions s)(c \<mapsto> NewClientState)\<rparr>"

text \<open>The deferred calls of a connection that ends: the rollback of an open transaction, and the close.\<close>

definition endSession :: "nat \<Rightarrow> ClientState \<Rightarrow> server \<Rightarrow> server option" where
  "endSession c client s = do {
     db \<leftarrow> deferredRollback client (srvDB s);
     Some (s\<lparr>srvDB := db, sessions := (sessions s)(c := None)\<rparr>)
   }"

text \<open>One iteration of the read loop of an open connection, with the end of the connection if the loop ends there.\<close>

definition serveLine :: "nat \<Rightarrow> u64 \<Rightarrow> bytes \<Rightarrow> ClientState \<Rightarrow> server \<Rightarrow> (reply list \<times> server) option" where
  "serveLine c now line client s = do {
     (out, quit, client, db) \<leftarrow> scanLine now line (client, srvDB s);
     let s = s\<lparr>srvDB := db, sessions := (sessions s)(c \<mapsto> client)\<rparr>;
     s \<leftarrow> (if quit then endSession c client s else Some s);
     Some (out, s)
   }"

section \<open>The transaction table stays well formed\<close>

lemma rewriteLeaf_wf: "rewriteLeaf key val flag l cells (Some tm, t) = Some (r, (Some m, t')) \<Longrightarrow> wf_txn tm \<Longrightarrow> wf_txn m"
  by (auto simp: rewriteLeaf_def Let_def split: bind_splits if_splits sum.splits prod.splits)

lemma upsertCell_wf: "upsertCell key val flag (Some tm) t = Some (r, (Some m, t')) \<Longrightarrow> wf_txn tm \<Longrightarrow> wf_txn m"
  unfolding upsertCell_def upsertValue_def andThen_eq_Some onTree_eq_Some
  by (auto simp: andThen_eq_Some onTree_eq_Some Let_def split: if_splits dest: rewriteLeaf_wf)

lemma DB_Rollback_wf: "DB_Rollback x db = Some (r, db') \<Longrightarrow> wf_txn (txMgr db) \<Longrightarrow> wf_txn (txMgr db')"
  by (auto simp: DB_Rollback_def Rollback_def Let_def andThen_eq_Some onTree_eq_Some)

lemma DB_Commit_wf: "wf_txn (txMgr db) \<Longrightarrow> wf_txn (txMgr (snd (DB_Commit x db)))"
  by (auto simp: DB_Commit_def Commit_def Let_def split: prod.split sum.split)

lemma finishWrite_wf:
  assumes "finishWrite x db u = Some (r, db')" "wf_txn (txMgr db)" "\<And>r m t. u = Some (r, (Some m, t)) \<Longrightarrow> wf_txn m"
  shows "wf_txn (txMgr db')"
  using assms by (fastforce simp: finishWrite_def Let_def split: bind_splits sum.splits if_splits option.splits dest: DB_Rollback_wf)

lemma executeCommand_wf:
  assumes "executeCommand x line db = Some (rep, r, db')" "wf_txn (txMgr db)"
  shows "wf_txn (txMgr db')"
proof -
  have "wf_txn (txMgr db')" if "DB_Set x k v db = Some (r2, db')" for k v r2
    using that unfolding DB_Set_def Let_def Insert_def
    by (rule finishWrite_wf [OF _ assms(2)]) (use upsertCell_wf assms(2) in blast)
  moreover have "wf_txn (txMgr db')" if "DB_Delete x k db = Some (r2, db')" for k r2
    using that unfolding DB_Delete_def Let_def Delete_def
    by (rule finishWrite_wf [OF _ assms(2)]) (use upsertCell_wf assms(2) in blast)
  moreover have "wf_txn (txMgr db')" if "DB_Get x k db = Some (r2, db')" for k r2
    using that assms(2) by (auto simp: DB_Get_def Let_def)
  ultimately show ?thesis using assms unfolding executeCommand_def Let_def by (auto split: if_splits bind_splits sum.splits)
qed

lemma handleLine_wf:
  assumes "handleLine now line (c, db) = Some (out, q, c', db')" "wf_txn (txMgr db)"
  shows "wf_txn (txMgr db')"
proof -
  obtain x m where b: "Begin (txMgr db) now = (x, m)" by (cases "Begin (txMgr db) now")
  then have "wf_txn m" using wf_txn_ops(4) [OF assms(2), of now] by simp
  then have ex: "wf_txn (txMgr d)" if "executeCommand x (TrimSpace line) (db\<lparr>txMgr := m\<rparr>) = Some (rep, r, d)" for rep r d
    using executeCommand_wf [OF that] by simp
  show ?thesis
    using assms \<open>wf_txn m\<close> unfolding handleLine_def Let_def prod.case b
    by (auto split: if_splits bind_splits sum.splits dest: executeCommand_wf [OF _ assms(2)] ex DB_Rollback_wf intro!: DB_Commit_wf)
qed

text \<open>A line touches the status of no other transaction than its session's and the one it begins.\<close>

lemma handleLine_other:
  assumes "handleLine now line (c, db) = Some (out, q, c', db')" "x \<noteq> now" "InTx c \<Longrightarrow> x \<noteq> TxID c"
  shows "GetStatus (txMgr db') x = GetStatus (txMgr db) x" "InTx c' \<Longrightarrow> TxID c' = now \<or> InTx c \<and> TxID c' = TxID c"
proof -
  note ex = executeCommand_status [where x = x]
  show "GetStatus (txMgr db') x = GetStatus (txMgr db) x"
    using assms unfolding handleLine_def Let_def prod.case
    by (auto simp: Begin_status DB_Commit_status DB_Rollback_status(2) split: if_splits bind_splits sum.splits prod.splits dest!: ex)
  show "InTx c' \<Longrightarrow> TxID c' = now \<or> InTx c \<and> TxID c' = TxID c"
    using assms(1) unfolding handleLine_def Let_def prod.case
    by (auto simp: Begin_status split: if_splits bind_splits sum.splits prod.splits)
qed

lemma scanLine_wf:
  assumes "scanLine now line (c, db) = Some (out, q, c', db')" "wf_txn (txMgr db)"
  shows "wf_txn (txMgr db')"
  using assms handleLine_wf by (auto simp: scanLine_def split: if_splits)

lemma scanLine_other:
  assumes "scanLine now line (c, db) = Some (out, q, c', db')" "x \<noteq> now" "InTx c \<Longrightarrow> x \<noteq> TxID c"
  shows "GetStatus (txMgr db') x = GetStatus (txMgr db) x" "InTx c' \<Longrightarrow> TxID c' = now \<or> InTx c \<and> TxID c' = TxID c"
  using assms handleLine_other [of now line c db out q c' db' x] by (auto simp: scanLine_def split: if_splits)

section \<open>Runs of the server\<close>

text \<open>The clock has not returned the id of an open transaction again.\<close>

definition fresh_clock :: "u64 \<Rightarrow> server \<Rightarrow> bool" where
  "fresh_clock now s \<longleftrightarrow> (\<forall>d ds. sessions s d = Some ds \<and> InTx ds \<longrightarrow> TxID ds \<noteq> now)"

text \<open>A step of the process, with what it writes to the connection it is about. Only a socket that is not open is accepted,
  and only an open one is read from or found closed by its peer.\<close>

inductive server_step :: "server \<Rightarrow> reply list \<Rightarrow> server \<Rightarrow> bool" where
  step_accept: "sessions s c = None \<Longrightarrow> server_step s [RWelcome] (acceptConn c s)"
| step_line: "sessions s c = Some client \<Longrightarrow> fresh_clock now s \<Longrightarrow> serveLine c now line client s = Some (out, s') \<Longrightarrow> server_step s out s'"
| step_hangup: "sessions s c = Some client \<Longrightarrow> endSession c client s = Some s' \<Longrightarrow> server_step s [] s'"
| step_vacuum: "vacuumTick s = Some s' \<Longrightarrow> server_step s [] s'"
| step_checkpoint: "server_step s [] (checkpointTick s)"

inductive server_run :: "server \<Rightarrow> server \<Rightarrow> bool" for s where
  server_start: "server_run s s"
| server_next: "server_run s s1 \<Longrightarrow> server_step s1 out s2 \<Longrightarrow> server_run s s2"

text \<open>Every open transaction of a session is running, and no two sessions share one.\<close>

definition server_ok :: "server \<Rightarrow> bool" where
  "server_ok s \<longleftrightarrow> wf_txn (txMgr (srvDB s)) \<and>
     (\<forall>c cs. sessions s c = Some cs \<and> InTx cs \<longrightarrow> GetStatus (txMgr (srvDB s)) (TxID cs) = TXN_RUNNING) \<and>
     (\<forall>c d cs ds. sessions s c = Some cs \<and> InTx cs \<and> sessions s d = Some ds \<and> InTx ds \<and> TxID cs = TxID ds \<longrightarrow> c = d)"

lemma server_okD:
  assumes "server_ok s"
  shows "wf_txn (txMgr (srvDB s))" "sessions s c = Some cs \<Longrightarrow> InTx cs \<Longrightarrow> GetStatus (txMgr (srvDB s)) (TxID cs) = TXN_RUNNING"
    "sessions s c = Some cs \<Longrightarrow> InTx cs \<Longrightarrow> sessions s d = Some ds \<Longrightarrow> InTx ds \<Longrightarrow> TxID cs = TxID ds \<Longrightarrow> c = d"
  using assms unfolding server_ok_def by blast+

lemma endSession_ok:
  assumes "endSession c cl s = Some s'" "server_ok s" "sessions s c = Some cl"
  shows "server_ok s'"
proof -
  note d = server_okD [OF assms(2)]
  obtain db' where e: "s' = s\<lparr>srvDB := db', sessions := (sessions s)(c := None)\<rparr>" "wf_txn (txMgr db')"
    "\<And>x. (InTx cl \<Longrightarrow> x \<noteq> TxID cl) \<Longrightarrow> GetStatus (txMgr db') x = GetStatus (txMgr (srvDB s)) x"
  proof (cases "InTx cl")
    case True
    then obtain r db' where "DB_Rollback (TxID cl) (srvDB s) = Some (r, db')" "s' = s\<lparr>srvDB := db', sessions := (sessions s)(c := None)\<rparr>"
      using assms(1) by (auto simp: endSession_def deferredRollback_def split: bind_splits)
    then show ?thesis using that [of db'] DB_Rollback_wf d(1) DB_Rollback_status(2) True by blast
  next
    case False
    then show ?thesis using that [of "srvDB s"] assms(1) d(1) by (simp add: endSession_def deferredRollback_def)
  qed
  have "GetStatus (txMgr db') (TxID ds) = TXN_RUNNING" if h: "sessions s x = Some ds" "InTx ds" "x \<noteq> c" for x ds
    using e(3) [of "TxID ds"] d(2,3) h assms(3) by metis
  then show ?thesis using e(1,2) d(3) unfolding server_ok_def by (auto split: if_splits)
qed

lemma serveLine_ok:
  assumes "serveLine c now line cl s = Some (out, s')" "server_ok s" "sessions s c = Some cl" "fresh_clock now s"
  shows "server_ok s'"
proof -
  note d = server_okD [OF assms(2)]
  obtain q cl1 db1 where h: "scanLine now line (cl, srvDB s) = Some (out, q, cl1, db1)"
    "(if q then endSession c cl1 (s\<lparr>srvDB := db1, sessions := (sessions s)(c \<mapsto> cl1)\<rparr>)
      else Some (s\<lparr>srvDB := db1, sessions := (sessions s)(c \<mapsto> cl1)\<rparr>)) = Some s'"
    using assms(1) by (auto simp: serveLine_def Let_def split: bind_splits)
  let ?s = "s\<lparr>srvDB := db1, sessions := (sessions s)(c \<mapsto> cl1)\<rparr>"
  have fr: "TxID ds \<noteq> now" if "sessions s x = Some ds" "InTx ds" for x ds using assms(4) that by (auto simp: fresh_clock_def)
  have own: "session_ok (cl1, db1)"
    by (rule scanLine_ok [OF h(1)]) (use d(2) [OF assms(3)] in \<open>simp add: session_ok_def\<close>)
  have oth: "GetStatus (txMgr db1) (TxID ds) = TXN_RUNNING" "InTx cl1 \<Longrightarrow> TxID cl1 \<noteq> TxID ds"
    if x: "sessions s x = Some ds" "InTx ds" "x \<noteq> c" for x ds
  proof -
    have ne: "TxID ds \<noteq> now" "InTx cl \<Longrightarrow> TxID ds \<noteq> TxID cl" using fr [OF x(1,2)] d(3) [OF x(1,2) assms(3)] x(3) by blast+
    show "GetStatus (txMgr db1) (TxID ds) = TXN_RUNNING" using scanLine_other(1) [OF h(1) ne] d(2) [OF x(1,2)] by simp
    show "TxID cl1 \<noteq> TxID ds" if "InTx cl1" using scanLine_other(2) [OF h(1) ne that] ne by metis
  qed
  have "server_ok ?s"
    using scanLine_wf [OF h(1) d(1)] own oth d(3) unfolding server_ok_def session_ok_def
    by (auto split: if_splits) metis+
  then show ?thesis using h(2) endSession_ok [of c cl1 ?s s'] by (cases q) simp_all
qed

lemma server_step_ok: "server_step s out s' \<Longrightarrow> server_ok s \<Longrightarrow> server_ok s'"
proof (induction rule: server_step.induct)
  case (step_accept s c)
  then show ?case by (auto simp: acceptConn_def server_ok_def NewClientState_def split: if_splits)
next
  case (step_vacuum s s')
  then obtain t where "s' = s\<lparr>srvDB := \<lparr>index = t, txMgr = PruneTables (txMgr (srvDB s)) (GetMinActiveTxID (txMgr (srvDB s)))\<rparr>\<rparr>"
    by (auto simp: vacuumTick_def Vacuum_def Let_def split: bind_splits)
  then show ?case using step_vacuum by (auto simp: server_ok_def GetStatus_PruneTables)
next
  case (step_checkpoint s)
  then show ?case by (auto simp: checkpointTick_def server_ok_def)
qed (blast intro: endSession_ok serveLine_ok)+

lemma server_run_ok: "server_run s s' \<Longrightarrow> server_ok s \<Longrightarrow> server_ok s'"
  by (induction rule: server_run.induct) (auto dest: server_step_ok)

lemma server_main_ok: "server_main w d chk ord = Some (Inr s) \<Longrightarrow> server_ok s"
  by (auto simp: server_main_def NewDB_def server_ok_def split: bind_splits sum.splits)

section \<open>Properties of the server\<close>

text \<open>C9: No session loses its transaction. After any run of the server from its start, connections coming and going,
  their lines interleaved in any order with rounds of the vacuum and the checkpoint routine, the open transaction of every
  session is running, is not below the vacuum's watermark, and belongs to no other session, as long as the clock does not
  return the id of an open transaction again.\<close>

theorem open_transactions_running:
  assumes "server_main walFile dbFile chk ord = Some (Inr s0)" "server_run s0 s" "sessions s c = Some cs" "InTx cs"
  shows "GetStatus (txMgr (srvDB s)) (TxID cs) = TXN_RUNNING \<and> GetMinActiveTxID (txMgr (srvDB s)) \<le> TxID cs \<and>
    (\<forall>d ds. sessions s d = Some ds \<and> InTx ds \<and> d \<noteq> c \<longrightarrow> TxID ds \<noteq> TxID cs)"
proof -
  have "server_ok s" using server_run_ok [OF assms(2)] server_main_ok [OF assms(1)] by blast
  note d = server_okD [OF this]
  have r: "GetStatus (txMgr (srvDB s)) (TxID cs) = TXN_RUNNING" by (rule d(2) [OF assms(3,4)])
  then have "GetMinActiveTxID (txMgr (srvDB s)) \<le> TxID cs" by (rule min_active_le)
  then show ?thesis using r d(3) [OF assms(3,4)] by metis
qed

theorem open_transactions_running_witness:
  "\<exists>s0 s cs. server_main None None None (\<lambda>_ xs. xs) = Some (Inr s0) \<and> server_run s0 s \<and> sessions s 0 = Some cs \<and> InTx cs \<and>
     GetStatus (txMgr (srvDB s)) (TxID cs) = TXN_RUNNING"
proof -
  obtain t a where t: "NewBTree None None None (\<lambda>_ xs. xs) = Some (Inr (), t)" "db_ok t a 0 [] [1] [] (\<lambda>kv. ([], Value kv))"
    using NewBTree_fresh [of "\<lambda>_ xs. xs"] by auto
  let ?s = "\<lparr>srvDB = NewDB t NewTransactionManager, sessions = Map.empty\<rparr>"
  have m: "server_main None None None (\<lambda>_ xs. xs) = Some (Inr ?s)" using t(1) by (simp add: server_main_def)
  let ?s1 = "acceptConn 0 ?s"
  have s1: "sessions ?s1 = [0 \<mapsto> NewClientState]" by (simp add: acceptConn_def)
  then obtain s2 where s2: "serveLine 0 7 (ascii ''begin'') NewClientState ?s1 = Some ([ROk], s2)" "sessions s2 0 = Some \<lparr>InTx = True, TxID = 7\<rparr>"
    by (simp add: serveLine_def scanLine_def MaxScanTokenSize_def handleLine_def TrimSpace_def ToUpper_def firstField_def is_space_def ascii_def
        NewClientState_def Begin_def GenerateTxID_def Let_def)
  have "fresh_clock 7 ?s1" using s1 by (auto simp: fresh_clock_def NewClientState_def split: if_splits)
  then have "server_step ?s1 [ROk] s2" using step_line [of ?s1 0 NewClientState] s1 s2(1) by simp
  moreover have "server_run ?s ?s1" by (rule server_next [OF server_start step_accept]) simp
  ultimately have r: "server_run ?s s2" by (rule server_next [rotated])
  show ?thesis using open_transactions_running [OF m r s2(2)] m r s2(2) by auto
qed

end
