(* ===== verification/Vacuum_Reads.thy ===== *)
theory Vacuum_Reads imports Vacuum Tree_Grow
begin

text \<open>
  The vacuum of \<^verbatim>\<open>vacuum.go\<close> on a consistent tree: which cells of a leaf it keeps, the walk over the tree, and what
  running transactions read afterwards.
\<close>

section \<open>The cells a vacuum keeps\<close>

definition outdated :: "u64 \<Rightarrow> KVCell list \<Rightarrow> nat \<Rightarrow> bool" where
  "outdated m kvs i \<longleftrightarrow>
     Suc i < length kvs \<and> user_key (kvs ! i) = user_key (kvs ! Suc i) \<and> version (kvs ! Suc i) < m \<or>
     IsDeleted (kvs ! i) \<and> version (kvs ! i) < m"

definition survivors :: "u64 \<Rightarrow> KVCell list \<Rightarrow> KVCell list" where
  "survivors m kvs = map ((!) kvs) (filter (\<lambda>i. \<not> outdated m kvs i) [0..<length kvs])"

lemma set_survivors: "set (survivors m kvs) = {kvs ! i | i. i < length kvs \<and> \<not> outdated m kvs i}"
  by (auto simp: survivors_def)

lemma survivors_sub: "set (survivors m kvs) \<subseteq> set kvs"
  by (auto simp: set_survivors)

lemma sorted_survivors: "sorted_wrt (<) (map Key kvs) \<Longrightarrow> sorted_wrt (<) (map Key (survivors m kvs))"
proof -
  assume s: "sorted_wrt (<) (map Key kvs)"
  have "sorted_wrt (<) (filter (\<lambda>i. \<not> outdated m kvs i) [0..<length kvs])" by (rule sorted_wrt_filter) simp
  then have "sorted_wrt (\<lambda>i j. Key (kvs ! i) < Key (kvs ! j)) (filter (\<lambda>i. \<not> outdated m kvs i) [0..<length kvs])"
    by (rule sorted_wrt_mono_rel [rotated]) (use sorted_wrt_nth_less [OF s] in auto)
  then show ?thesis by (simp add: survivors_def sorted_wrt_map)
qed

lemma space_survivors: "space_used (map KVCell_Serialize (survivors m kvs)) \<le> space_used (map KVCell_Serialize kvs)"
proof -
  have "sum_list (map f (filter P is)) \<le> sum_list (map f is)" for f :: "nat \<Rightarrow> nat" and P "is" by (induction "is") auto
  from this [of "\<lambda>i. SlotSize + KVCell_Size (kvs ! i)" "\<lambda>i. \<not> outdated m kvs i" "[0..<length kvs]"]
  have "sum_list (map (\<lambda>e. SlotSize + KVCell_Size e) (survivors m kvs)) \<le> sum_list (map (\<lambda>e. SlotSize + KVCell_Size e) (map ((!) kvs) [0..<length kvs]))"
    by (simp add: survivors_def comp_def)
  then show ?thesis unfolding map_nth by (simp add: space_used_def comp_def)
qed

lemma survivors_all: "(\<And>i. i < length kvs \<Longrightarrow> \<not> outdated m kvs i) \<Longrightarrow> survivors m kvs = kvs"
proof -
  assume "\<And>i. i < length kvs \<Longrightarrow> \<not> outdated m kvs i"
  then have "filter (\<lambda>i. \<not> outdated m kvs i) [0..<length kvs] = [0..<length kvs]" by (simp add: filter_id_conv)
  then show ?thesis by (simp add: survivors_def map_nth)
qed

section \<open>One leaf\<close>

lemma vacuumLoop_step:
  assumes lp: "leaf_page leaf kvs" and i: "i < length kvs"
  shows "vacuumLoop leaf m (i # is) acc n t =
    (if outdated m kvs i
     then Option.bind (if IsOverflow (kvs ! i) then freeOverflowChain (Value (kvs ! i)) t else Some t)
            (\<lambda>t. vacuumLoop leaf m is acc (n + 1) t)
     else vacuumLoop leaf m is (acc @ [KVCell_Serialize (kvs ! i)]) n t)"
proof -
  have c: "unat (getSlotCount leaf) = length kvs" by (rule leaf_page_slots [OF lp])
  have lt: "length kvs < 65536" using c unat_lt_len [of "getSlotCount leaf"] by simp
  have w: "of_nat i < getSlotCount leaf - 1 \<longleftrightarrow> Suc i < length kvs"
  proof -
    have "unat (getSlotCount leaf - 1) = length kvs - 1" using c i by (subst unat_minus_16) (auto simp: word_le_nat_alt)
    moreover have "unat (of_nat i :: u16) = i" using i lt by (simp add: unat_of_nat_16)
    ultimately show ?thesis using i by (simp add: word_less_nat_alt) linarith
  qed
  note ci = leaf_page_cell [OF lp i]
  show ?thesis
  proof (cases "Suc i < length kvs")
    case True
    note cn = leaf_page_cell [OF lp True]
    show ?thesis using ci cn w True
      by (auto simp: outdated_def user_key_def version_def split: prod.splits)
  next
    case False
    then show ?thesis using ci w by (auto simp: outdated_def version_def split: prod.splits)
  qed
qed


definition dropped :: "u64 \<Rightarrow> KVCell list \<Rightarrow> nat list \<Rightarrow> KVCell set" where
  "dropped m kvs is = {kvs ! i | i. i \<in> set is \<and> outdated m kvs i}"

lemma dropped_simps:
  "dropped m kvs [] = {}"
  "dropped m kvs (i # is) = (if outdated m kvs i then insert (kvs ! i) (dropped m kvs is) else dropped m kvs is)"
  by (auto simp: dropped_def)

lemma vacuumLoop_ok:
  assumes lp: "leaf_page leaf kvs"
  shows "mid_ok t b l E ps fs ov \<Longrightarrow> set is \<subseteq> {..<length kvs} \<Longrightarrow> distinct (map ((!) kvs) is) \<Longrightarrow> (!) kvs ` set is \<subseteq> E \<Longrightarrow>
    \<exists>t' b' fs'. vacuumLoop leaf m is acc n t =
      Some (acc @ map (\<lambda>i. KVCell_Serialize (kvs ! i)) (filter (\<lambda>i. \<not> outdated m kvs i) is), n + length (filter (outdated m kvs) is), t') \<and>
      mid_ok t' b' l (E - dropped m kvs is) ps fs' ov \<and> (\<forall>k \<in> set ps. pview b' k = pview b k) \<and> pmore b' = pmore b"
proof (induction "is" arbitrary: acc n t b fs E)
  case Nil
  then show ?case by (auto simp: dropped_simps)
next
  case (Cons i "is")
  have i: "i < length kvs" "set is \<subseteq> {..<length kvs}" "distinct (map ((!) kvs) is)" "(!) kvs ` set is \<subseteq> E" "kvs ! i \<in> E"
    "kvs ! i \<notin> (!) kvs ` set is" using Cons.prems by auto
  note st = vacuumLoop_step [OF lp i(1)]
  show ?case
  proof (cases "outdated m kvs i")
    case False
    from Cons.IH [OF Cons.prems(1) i(2-4), of "acc @ [KVCell_Serialize (kvs ! i)]" n]
    show ?thesis using False unfolding st by (auto simp: dropped_simps)
  next
    case True
    obtain t1 b1 fs1 where f: "(if IsOverflow (kvs ! i) then freeOverflowChain (Value (kvs ! i)) t else Some t) = Some t1"
      "mid_ok t1 b1 l (E - {kvs ! i}) ps fs1 ov" "set fs1 = set (fst (ov (kvs ! i))) \<union> set fs"
      "\<And>k. k \<noteq> 0 \<Longrightarrow> k \<notin> set (fst (ov (kvs ! i))) \<Longrightarrow> pview b1 k = pview b k" "pmore b1 = pmore b"
      by (rule free_old [OF Cons.prems(1) i(5)]) blast
    note d = mid_okD [OF Cons.prems(1)]
    have v: "pview b1 k = pview b k" if "k \<in> set ps" for k
      by (rule f(4)) (use that d(8) values_okD(2) [OF d(11) i(5)] in auto)
    have sub: "(!) kvs ` set is \<subseteq> E - {kvs ! i}" using i(4,6) by blast
    obtain t' b' fs' where r: "vacuumLoop leaf m is acc (n + 1) t1 =
        Some (acc @ map (\<lambda>i. KVCell_Serialize (kvs ! i)) (filter (\<lambda>i. \<not> outdated m kvs i) is), n + 1 + length (filter (outdated m kvs) is), t')"
      "mid_ok t' b' l (E - {kvs ! i} - dropped m kvs is) ps fs' ov" "\<forall>k \<in> set ps. pview b' k = pview b1 k" "pmore b' = pmore b1"
      using Cons.IH [OF f(2) i(2,3) sub, of acc "n + 1"] by blast
    have "E - {kvs ! i} - dropped m kvs is = E - dropped m kvs (i # is)" using True by (auto simp: dropped_simps)
    then show ?thesis using r v f(1,5) True unfolding st by auto
  qed
qed

lemma vacuumLeaf_ok:
  assumes i: "idle_ok t b E ps fs ov" and l: "l \<in> set ps" "pview b l = Some p" "leaf_page p kvs"
    and kvs: "distinct kvs" "set kvs \<subseteq> E"
  obtains t' b' fs' where "vacuumLeaf l m t = Some (Inr (), t')" "idle_ok t' b' (E - dropped m kvs [0..<length kvs]) ps fs' ov"
    "\<exists>p'. pview b' l = Some p' \<and> leaf_page p' (survivors m kvs)" "\<And>k. k \<in> set ps \<Longrightarrow> k \<noteq> l \<Longrightarrow> pview b' k = pview b k"
    "pmore b' = pmore b"
proof -
  note d = idle_okD [OF i]
  let ?is = "[0..<length kvs]" and ?E = "E - dropped m kvs [0..<length kvs]"
  have fr: "pheld b l = LFree" "room b l" using d(3,14) pages_free_room [of b 4 l] by simp_all
  obtain q t1 where f: "FetchPageForWrite l PageTypeLeaf t = Some (Inr q, t1)" "norm_page q = p"
    "implements t1 (b\<lparr>pheld := (pheld b)(l := LWrite)\<rparr>)"
    using pool.fetchW_free [OF d(1) l(2) fr(2,1) d(15), of PageTypeLeaf] by blast
  have ql: "length q = PageSize" using f(2) pview_page(1) [OF d(1) l(2)] by (metis length_norm_page)
  have lq: "leaf_page q kvs" using leaf_page_norm [OF ql] f(2) l(3) by simp
  have m0: "mid_ok t1 b l E ps fs ov"
    using f(3) d(2-9,11,12) l(1) more_eq [OF d(1) f(3)] by (simp add: mid_ok_def)
  have ix: "set ?is \<subseteq> {..<length kvs}" "distinct (map ((!) kvs) ?is)" "(!) kvs ` set ?is \<subseteq> E"
    using kvs by (auto simp: map_nth)
  obtain t2 b2 fs2 where v: "vacuumLoop q m ?is [] 0 t1 =
      Some (map KVCell_Serialize (survivors m kvs), length (filter (outdated m kvs) ?is), t2)"
    "mid_ok t2 b2 l ?E ps fs2 ov" "\<forall>k \<in> set ps. pview b2 k = pview b k" "pmore b2 = pmore b"
    using vacuumLoop_ok [OF lq m0 ix, of m "[]" 0] by (auto simp: survivors_def comp_def)
  note m = mid_okD [OF v(2)]
  have ex: "pview b2 k \<noteq> None" if "k \<in> set ps" for k using v(3) d(10) that by simp
  have run: "vacuumLeaf l m t = (if length (filter (outdated m kvs) ?is) > 0
      then Option.bind (each Page_Insert (Page_Init q PageTypeLeaf) (map KVCell_Serialize (survivors m kvs)))
        (\<lambda>leaf. UnpinPage l True True (putPage l leaf t2))
      else UnpinPage l False True t2)"
    using f(1) v(1) by (simp add: vacuumLeaf_def leaf_page_slots [OF lq])
  show ?thesis
  proof (cases "length (filter (outdated m kvs) ?is) > 0")
    case True
    have sp: "space_used (map KVCell_Serialize (survivors m kvs)) \<le> PageSize"
      using space_survivors [of m kvs] slotted.inv_cap [of q] lq by (auto simp: leaf_page_def intro: order_trans)
    obtain q' where q': "each Page_Insert (Page_Init q PageTypeLeaf) (map KVCell_Serialize (survivors m kvs)) = Some q'" "wf_slotted q'"
      "page_cells q' = map KVCell_Serialize (survivors m kvs)" "GetPageType q' = PageTypeLeaf" "GetPageID q' = GetPageID q" "length q' = PageSize"
      by (rule fill_page [where q = "Page_Init q PageTypeLeaf" and ty = PageTypeLeaf, OF _ norm_page_set(3) [OF ql] ql _ sp]) (use ql in auto)
    have gq: "GetPageID q = l" using norm_page_get(1) [OF ql] f(2) storeD(3) [OF d(13) l(2)] by simp
    have "list_all kv_cell_fits (survivors m kvs)"
      using lq survivors_sub [of m kvs] by (auto simp: leaf_page_def list_all_iff)
    then have "leaf_page q' (survivors m kvs)" using q'(2-4) by (simp add: leaf_page_def)
    then have lq': "leaf_page (norm_page q') (survivors m kvs)" "GetPageID (norm_page q') = l"
      using leaf_page_norm [OF q'(6)] norm_page_get(1) [OF q'(6)] q'(5) gq by simp_all
    have w: "implements (putPage l q' t2) (b2\<lparr>pheld := (pheld b2)(l := LWrite), pview := (pview b2)(l \<mapsto> norm_page q'), ptouched := insert l (ptouched b2)\<rparr>)"
      using pool.write_held [OF m(1), of l q'] q'(6) by simp
    obtain t' where t': "UnpinPage l True True (putPage l q' t2) = Some (Inr (), t')" "implements t' (b2\<lparr>pview := (pview b2)(l \<mapsto> norm_page q')\<rparr>)"
      by (rule release_rewritten [OF w]) (use m(3,4) in auto)
    obtain t0 where t0: "idle_ok t0 b2 ?E ps fs2 ov" by (rule mid_idle [OF v(2) ex])
    from idle_page [OF t0 t'(2) l(1) lq'(2)] show ?thesis
      using that [of t' "b2\<lparr>pview := (pview b2)(l \<mapsto> norm_page q')\<rparr>" fs2] run True q'(1) t'(1) lq'(1) v(3,4) by auto
  next
    case False
    then have keep: "survivors m kvs = kvs" by (intro survivors_all) (simp add: filter_empty_conv)
    let ?a = "b2\<lparr>pheld := (pheld b2)(l := LWrite)\<rparr>"
    obtain t' where t': "UnpinPage l False True t2 = Some (Inr (), t')"
      "implements t' (?a\<lparr>pheld := (pheld ?a)(l := LFree), ptouched := ptouched ?a - {l}\<rparr>)"
      using pool.unpin_write [OF m(1), of l False] m(4) by auto
    have "?a\<lparr>pheld := (pheld ?a)(l := LFree), ptouched := ptouched ?a - {l}\<rparr> = b2"
      using m(3,4) by (auto intro!: pool.equality)
    then have im: "implements t' b2" using t'(2) by simp
    have "idle_ok t' b2 ?E ps fs2 ov" using im m(2,3,5-9,11,16) ex more_eq [OF m(1) im] by (simp add: idle_ok_def)
    then show ?thesis using that [of t' b2 fs2] run False t'(1) keep v(3,4) l by auto
  qed
qed

section \<open>The walk over the tree\<close>

definition vacuumed :: "u64 \<Rightarrow> (u32 \<Rightarrow> page option) \<Rightarrow> (u32 \<Rightarrow> page option) \<Rightarrow> u32 list \<Rightarrow> bool" where
  "vacuumed m V V' ps \<longleftrightarrow> (\<forall>k \<in> set ps.
     (\<forall>p kvs. V k = Some p \<and> leaf_page p kvs \<longrightarrow> (\<exists>p'. V' k = Some p' \<and> leaf_page p' (survivors m kvs))) \<and>
     (\<forall>p ks. V k = Some p \<and> node_page p ks \<longrightarrow> V' k = Some p))"

definition leaf_drops :: "u64 \<Rightarrow> (u32 \<Rightarrow> page option) \<Rightarrow> u32 list \<Rightarrow> KVCell set" where
  "leaf_drops m V ps = {e. \<exists>k \<in> set ps. \<exists>p kvs. V k = Some p \<and> leaf_page p kvs \<and> e \<in> dropped m kvs [0..<length kvs]}"

lemma leaf_drops_append: "leaf_drops m V (ps @ qs) = leaf_drops m V ps \<union> leaf_drops m V qs"
  by (auto simp: leaf_drops_def)

lemma leaf_drops_cong: "(\<And>k. k \<in> set ps \<Longrightarrow> V k = V' k) \<Longrightarrow> leaf_drops m V ps = leaf_drops m V' ps"
  by (auto simp: leaf_drops_def)

lemma vacuumed_trans:
  assumes "vacuumed m V V1 ps" "\<And>k. k \<in> set ps \<Longrightarrow> V2 k = V1 k" "vacuumed m V1 V2 qs" "\<And>k. k \<in> set qs \<Longrightarrow> V1 k = V k"
  shows "vacuumed m V V2 (ps @ qs)"
  using assms unfolding vacuumed_def set_append by (metis UnE)

lemma dropped_sub: "dropped m kvs [0..<length kvs] \<subseteq> set kvs"
  by (auto simp: dropped_def)

lemma leaf_cells_of_tree:
  "tree_at V d c lo hi es ps \<Longrightarrow> k \<in> set ps \<Longrightarrow> V k = Some p \<Longrightarrow> leaf_page p kvs \<Longrightarrow> set kvs \<subseteq> set es"
proof (induction d arbitrary: c lo hi es ps)
  case 0
  then show ?case using leaf_page_unique by auto
next
  case (Suc d)
  obtain p0 ks ess pss where t: "V c = Some p0" "node_page p0 ks" "kids V d lo hi ks ess pss" "es = concat ess" "ps = c # concat pss"
    using Suc.prems(1) unfolding tree_at_Suc by blast
  have "k \<noteq> c" using t(1,2) Suc.prems(3,4) leaf_not_node by auto
  then obtain qs where "qs \<in> set pss" "k \<in> set qs" using Suc.prems(2) t(5) by auto
  then obtain j where j: "j < length pss" "k \<in> set (pss ! j)" by (metis in_set_conv_nth)
  have l: "length ess = length ks" "length pss = length ks" using kids_length [OF t(3)] by simp_all
  have "tree_at V d (ChildPageID (ks ! j)) (low_of lo ks j) (high_of hi ks j) (ess ! j) (pss ! j)"
    using t(3) j(1) l by (simp add: kids_nth)
  from Suc.IH [OF this j(2) Suc.prems(3,4)] show ?case using t(4) j(1) l by fastforce
qed

lemma leaf_drops_sub: "tree_at V d c lo hi es ps \<Longrightarrow> leaf_drops m V ps \<subseteq> set es"
  using leaf_cells_of_tree [of V d c lo hi es ps] dropped_sub unfolding leaf_drops_def by fastforce

text \<open>What vacuuming a part of the tree with the pages \<open>ps\<close> does to the state.\<close>

definition vacuum_step ::
  "u64 \<Rightarrow> _ pool \<Rightarrow> KVCell set \<Rightarrow> u32 list \<Rightarrow> u32 list \<Rightarrow> (KVCell \<Rightarrow> u32 list \<times> bytes) \<Rightarrow> BTree \<Rightarrow> _ pool \<Rightarrow> bool" where
  "vacuum_step m b E P ps ov t' b' \<longleftrightarrow> (\<exists>fs'. idle_ok t' b' (E - leaf_drops m (pview b) ps) P fs' ov) \<and>
     vacuumed m (pview b) (pview b') ps \<and> (\<forall>k \<in> set P - set ps. pview b' k = pview b k) \<and> pmore b' = pmore b"

lemma children_ok:
  assumes IH: "\<And>c lo hi es ps t b E fs. tree_at (pview b) d c lo hi es ps \<Longrightarrow> idle_ok t b E P fs ov \<Longrightarrow> set ps \<subseteq> set P \<Longrightarrow>
      distinct ps \<Longrightarrow> set es \<subseteq> E \<Longrightarrow> \<exists>t' b'. vacuumNode m c t = Some (Inr (), t') \<and> vacuum_step m b E P ps ov t' b'"
  shows "kids (pview b) d lo hi ks ess pss \<Longrightarrow> idle_ok t b E P fs ov \<Longrightarrow> set (concat pss) \<subseteq> set P \<Longrightarrow> distinct (concat pss) \<Longrightarrow>
    set (concat ess) \<subseteq> E \<Longrightarrow> distinct (concat ess) \<Longrightarrow>
    \<exists>t' b'. forEach (\<lambda>childID t. if childID \<noteq> 0 then Option.bind (vacuumNode m childID t) (\<lambda>(_, t). Some t) else Some t)
      (map ChildPageID ks) t = Some t' \<and> vacuum_step m b E P (concat pss) ov t' b'"
proof (induction ks arbitrary: lo ess pss t b E fs)
  case Nil
  then have "pss = []" using kids_length by fastforce
  then show ?case using Nil(2) by (auto simp: vacuum_step_def leaf_drops_def vacuumed_def)
next
  case (Cons k ks)
  obtain es ess' where e: "ess = es # ess'" using kids_length [OF Cons.prems(1)] by (cases ess) auto
  obtain ps pss' where p: "pss = ps # pss'" using kids_length [OF Cons.prems(1)] by (cases pss) auto
  have kd: "tree_at (pview b) d (ChildPageID k) lo (nxt hi ks) es ps" "kids (pview b) d (kcKey (hd ks)) hi ks ess' pss'"
    using Cons.prems(1) by (simp_all add: e p)
  let ?qs = "concat pss'"
  have ps: "set ps \<subseteq> set P" "distinct ps" "set ?qs \<subseteq> set P" "distinct ?qs" "set ps \<inter> set ?qs = {}"
    using Cons.prems(3,4) by (simp_all add: p)
  have es: "set es \<subseteq> E" "set (concat ess') \<subseteq> E" "distinct (concat ess')" "set es \<inter> set (concat ess') = {}"
    using Cons.prems(5,6) by (simp_all add: e)
  obtain t1 b1 where v1: "vacuumNode m (ChildPageID k) t = Some (Inr (), t1)" "vacuum_step m b E P ps ov t1 b1"
    using IH [OF kd(1) Cons.prems(2) ps(1,2) es(1)] by blast
  obtain fs1 where s1: "idle_ok t1 b1 (E - leaf_drops m (pview b) ps) P fs1 ov" "vacuumed m (pview b) (pview b1) ps"
    "\<And>k. k \<in> set P - set ps \<Longrightarrow> pview b1 k = pview b k" "pmore b1 = pmore b"
    using v1(2) by (auto simp: vacuum_step_def)
  have same: "pview b k = pview b1 k" if "k \<in> set ?qs" for k
  proof -
    have "k \<in> set P - set ps" using that ps(3,5) by blast
    then show ?thesis by (rule s1(3) [symmetric])
  qed
  have kd2: "kids (pview b1) d (kcKey (hd ks)) hi ks ess' pss'" by (rule kids_cong [OF same kd(2)])
  have es2: "set (concat ess') \<subseteq> E - leaf_drops m (pview b) ps" using es(2,4) leaf_drops_sub [OF kd(1)] by blast
  obtain t2 b2 where v2: "forEach (\<lambda>childID t. if childID \<noteq> 0 then Option.bind (vacuumNode m childID t) (\<lambda>(_, t). Some t) else Some t)
      (map ChildPageID ks) t1 = Some t2" "vacuum_step m b1 (E - leaf_drops m (pview b) ps) P ?qs ov t2 b2"
    using Cons.IH [OF kd2 s1(1) ps(3,4) es2 es(3)] by blast
  obtain fs2 where s2: "idle_ok t2 b2 (E - leaf_drops m (pview b) ps - leaf_drops m (pview b1) ?qs) P fs2 ov" "vacuumed m (pview b1) (pview b2) ?qs"
    "\<And>k. k \<in> set P - set ?qs \<Longrightarrow> pview b2 k = pview b1 k" "pmore b2 = pmore b1"
    using v2(2) by (auto simp: vacuum_step_def)
  have "E - leaf_drops m (pview b) ps - leaf_drops m (pview b1) ?qs = E - leaf_drops m (pview b) (concat pss)"
    using leaf_drops_cong [of ?qs "pview b" "pview b1" m, OF same] by (auto simp: p leaf_drops_append)
  moreover have later: "pview b2 k = pview b1 k" if "k \<in> set ps" for k
  proof -
    have "k \<in> set P - set ?qs" using that ps(1,5) by blast
    then show ?thesis by (rule s2(3))
  qed
  have "vacuumed m (pview b) (pview b2) (concat pss)"
    unfolding p concat.simps by (rule vacuumed_trans [OF s1(2) later s2(2) same [symmetric]])
  moreover have "\<forall>k \<in> set P - set (concat pss). pview b2 k = pview b k" using s1(3) s2(3) by (auto simp: p)
  ultimately have "vacuum_step m b E P (concat pss) ov t2 b2" using s1(4) s2(1,4) unfolding vacuum_step_def by metis
  moreover have "ChildPageID k \<noteq> 0" by (rule tree_at_nonzero [OF kd(1)])
  ultimately show ?case using v1(1) v2(1) by auto
qed

lemma idle_impl: "idle_ok t b E ps fs ov \<Longrightarrow> implements t' b \<Longrightarrow> idle_ok t' b E ps fs ov"
  using more_eq [of t b t' b] by (simp add: idle_ok_def)

lemma childIDs_node: "node_page p ks \<Longrightarrow> childIDs p = Some (map ChildPageID ks)"
proof -
  assume n: "node_page p ks"
  have "those (map (\<lambda>i. Option.bind (getCell p i) (\<lambda>c. Option.bind (DeserializeKeyCell c) (\<lambda>k. Some (ChildPageID k)))) [0..<length ks]) =
      Some (map (\<lambda>i. ChildPageID (ks ! i)) [0..<length ks])"
    by (rule those_map_Some) (simp add: node_page_cell [OF n])
  then show ?thesis
    by (simp add: childIDs_def node_page_slots [OF n]) (metis (no_types, lifting) map_map map_nth comp_def map_eq_conv)
qed

lemma read_page:
  assumes "idle_ok t b E P fs ov" "pview b c = Some p"
  obtains q t1 t2 where "FetchPageForRead c mt t = Some (Inr q, t1)" "norm_page q = p" "length q = PageSize"
    "dropUnpin c False False t1 = Some t2" "idle_ok t2 b E P fs ov"
proof -
  note d = idle_okD [OF assms(1)]
  have fr: "pheld b c = LFree" "room b c" using d(3,14) pages_free_room [of b 4 c] by simp_all
  obtain q t1 t2 where f: "FetchPageForRead c mt t = Some (Inr q, t1)" "norm_page q = p"
    "UnpinPage c False False t1 = Some (Inr (), t2)" "implements t2 b"
    by (rule pool.read_once [OF d(1) assms(2) fr(2,1)])
  have "length q = PageSize" using f(2) pview_page(1) [OF d(1) assms(2)] by (metis length_norm_page)
  then show ?thesis using that f idle_impl [OF assms(1) f(4)] by (simp add: dropUnpin_def)
qed

lemma vacuumNode_ok:
  "tree_at (pview b) d c lo hi es ps \<Longrightarrow> idle_ok t b E P fs ov \<Longrightarrow> set ps \<subseteq> set P \<Longrightarrow> distinct ps \<Longrightarrow> set es \<subseteq> E \<Longrightarrow>
   \<exists>t' b'. vacuumNode m c t = Some (Inr (), t') \<and> vacuum_step m b E P ps ov t' b'"
proof (induction d arbitrary: c lo hi es ps t b E fs)
  case 0
  obtain p where p: "ps = [c]" "pview b c = Some p" "leaf_page p es" "sorted_wrt (<) (map Key es)" using 0(1) by auto
  obtain q t1 t2 where f: "FetchPageForRead c PageTypeInternal t = Some (Inr q, t1)" "norm_page q = p" "length q = PageSize"
    "dropUnpin c False False t1 = Some t2" "idle_ok t2 b E P fs ov"
    by (rule read_page [OF 0(2) p(2)])
  have "leaf_page q es" using leaf_page_norm [OF f(3)] f(2) p(3) by simp
  then have run: "vacuumNode m c t = vacuumLeaf c m t2"
    using f(1,4) by (subst vacuumNode.simps) (simp add: leaf_page_def)
  have cP: "c \<in> set P" using 0(3) p(1) by simp
  have "distinct es" using p(4) by (auto simp: strict_sorted_iff distinct_map)
  then obtain t' b' fs' where v: "vacuumLeaf c m t2 = Some (Inr (), t')" "idle_ok t' b' (E - dropped m es [0..<length es]) P fs' ov"
    "\<exists>p'. pview b' c = Some p' \<and> leaf_page p' (survivors m es)" "\<And>k. k \<in> set P \<Longrightarrow> k \<noteq> c \<Longrightarrow> pview b' k = pview b k" "pmore b' = pmore b"
    by (rule vacuumLeaf_ok [OF f(5) cP p(2,3) _ 0(5)]) blast
  have "leaf_drops m (pview b) ps = dropped m es [0..<length es]"
    using p(1-3) leaf_page_unique by (auto simp: leaf_drops_def)
  moreover have "vacuumed m (pview b) (pview b') ps"
    using p(1-3) v(3) leaf_page_unique leaf_not_node by (auto simp: vacuumed_def)
  ultimately have "vacuum_step m b E P ps ov t' b'" using v(2,4,5) p(1) by (auto simp: vacuum_step_def)
  then show ?case using run v(1) by auto
next
  case (Suc d)
  obtain p ks ess pss where n: "pview b c = Some p" "node_page p ks" "kids (pview b) d lo hi ks ess pss" "es = concat ess" "ps = c # concat pss"
    using Suc.prems(1) unfolding tree_at_Suc by blast
  obtain q t1 t2 where f: "FetchPageForRead c PageTypeInternal t = Some (Inr q, t1)" "norm_page q = p" "length q = PageSize"
    "dropUnpin c False False t1 = Some t2" "idle_ok t2 b E P fs ov"
    by (rule read_page [OF Suc.prems(2) n(1)])
  have nq: "node_page q ks" using node_page_norm [OF f(3)] f(2) n(2) by simp
  have run: "vacuumNode m c t = Option.bind (forEach (\<lambda>childID t. if childID \<noteq> 0 then Option.bind (vacuumNode m childID t) (\<lambda>(_, t). Some t) else Some t)
      (map ChildPageID ks) t2) (\<lambda>t. Some (Inr (), t))"
    using f(1,4) nq childIDs_node [OF nq] by (subst vacuumNode.simps) (simp add: node_page_def)
  have ds: "set (concat pss) \<subseteq> set P" "distinct (concat pss)" "c \<notin> set (concat pss)" "c \<in> set P" using Suc.prems(3,4) n(5) by auto
  have de: "distinct (concat ess)" using tree_sorted [OF Suc.prems(1)] n(4) by (auto simp: strict_sorted_iff distinct_map)
  have "\<exists>t' b'. forEach (\<lambda>childID t. if childID \<noteq> 0 then Option.bind (vacuumNode m childID t) (\<lambda>(_, t). Some t) else Some t)
      (map ChildPageID ks) t2 = Some t' \<and> vacuum_step m b E P (concat pss) ov t' b'"
    by (rule children_ok [OF _ n(3) f(5) ds(1,2) Suc.prems(5) [unfolded n(4)] de]) (rule Suc.IH)
  then obtain t' b' where v: "forEach (\<lambda>childID t. if childID \<noteq> 0 then Option.bind (vacuumNode m childID t) (\<lambda>(_, t). Some t) else Some t)
      (map ChildPageID ks) t2 = Some t'" "vacuum_step m b E P (concat pss) ov t' b'" by blast
  have "leaf_drops m (pview b) ps = leaf_drops m (pview b) (concat pss)"
    using n(1,2,5) leaf_not_node by (auto simp: leaf_drops_def)
  moreover have "pview b' c = Some p" using v(2) ds(3,4) n(1) by (simp add: vacuum_step_def)
  then have "vacuumed m (pview b) (pview b') ps"
    using v(2) n(1,2,5) leaf_not_node by (auto simp: vacuum_step_def vacuumed_def)
  ultimately have "vacuum_step m b E P ps ov t' b'" using v(2) n(5) unfolding vacuum_step_def by auto
  then show ?case using run v(1) by auto
qed

lemma set_survivors_dropped:
  assumes "distinct kvs"
  shows "set (survivors m kvs) = set kvs - dropped m kvs [0..<length kvs]"
proof
  show "set kvs - dropped m kvs [0..<length kvs] \<subseteq> set (survivors m kvs)"
    by (auto simp: set_survivors dropped_def in_set_conv_nth) blast
  have "i = j" if "kvs ! i = kvs ! j" "i < length kvs" "j < length kvs" for i j using that assms by (simp add: nth_eq_iff_index_eq)
  then show "set (survivors m kvs) \<subseteq> set kvs - dropped m kvs [0..<length kvs]"
    by (auto simp: set_survivors dropped_def)
qed

lemma kids_vacuumed:
  assumes IH: "\<And>c lo hi es ps. tree_at V d c lo hi es ps \<Longrightarrow> vacuumed m V V' ps \<Longrightarrow>
      \<exists>es'. tree_at V' d c lo hi es' ps \<and> set es' = set es - leaf_drops m V ps"
  shows "kids V d lo hi ks ess pss \<Longrightarrow> vacuumed m V V' (concat pss) \<Longrightarrow> distinct (concat ess) \<Longrightarrow>
    \<exists>ess'. kids V' d lo hi ks ess' pss \<and> set (concat ess') = set (concat ess) - leaf_drops m V (concat pss) \<and>
      leaf_drops m V (concat pss) \<subseteq> set (concat ess)"
proof (induction ks arbitrary: lo ess pss)
  case Nil
  then have "pss = []" "ess = []" using kids_length by fastforce+
  then show ?case by (auto simp: leaf_drops_def)
next
  case (Cons k ks)
  obtain es ess1 where e: "ess = es # ess1" using kids_length [OF Cons.prems(1)] by (cases ess) auto
  obtain ps pss1 where p: "pss = ps # pss1" using kids_length [OF Cons.prems(1)] by (cases pss) auto
  have kd: "tree_at V d (ChildPageID k) lo (nxt hi ks) es ps" "kids V d (kcKey (hd ks)) hi ks ess1 pss1"
    using Cons.prems(1) by (simp_all add: e p)
  have v: "vacuumed m V V' ps" "vacuumed m V V' (concat pss1)" using Cons.prems(2) by (auto simp: p vacuumed_def)
  have ds: "distinct (concat ess1)" "set es \<inter> set (concat ess1) = {}" using Cons.prems(3) by (simp_all add: e)
  obtain es' where 1: "tree_at V' d (ChildPageID k) lo (nxt hi ks) es' ps" "set es' = set es - leaf_drops m V ps"
    using IH [OF kd(1) v(1)] by blast
  obtain ess' where 2: "kids V' d (kcKey (hd ks)) hi ks ess' pss1" "set (concat ess') = set (concat ess1) - leaf_drops m V (concat pss1)"
    "leaf_drops m V (concat pss1) \<subseteq> set (concat ess1)"
    using Cons.IH [OF kd(2) v(2) ds(1)] by blast
  have "kids V' d lo hi (k # ks) (es' # ess') pss" using 1(1) 2(1) by (simp add: p)
  moreover have "set (concat (es' # ess')) = set (concat ess) - leaf_drops m V (concat pss)"
    unfolding e p concat.simps set_append leaf_drops_append 1(2) 2(2) using ds(2) 2(3) leaf_drops_sub [OF kd(1), of m] by blast
  moreover have "leaf_drops m V (concat pss) \<subseteq> set (concat ess)"
    unfolding e p concat.simps set_append leaf_drops_append using 2(3) leaf_drops_sub [OF kd(1), of m] by blast
  ultimately show ?case by blast
qed

lemma tree_vacuumed:
  "tree_at V d c lo hi es ps \<Longrightarrow> vacuumed m V V' ps \<Longrightarrow>
   \<exists>es'. tree_at V' d c lo hi es' ps \<and> set es' = set es - leaf_drops m V ps"
proof (induction d arbitrary: c lo hi es ps)
  case 0
  obtain p where p: "ps = [c]" "c \<noteq> 0" "V c = Some p" "leaf_page p es" "sorted_wrt (<) (map Key es)" "\<forall>e \<in> set es. in_range lo hi (Key e)"
    using 0(1) by auto
  obtain p' where p': "V' c = Some p'" "leaf_page p' (survivors m es)" using 0(2) p(1,3,4) by (auto simp: vacuumed_def)
  have "distinct es" using p(5) by (auto simp: strict_sorted_iff distinct_map)
  moreover have "leaf_drops m V ps = dropped m es [0..<length es]" using p(1,3,4) leaf_page_unique by (auto simp: leaf_drops_def)
  ultimately have "set (survivors m es) = set es - leaf_drops m V ps" using set_survivors_dropped by simp
  moreover have "tree_at V' 0 c lo hi (survivors m es) ps"
    using p(1,2,6) p' sorted_survivors [OF p(5)] survivors_sub [of m es] by auto
  ultimately show ?case by blast
next
  case (Suc d)
  obtain p ks ess pss where n: "c \<noteq> 0" "V c = Some p" "node_page p ks" "node_ok lo hi ks" "kids V d lo hi ks ess pss" "es = concat ess" "ps = c # concat pss"
    using Suc.prems(1) unfolding tree_at_Suc by blast
  have v: "vacuumed m V V' (concat pss)" "V' c = Some p" using Suc.prems(2) n(2,3,7) by (auto simp: vacuumed_def)
  have de: "distinct (concat ess)" using tree_sorted [OF Suc.prems(1)] n(6) by (auto simp: strict_sorted_iff distinct_map)
  have "\<exists>ess'. kids V' d lo hi ks ess' pss \<and> set (concat ess') = set (concat ess) - leaf_drops m V (concat pss) \<and>
      leaf_drops m V (concat pss) \<subseteq> set (concat ess)"
    by (rule kids_vacuumed [OF _ n(5) v(1) de]) (rule Suc.IH)
  then obtain ess' where k: "kids V' d lo hi ks ess' pss" "set (concat ess') = set (concat ess) - leaf_drops m V (concat pss)" by blast
  have "leaf_drops m V ps = leaf_drops m V (concat pss)" using n(2,3,7) leaf_not_node by (auto simp: leaf_drops_def)
  then show ?case unfolding tree_at_Suc using n v(2) k by metis
qed

lemma descent_vacuumed:
  "tree_at V d c lo hi es ps \<Longrightarrow> vacuumed m V V' ps \<Longrightarrow> in_range lo hi key \<Longrightarrow> descent V d c key path l \<Longrightarrow> descent V' d c key path l"
  unfolding vacuumed_def by (erule descent_frame) blast+

lemma Vacuum_ok:
  fixes tm :: TransactionManager
  assumes "db_ok t a h es ps fs ov"
  defines "m \<equiv> GetMinActiveTxID tm"
  shows "\<exists>t' a' es' fs'. Vacuum tm t = Some (Inr (), (PruneTables tm m, t')) \<and> db_ok t' a' h es' ps fs' ov \<and>
    set es' = set es - leaf_drops m (pview a) ps \<and> vacuumed m (pview a) (pview a') ps \<and> rootPageID t' = rootPageID t"
proof -
  have i: "idle_ok t a (set es) ps fs ov" "tree_at (pview a) h (rootPageID t) [] None es ps" using assms(1) by (simp_all add: db_ok_idle)
  note d = idle_okD [OF i(1)]
  obtain t' a' where v: "vacuumNode m (rootPageID t) t = Some (Inr (), t')" "vacuum_step m a (set es) ps ps ov t' a'"
    using vacuumNode_ok [OF i(2,1) subset_refl d(7) subset_refl] by blast
  obtain fs' where s: "idle_ok t' a' (set es - leaf_drops m (pview a) ps) ps fs' ov" "vacuumed m (pview a) (pview a') ps" "pmore a' = pmore a"
    using v(2) by (auto simp: vacuum_step_def)
  have r: "rootPageID t' = rootPageID t" using more_eq(2) [OF d(1) idle_okD(1) [OF s(1)] s(3)] .
  obtain es' where "tree_at (pview a') h (rootPageID t) [] None es' ps" "set es' = set es - leaf_drops m (pview a) ps"
    using tree_vacuumed [OF i(2) s(2)] by blast
  then have "db_ok t' a' h es' ps fs' ov" "set es' = set es - leaf_drops m (pview a) ps" using s(1) r by (simp_all add: db_ok_idle)
  moreover have "Vacuum tm t = Some (Inr (), (PruneTables tm m, t'))" using v(1) by (simp add: Vacuum_def m_def)
  ultimately show ?thesis using s(2) r by blast
qed

section \<open>What readers see\<close>

text \<open>Cells the server can write: multi-version keys of user keys without the separator byte, tombstones with
  exactly the tombstone flag.\<close>

definition plain_cells :: "KVCell list \<Rightarrow> bool" where
  "plain_cells es \<longleftrightarrow> versioned es \<and> (\<forall>e \<in> set es. 0 \<notin> set (user_key e) \<and> (IsDeleted e \<longrightarrow> Flag e = KEY_DELETED_FLAG))"

lemma versions_adjacent:
  assumes "sorted_wrt (<) (map Key kvs)" "plain_cells kvs" "i < j" "j < length kvs" "user_key (kvs ! i) = user_key (kvs ! j)"
  shows "user_key (kvs ! Suc i) = user_key (kvs ! j)"
proof (rule ccontr)
  assume ne: "user_key (kvs ! Suc i) \<noteq> user_key (kvs ! j)"
  have k: "Key (kvs ! n) = user_key (kvs ! n) @ 0 # BigPutUint64 (version (kvs ! n))" "0 \<notin> set (user_key (kvs ! n))" if "n < length kvs" for n
    using assms(2) nth_mem [OF that] unfolding plain_cells_def versioned_def by (metis BuildMVCCKey_layout)+
  have lt: "Key (kvs ! n) < Key (kvs ! n')" if "n < n'" "n' < length kvs" for n n'
    using sorted_wrt_nth_less [OF assms(1), of n n'] that by simp
  have sj: "Suc i < j" using ne assms(3) by (cases "Suc i = j") auto
  have b: "Key (kvs ! i) < Key (kvs ! Suc i)" "Key (kvs ! Suc i) < Key (kvs ! j)" using lt sj assms(4) by auto
  note ki = k [of i] k [of "Suc i"] k [of j]
  show False
  proof (cases "user_key (kvs ! Suc i) < user_key (kvs ! j)")
    case True
    then have "Key (kvs ! Suc i) < Key (kvs ! i)" using zero_sep_less ki sj assms(4,5) by simp
    then show ?thesis using b(1) by simp
  next
    case False
    then have "user_key (kvs ! j) < user_key (kvs ! Suc i)" using ne by simp
    then have "Key (kvs ! j) < Key (kvs ! Suc i)" using zero_sep_less ki sj assms(4) by simp
    then show ?thesis using b(2) by simp
  qed
qed

text \<open>After a vacuum a deleted key may be reported as not found.\<close>

definition read_same :: "goerr + bytes \<Rightarrow> goerr + bytes \<Rightarrow> bool" where
  "read_same r r' \<longleftrightarrow> r' = r \<or> r = Inl ErrKeyDeleted \<and> r' = Inl ErrKeyNotFound"

lemma survivors_read:
  assumes s: "sorted_wrt (<) (map Key kvs)" and pl: "plain_cells kvs" and w: "m \<le> w"
    and c: "\<And>e. e \<in> set kvs \<Longrightarrow> version e < m \<Longrightarrow> GetStatus tm (version e) = TXN_COMMITED"
  shows "read_same (latest_result ov (scan_max (visible_to u w tm) Key kvs None))
    (latest_result ov (scan_max (visible_to u w tm) Key (survivors m kvs) None))"
proof (cases "scan_max (visible_to u w tm) Key kvs None")
  case None
  then have "scan_max (visible_to u w tm) Key (survivors m kvs) None = None"
    using survivors_sub [of m kvs] unfolding scan_max_None_iff by blast
  then show ?thesis using None by (simp add: read_same_def)
next
  case (Some e)
  note g = scan_max_greatest [OF Some]
  obtain i where i: "i < length kvs" "e = kvs ! i" using g by (metis in_set_conv_nth)
  have ver: "versioned kvs" using pl by (simp add: plain_cells_def)
  have inj: "inj_on Key (set (survivors m kvs))"
    using sorted_survivors [OF s, of m] by (auto simp: strict_sorted_iff distinct_map)
  show ?thesis
  proof (cases "outdated m kvs i")
    case False
    then have "e \<in> set (survivors m kvs)" using i by (auto simp: set_survivors)
    then have "scan_max (visible_to u w tm) Key (survivors m kvs) None = Some e"
      using g survivors_sub [of m kvs] by (intro scan_max_unique [OF inj]) auto
    then show ?thesis using Some by (simp add: read_same_def)
  next
    case True
    have old: "IsDeleted e" "version e < m"
    proof -
      have "\<not> (Suc i < length kvs \<and> user_key (kvs ! i) = user_key (kvs ! Suc i) \<and> version (kvs ! Suc i) < m)"
      proof
        assume a: "Suc i < length kvs \<and> user_key (kvs ! i) = user_key (kvs ! Suc i) \<and> version (kvs ! Suc i) < m"
        then have n: "kvs ! Suc i \<in> set kvs" by simp
        have "visible_to u w tm (kvs ! Suc i)"
          using a g i(2) w c [OF n] by (auto simp: visible_to_def)
        then have "Key (kvs ! Suc i) \<le> Key (kvs ! i)" using g n i(2) by blast
        moreover have "Key (kvs ! i) < Key (kvs ! Suc i)" using sorted_wrt_nth_less [OF s, of i "Suc i"] a by simp
        ultimately show False by simp
      qed
      then show "IsDeleted e" "version e < m" using True i(2) by (auto simp: outdated_def)
    qed
    have "\<not> visible_to u w tm x" if x: "x \<in> set (survivors m kvs)" for x
    proof
      assume vis: "visible_to u w tm x"
      obtain j where j: "j < length kvs" "x = kvs ! j" "\<not> outdated m kvs j" using x by (auto simp: set_survivors)
      have "Key x \<le> Key e" using g vis j by auto
      moreover have "j \<noteq> i" using j(3) True by auto
      ultimately have ji: "j < i" using sorted_wrt_nth_less [OF s, of i j] i j by (cases "i < j") auto
      have uk: "user_key (kvs ! j) = user_key (kvs ! i)" using vis g i(2) j(2) by (auto simp: visible_to_def)
      have un: "user_key (kvs ! Suc j) = user_key (kvs ! i)" by (rule versions_adjacent [OF s pl ji i(1) uk])
      have "version (kvs ! Suc j) \<le> version (kvs ! i)"
      proof (cases "Suc j = i")
        case False
        then have sj: "Suc j < i" using ji by simp
        then have "Key (kvs ! Suc j) < Key (kvs ! i)" using sorted_wrt_nth_less [OF s, of "Suc j" i] i(1) by simp
        moreover have "kvs ! Suc j \<in> set kvs" "kvs ! i \<in> set kvs" using sj i(1) by simp_all
        ultimately show ?thesis using ver un unfolding versioned_def by (metis BuildMVCCKey_less_same less_imp_le)
      qed simp
      then have "outdated m kvs j" using old(2) un uk ji i by (auto simp: outdated_def)
      then show False using j(3) by blast
    qed
    then have "scan_max (visible_to u w tm) Key (survivors m kvs) None = None" unfolding scan_max_None_iff by blast
    moreover have "Flag e = KEY_DELETED_FLAG" using pl g old(1) by (simp add: plain_cells_def)
    ultimately show ?thesis using Some by (simp add: read_same_def latest_result_def)
  qed
qed

lemma scan_visible_prune:
  assumes "wf_txn tm" "\<And>e. e \<in> set kvs \<Longrightarrow> version e < m \<Longrightarrow> GetStatus tm (version e) = TXN_COMMITED"
  shows "scan_max (visible_to u w (PruneTables tm m)) Key kvs None = scan_max (visible_to u w tm) Key kvs None"
proof -
  have "visible_to u w (PruneTables tm m) e = visible_to u w tm e" if "e \<in> set kvs" for e
    using assms(2) [OF that] by (auto simp: visible_to_def GetStatus_PruneTables [OF assms(1)])
  then have "scan_max (visible_to u w (PruneTables tm m)) Key xs b = scan_max (visible_to u w tm) Key xs b" if "set xs \<subseteq> set kvs" for xs b
    using that by (induction xs arbitrary: b) auto
  then show ?thesis by blast
qed

lemma vacuum_reads:
  assumes db: "db_ok t a h es ps fs ov" and pl: "plain_cells es" and wf: "wf_txn tm"
    and c: "\<And>e. e \<in> set es \<Longrightarrow> version e < GetMinActiveTxID tm \<Longrightarrow> GetStatus tm (version e) = TXN_COMMITED"
    and run: "GetStatus tm w = TXN_RUNNING"
  shows "\<exists>tm' t' a' es' fs' r r' t1 t2. Vacuum tm t = Some (Inr (), (tm', t')) \<and> db_ok t' a' h es' ps fs' ov \<and> set es' \<subseteq> set es \<and>
    FindLatest (BuildMVCCKey u w) (Some tm) t = Some (r, t1) \<and> FindLatest (BuildMVCCKey u w) (Some tm') t' = Some (r', t2) \<and> read_same r r'"
proof -
  define m where "m = GetMinActiveTxID tm"
  obtain t' a' es' fs' where v: "Vacuum tm t = Some (Inr (), (PruneTables tm m, t'))" "db_ok t' a' h es' ps fs' ov"
    "set es' = set es - leaf_drops m (pview a) ps" "vacuumed m (pview a) (pview a') ps" "rootPageID t' = rootPageID t"
    using Vacuum_ok [OF db, of tm] unfolding m_def by blast
  let ?key = "BuildMVCCKey u w" and ?P = "visible_to u w tm"
  obtain t1 lo hi kvs l path p where f: "in_range lo hi ?key" "implements t1 a"
    "FindLatest ?key (Some tm) t = Some (latest_result ov (scan_max (\<lambda>kv. isVersionVisible (Key kv) ?key (Some tm)) Key kvs None), t1)"
    "kvs = filter (\<lambda>e. in_range lo hi (Key e)) es" "descent (pview a) h (rootPageID t) ?key path l" "l \<in> set ps"
    "pview a l = Some p" "leaf_page p kvs"
    by (rule FindLatest_at [OF db])
  obtain t2 lo' hi' kvs' l' path' p' where f': "in_range lo' hi' ?key" "implements t2 a'"
    "FindLatest ?key (Some (PruneTables tm m)) t' = Some (latest_result ov (scan_max (\<lambda>kv. isVersionVisible (Key kv) ?key (Some (PruneTables tm m))) Key kvs' None), t2)"
    "kvs' = filter (\<lambda>e. in_range lo' hi' (Key e)) es'" "descent (pview a') h (rootPageID t') ?key path' l'" "l' \<in> set ps"
    "pview a' l' = Some p'" "leaf_page p' kvs'"
    by (rule FindLatest_at [OF v(2)])
  have "descent (pview a') h (rootPageID t) ?key path l"
    by (rule descent_vacuumed [OF db_okD(4) [OF db] v(4) _ f(5)]) (simp add: in_range_def)
  then have "l' = l" using descent_unique f'(5) v(5) by metis
  then have kv': "kvs' = survivors m kvs"
    using v(4) f(6-8) f'(7,8) leaf_page_unique unfolding vacuumed_def by (metis option.inject)
  have sub: "set kvs \<subseteq> set es" using f(4) by auto
  have ck: "GetStatus tm (version e) = TXN_COMMITED" if "e \<in> set kvs" "version e < m" for e using c that sub m_def by blast
  have srt: "sorted_wrt (<) (map Key kvs)"
    using tree_sorted [OF db_okD(4) [OF db]] f(4) by (simp add: sorted_wrt_map sorted_wrt_filter)
  have plk: "plain_cells kvs" using pl sub unfolding plain_cells_def versioned_def by blast
  have mw: "m \<le> w" unfolding m_def by (rule min_active_le [OF run])
  have "scan_max (visible_to u w (PruneTables tm m)) Key (survivors m kvs) None = scan_max ?P Key (survivors m kvs) None"
    by (rule scan_visible_prune [OF wf]) (use ck survivors_sub [of m kvs] in blast)
  then have "read_same (latest_result ov (scan_max (\<lambda>kv. isVersionVisible (Key kv) ?key (Some tm)) Key kvs None))
     (latest_result ov (scan_max (\<lambda>kv. isVersionVisible (Key kv) ?key (Some (PruneTables tm m))) Key kvs' None))"
    using survivors_read [OF srt plk mw ck, of ov u] unfolding isVersionVisible_iff kv' by simp
  then show ?thesis using v(1-3) f(3) f'(3) by blast
qed

section \<open>Properties of the vacuum\<close>

text \<open>C5: The vacuum takes nothing from active readers when the old versions are committed. On a consistent database whose
  cells carry version keys, with user keys without a zero byte and tombstones without other flags, and in which every version
  below the watermark (the least running transaction) is committed, so that no rolled-back write has left a cell there, Vacuum
  terminates without error, only removes cells, frees the overflow chains of the removed ones, leaves a consistent
  database of the same shape, and every running transaction reads for every key what it would have read before;
  a key it saw as deleted may be reported as not found instead.\<close>

theorem vacuum_preserves_reads:
  assumes "db_ok t a h es ps fs ov" "plain_cells es" "wf_txn tm"
    and "\<forall>e \<in> set es. version e < GetMinActiveTxID tm \<longrightarrow> GetStatus tm (version e) = TXN_COMMITED"
    and "GetStatus tm w = TXN_RUNNING"
  shows "\<exists>tm' t' a' es' fs' r r' t1 t2. Vacuum tm t = Some (Inr (), (tm', t')) \<and> db_ok t' a' h es' ps fs' ov \<and> set es' \<subseteq> set es \<and>
    FindLatest (BuildMVCCKey u w) (Some tm) t = Some (r, t1) \<and> FindLatest (BuildMVCCKey u w) (Some tm') t' = Some (r', t2) \<and> read_same r r'"
  by (rule vacuum_reads [OF assms(1-3) _ assms(5)]) (use assms(4) in blast)

theorem vacuum_preserves_reads_witness:
  "\<exists>tm' t' r t2. Vacuum (SetStatus NewTransactionManager 9 TXN_RUNNING) (one_leaf demo_leaf) = Some (Inr (), (tm', t')) \<and>
     FindLatest (BuildMVCCKey [107] 9) (Some tm') t' = Some (r, t2)"
proof -
  have "user_key demo_cell = [107]" "version demo_cell = 5" by (simp_all add: user_key_def version_def demo_size)
  moreover have "\<not> IsDeleted demo_cell" by (simp add: demo_cell_def NewKVCell_def IsDeleted_def)
  ultimately have "plain_cells [demo_cell]" by (simp add: plain_cells_def versioned_def demo_size)
  then show ?thesis
    using vacuum_preserves_reads [OF demo_ok, of "SetStatus NewTransactionManager 9 TXN_RUNNING" 9 "[107]"]
    by (auto simp: \<open>version demo_cell = 5\<close>)
qed
end
