(* ===== verification/Txn_Abort.thy ===== *)
theory Txn_Abort
  imports Tree_Grow
begin

text \<open>
  \<^verbatim>\<open>Rollback\<close> of \<^verbatim>\<open>btree.go\<close>: following the PrevLSN chain of a transaction through the log and undoing each logged
  insert on its page. \<open>undo_chain\<close> is the chain as a list of records of the log, \<open>rollbackLoop_ok\<close> shows that
  the loop ends after exactly these records and removes exactly their keys. A Delete is not undone this way:
  its undo leaves a live cell with an empty value.
\<close>

section \<open>The log behind a page operation\<close>

lemma evict_wal: "evict bm = (r, bm') \<Longrightarrow> wal bm' = wal bm"
  by (auto simp: evict_def Let_def split: option.splits if_splits sum.splits prod.splits)

lemma getFrame_wal: "getFrame i m bm = (r, bm') \<Longrightarrow> wal bm' = wal bm"
  by (auto simp: getFrame_def Let_def split: option.splits if_splits sum.splits prod.splits dest: evict_wal)

lemma FetchW_wal:
  assumes "FetchPageForWrite i m bm = Some (Inr q, bm')" "length q = PageSize" "wal_holds (wal bm) rs"
    and "length (log_bytes rs) + 4139 < 2 ^ 63"
  obtains ext where "wal_holds (wal bm') (rs @ ext)" "length (log_bytes (rs @ ext)) \<le> length (log_bytes rs) + 4139"
proof -
  obtain fr bm1 where g: "getFrame i m bm = (Inr fr, bm1)"
    using assms(1) by (auto simp: FetchPageForWrite_def split: prod.splits sum.splits)
  have w1: "wal bm1 = wal bm" by (rule getFrame_wal [OF g])
  show ?thesis
  proof (cases "\<not> IsDirty fr \<and> bmWal bm1")
    case False
    then have "wal bm' = wal bm"
      using assms(1) g w1 by (auto simp: FetchPageForWrite_def split: bind_splits)
    then show ?thesis using that [of "[]"] assms(3) by simp
  next
    case True
    let ?A = "Append (wal bm) 0 i 0 LogOpFullPage [] (fPage fr)"
    let ?r = "\<lparr>LSN = currentLSN (wal bm), TxnID = 0, PrevLSN = 0, PageID = i, OpType = LogOpFullPage, recKey = [], recValue = fPage fr\<rparr>"
    have "length q = length (fPage fr) \<and> wal bm' = snd ?A"
      using assms(1) g w1 True by (auto simp: FetchPageForWrite_def Let_def split: bind_splits sum.splits prod.splits)
    then have l: "length (fPage fr) = 4096" "wal bm' = snd ?A" using assms(2) by simp_all
    have s: "rec_size ?r = 4139" using l by (simp add: rec_size_def)
    have "wal_holds (snd ?A) (rs @ [?r])"
      by (rule Append_holds(2) [OF assms(3) refl]) (use s assms(4) in \<open>simp_all add: rec_fits_def\<close>)
    then show ?thesis using that [of "[?r]"] l(2) s by (simp add: length_log_bytes)
  qed
qed

section \<open>Undoing an insert on its page\<close>

lemma redoLoop_undo:
  assumes "leaf_page p kvs" "set is \<subseteq> {..<length kvs}"
  shows "redoLoop p key cb LogOpUndoInsert is cells ke =
    Some (cells @ map (\<lambda>i. KVCell_Serialize (kvs ! i)) (filter (\<lambda>i. Key (kvs ! i) \<noteq> key) is), ke \<or> (\<exists>i \<in> set is. Key (kvs ! i) = key))"
  using assms(2)
proof (induction "is" arbitrary: cells ke)
  case (Cons i "is")
  then show ?case using leaf_page_cell [OF assms(1), of i] by auto
qed simp

lemma undo_on_page:
  assumes "leaf_page p kvs" "length p = PageSize"
  obtains p' where "redoUpsertOnPage p key val LogOpUndoInsert = Some p'" "leaf_page p' (filter (\<lambda>e. Key e \<noteq> key) kvs)"
    "GetPageID p' = GetPageID p" "norm_page p' = p'" "length p' = PageSize"
proof -
  let ?cs = "map KVCell_Serialize (filter (\<lambda>e. Key e \<noteq> key) kvs)"
  have lp: "redoLoop p key cb LogOpUndoInsert (slots p) [] False = Some (?cs, \<exists>e \<in> set kvs. Key e = key)" for cb
  proof -
    have "map (\<lambda>i. KVCell_Serialize (kvs ! i)) (filter (\<lambda>i. Key (kvs ! i) \<noteq> key) [0..<length kvs]) =
        map KVCell_Serialize (filter (\<lambda>e. Key e \<noteq> key) (map ((!) kvs) [0..<length kvs]))"
      by (simp add: filter_map comp_def)
    then have "map (\<lambda>i. KVCell_Serialize (kvs ! i)) (filter (\<lambda>i. Key (kvs ! i) \<noteq> key) [0..<length kvs]) = ?cs"
      by (simp only: map_nth)
    moreover have "(\<exists>i \<in> set [0..<length kvs]. Key (kvs ! i) = key) \<longleftrightarrow> (\<exists>e \<in> set kvs. Key e = key)"
      using nth_mem [of _ kvs] by (auto simp: in_set_conv_nth [of _ kvs]; force)
    ultimately show ?thesis
      using redoLoop_undo [OF assms(1), of "[0..<length kvs]" key cb "[]" False] by (simp add: leaf_page_slots [OF assms(1)] atLeast0LessThan)
  qed
  have "sum_list (map f (filter P xs)) \<le> sum_list (map f xs)" for f :: "KVCell \<Rightarrow> nat" and P xs by (induction xs) auto
  then have "space_used ?cs \<le> space_used (map KVCell_Serialize kvs)" by (simp add: space_used_def comp_def)
  also have "\<dots> \<le> PageSize" using slotted.inv_cap [of p] assms(1) by (simp add: leaf_page_def)
  finally have sp: "space_used ?cs \<le> PageSize" .
  have pt: "GetPageType p = PageTypeLeaf" using assms(1) by (simp add: leaf_page_def)
  obtain p' where p': "each Page_Insert (Page_Init p PageTypeLeaf) ?cs = Some p'" "wf_slotted p'" "page_cells p' = ?cs"
    "GetPageType p' = PageTypeLeaf" "GetPageID p' = GetPageID p" "norm_page p' = p'" "length p' = PageSize"
    by (rule rebuild_page [where m = PageTypeLeaf, OF assms(2) _ sp]) auto
  have "redoUpsertOnPage p key val LogOpUndoInsert = Some p'"
    using lp p'(1) pt by (simp add: redoUpsertOnPage_def Let_def)
  moreover have "list_all kv_cell_fits (filter (\<lambda>e. Key e \<noteq> key) kvs)" using assms(1) by (auto simp: leaf_page_def list_all_iff)
  then have "leaf_page p' (filter (\<lambda>e. Key e \<noteq> key) kvs)" using p' by (simp add: leaf_page_def)
  ultimately show ?thesis using that p'(5-7) by blast
qed

section \<open>Redoing a write on its page\<close>

text \<open>\<^verbatim>\<open>redoUpsertOnPage\<close> replaces the cell of a key where it stands and adds a cell of a new key at the end of the page.\<close>

definition redo_put :: "KVCell \<Rightarrow> KVCell list \<Rightarrow> KVCell list" where
  "redo_put kv kvs =
     (if \<exists>e \<in> set kvs. Key e = Key kv then map (\<lambda>e. if Key e = Key kv then kv else e) kvs else kvs @ [kv])"

lemma redoLoop_upsert:
  assumes "leaf_page p kvs" "set is \<subseteq> {..<length kvs}" "op \<noteq> LogOpUndoInsert"
  shows "redoLoop p key cb op is cells ke =
    Some (cells @ map (\<lambda>i. if Key (kvs ! i) = key then cb else KVCell_Serialize (kvs ! i)) is, ke \<or> (\<exists>i \<in> set is. Key (kvs ! i) = key))"
  using assms(2)
proof (induction "is" arbitrary: cells ke)
  case (Cons i "is")
  then show ?case using leaf_page_cell [OF assms(1), of i] assms(3) by auto
qed simp

lemma redo_on_page:
  assumes lp: "leaf_page p kvs" "length p = PageSize" and op: "op = LogOpInsert \<or> op = LogOpDelete"
    and kv: "kv = NewKVCell (if op = LogOpDelete then KEY_DELETED_FLAG else 0) key val" "kv_cell_fits kv"
    and sp: "space_used (map KVCell_Serialize (redo_put kv kvs)) \<le> PageSize"
  obtains p' where "redoUpsertOnPage p key val op = Some p'" "leaf_page p' (redo_put kv kvs)"
    "GetPageID p' = GetPageID p" "norm_page p' = p'" "length p' = PageSize"
proof -
  have nu: "op \<noteq> LogOpUndoInsert" and k: "Key kv = key" using op kv(1) by (auto simp: NewKVCell_def)
  let ?cb = "KVCell_Serialize kv"
  have "map (\<lambda>i. if Key (kvs ! i) = key then ?cb else KVCell_Serialize (kvs ! i)) [0..<length kvs] =
      map (\<lambda>e. if Key e = key then ?cb else KVCell_Serialize e) (map ((!) kvs) [0..<length kvs])" by simp
  also have "\<dots> = map KVCell_Serialize (map (\<lambda>e. if Key e = key then kv else e) kvs)" unfolding map_nth by simp
  finally have m: "map (\<lambda>i. if Key (kvs ! i) = key then ?cb else KVCell_Serialize (kvs ! i)) [0..<length kvs] =
      map KVCell_Serialize (map (\<lambda>e. if Key e = key then kv else e) kvs)" .
  have ex: "(\<exists>i \<in> set [0..<length kvs]. Key (kvs ! i) = key) \<longleftrightarrow> (\<exists>e \<in> set kvs. Key e = key)"
    using nth_mem [of _ kvs] by (auto simp: in_set_conv_nth [of _ kvs]; force)
  have same: "map (\<lambda>e. if Key e = key then kv else e) kvs = kvs" if "\<not> (\<exists>e \<in> set kvs. Key e = key)"
    using that by (auto intro: map_idI)
  have lo: "redoLoop p key ?cb op (slots p) [] False =
      Some (map KVCell_Serialize (map (\<lambda>e. if Key e = key then kv else e) kvs), \<exists>e \<in> set kvs. Key e = key)"
    using redoLoop_upsert [OF lp(1) _ nu, of "[0..<length kvs]" key ?cb "[]" False]
    by (simp only: leaf_page_slots [OF lp(1)] m ex) (simp add: atLeast0LessThan)
  have cs: "(if \<not> (\<exists>e \<in> set kvs. Key e = key) \<and> op \<noteq> LogOpUndoInsert
      then map KVCell_Serialize (map (\<lambda>e. if Key e = key then kv else e) kvs) @ [?cb]
      else map KVCell_Serialize (map (\<lambda>e. if Key e = key then kv else e) kvs)) = map KVCell_Serialize (redo_put kv kvs)"
    using nu same by (auto simp: redo_put_def k)
  have pt: "GetPageType p = PageTypeLeaf" using lp(1) by (simp add: leaf_page_def)
  obtain p' where p': "each Page_Insert (Page_Init p PageTypeLeaf) (map KVCell_Serialize (redo_put kv kvs)) = Some p'" "wf_slotted p'"
    "page_cells p' = map KVCell_Serialize (redo_put kv kvs)"
    "GetPageType p' = PageTypeLeaf" "GetPageID p' = GetPageID p" "norm_page p' = p'" "length p' = PageSize"
    by (rule rebuild_page [where m = PageTypeLeaf, OF lp(2) _ sp]) auto
  have "redoUpsertOnPage p key val op = Some p'"
    unfolding redoUpsertOnPage_def Let_def kv(1) [symmetric] lo Option.bind.bind_lunit prod.case cs pt by (rule p'(1))
  moreover have "list_all kv_cell_fits (redo_put kv kvs)" using lp(1) kv(2) by (auto simp: leaf_page_def list_all_iff redo_put_def)
  then have "leaf_page p' (redo_put kv kvs)" using p' by (simp add: leaf_page_def)
  ultimately show ?thesis using that p'(5-7) by blast
qed

section \<open>Undoing a log record\<close>

lemma filter_key_between:
  assumes "leaf_in V h i lo hi es ps key l lo' hi' A kvs B"
  shows "filter (\<lambda>e. Key e \<noteq> key) es = A @ filter (\<lambda>e. Key e \<noteq> key) kvs @ B"
proof -
  have "es = A @ kvs @ B" using assms by (simp add: leaf_in_def)
  moreover have "Key e \<noteq> key" if "e \<in> set A \<or> e \<in> set B" for e
    using assms that by (auto simp: leaf_in_def in_range_def split: option.splits)
  then have "filter (\<lambda>e. Key e \<noteq> key) A = A" "filter (\<lambda>e. Key e \<noteq> key) B = B" by (auto simp: filter_id_conv)
  ultimately show ?thesis by simp
qed

text \<open>The compensation record a rollback writes for a record of the transaction.\<close>

definition clr_of :: "u64 \<Rightarrow> LogRecord \<Rightarrow> u64 \<Rightarrow> LogRecord" where
  "clr_of txid r lsn = r\<lparr>LSN := lsn, TxnID := txid, OpType := LogOpCLR\<rparr>"

lemma dropAppend_clr:
  fixes t :: BTree
  assumes "wal_holds (wal t) rs" "rec_fits r" "length (log_bytes rs) + rec_size r < 2 ^ 63"
  obtains w where "dropAppend txid (PageID r) (PrevLSN r) LogOpCLR (recKey r) (recValue r) t = (currentLSN (wal t), t\<lparr>wal := w\<rparr>)"
    "wal_holds w (rs @ [clr_of txid r (currentLSN (wal t))])"
proof -
  let ?A = "Append (wal t) txid (PageID r) (PrevLSN r) LogOpCLR (recKey r) (recValue r)"
  let ?c = "clr_of txid r (currentLSN (wal t))"
  have c: "?c = \<lparr>LSN = currentLSN (wal t), TxnID = txid, PrevLSN = PrevLSN r, PageID = PageID r, OpType = LogOpCLR,
      recKey = recKey r, recValue = recValue r\<rparr>" "rec_fits ?c" "rec_size ?c = rec_size r"
    using assms(2) by (simp_all add: clr_of_def rec_fits_def rec_size_def)
  have "fst ?A = Inr (currentLSN (wal t))" "wal_holds (snd ?A) (rs @ [?c])"
    by (rule Append_holds [OF assms(1) c(1,2)]; use c(3) assms(3) in simp)+
  then obtain w where "?A = (Inr (currentLSN (wal t)), w)" "wal_holds w (rs @ [?c])" by (cases ?A) auto
  then show ?thesis using that [of w] by (simp add: dropAppend_def)
qed

abbreviation (input) inverse_op :: "LogRecord \<Rightarrow> u8" where
  "inverse_op r \<equiv> (if OpType r = LogOpDelete then LogOpInsert else LogOpUndoInsert)"

lemma undoRecord_page:
  assumes db: "db_ok t a h es ps fs ov" and tw: "treeWal t" and w: "wal_holds (wal t) rs"
    and r: "OpType r = LogOpInsert \<or> OpType r = LogOpDelete" "rec_fits r" and sz: "length (log_bytes rs) + rec_size r + 4139 < 2 ^ 63"
    and li: "leaf_in (pview a) h (rootPageID t) [] None es ps (recKey r) (PageID r) lo hi A kvs B"
    and redo: "\<And>q. leaf_page q kvs \<Longrightarrow> length q = PageSize \<Longrightarrow> \<exists>q'. redoUpsertOnPage q (recKey r) (recValue r) (inverse_op r) = Some q' \<and>
      leaf_page q' kvs' \<and> GetPageID q' = GetPageID q \<and> norm_page q' = q' \<and> length q' = PageSize"
    and srt: "sorted_wrt (<) (map Key kvs')" and rg: "\<And>e. e \<in> set kvs' \<Longrightarrow> in_range lo hi (Key e)"
    and vo: "values_ok (pview a) (set (A @ kvs' @ B)) (set ps) (set fs) ov'"
  obtains t' a' ext where "undoRecord txid r t = Some t'" "db_ok t' a' h (A @ kvs' @ B) ps fs ov'"
    "treeWal t'" "rootPageID t' = rootPageID t" "wal_holds (wal t') (rs @ ext)"
    "length (log_bytes (rs @ ext)) \<le> length (log_bytes rs) + rec_size r + 4139"
    "\<And>k p ks. k \<in> set ps \<Longrightarrow> pview a k = Some p \<Longrightarrow> node_page p ks \<Longrightarrow> pview a' k = Some p"
proof -
  let ?l = "PageID r" and ?key = "recKey r"
  obtain p where l: "?l \<in> set ps" "pview a ?l = Some p" "leaf_page p kvs" using li by (auto simp: leaf_in_def)
  note d = db_okD [OF db]
  have im: "implements t a" by (rule storeD(1) [OF d(1)])
  have fr: "room a ?l" "plog a \<longrightarrow> plogopen a" using pages_free_room [of a 4 ?l] d(3) d(2) storeD [OF d(1)] by (auto simp: store_def store_ok_def)
  obtain q t1 where f: "FetchPageForWrite ?l PageTypeLeaf t = Some (Inr q, t1)" "norm_page q = p"
    "implements t1 (a\<lparr>pheld := (pheld a)(?l := LWrite)\<rparr>)"
    using pool.fetchW_free [OF im l(2) fr(1) d(2) fr(2), of PageTypeLeaf] by blast
  have ql: "length q = PageSize" using f(2) pview_page(1) [OF im l(2)] by (metis length_norm_page)
  have lq: "leaf_page q kvs" using leaf_page_norm [OF ql] f(2) l(3) by simp
  have gq: "GetPageID q = ?l" using norm_page_get(1) [OF ql] f(2) storeD(3) [OF d(1) l(2)] by simp
  obtain e1 where w1: "wal_holds (wal t1) (rs @ e1)" "length (log_bytes (rs @ e1)) \<le> length (log_bytes rs) + 4139"
    by (rule FetchW_wal [OF f(1) ql w]) (use sz in simp)
  note m = mid_start [OF db f(3) l(1)]
  have m': "mid_ok t1 a ?l (set (A @ kvs' @ B)) ps fs ov'" using m(1) vo by (simp add: mid_ok_def)
  note md = mid_okD [OF m']
  obtain q' where q': "redoUpsertOnPage q ?key (recValue r) (inverse_op r) = Some q'" "leaf_page q' kvs'"
    "GetPageID q' = GetPageID q" "norm_page q' = q'" "length q' = PageSize"
    using redo [OF lq ql] by blast
  obtain w2 where w2: "dropAppend txid ?l (PrevLSN r) LogOpCLR ?key (recValue r) t1 = (currentLSN (wal t1), t1\<lparr>wal := w2\<rparr>)"
    "wal_holds w2 ((rs @ e1) @ [clr_of txid r (currentLSN (wal t1))])"
    by (rule dropAppend_clr [OF w1(1) r(2)]) (use w1(2) sz in simp)
  have "fopen (wfile w2)" "fopen (wfile (wal t1))" using w2(2) w1(1) by (simp_all add: wal_holds_def)
  then have i2: "implements (t1\<lparr>wal := w2\<rparr>) (a\<lparr>pheld := (pheld a)(?l := LWrite)\<rparr>)"
    using implements_sel(5) [OF f(3)] by (intro impl_wal [OF f(3)]) simp
  let ?t3 = "putPage ?l (SetLSN q' (currentLSN (wal t1))) (t1\<lparr>wal := w2\<rparr>)"
  have i3: "implements ?t3 (a\<lparr>pheld := (pheld a)(?l := LWrite), pview := (pview a)(?l \<mapsto> q'), ptouched := insert ?l (ptouched a)\<rparr>)"
    using pool.write_held [OF i2, of ?l "SetLSN q' (currentLSN (wal t1))"] q'(4,5) by (simp add: norm_SetLSN)
  obtain t' where t': "UnpinPage ?l True True ?t3 = Some (Inr (), t')" "implements t' (a\<lparr>pview := (pview a)(?l \<mapsto> q')\<rparr>)" "wal t' = wal ?t3"
    by (rule release_rewritten [OF i3]) (use md(3,4) in auto)
  have db': "db_ok t' (a\<lparr>pview := (pview a)(?l \<mapsto> q')\<rparr>) h (A @ kvs' @ B) ps fs ov'"
    by (rule mid_finish [OF m' li [folded m(2)] refl t'(2) q'(2) _ srt rg]) (use q'(3) gq in auto)
  have un: "undoRecord txid r t = Some t'"
    unfolding undoRecord_def using r(1) f(1) q'(1) w2(1) t'(1) by (auto simp: dropUnpin_def)
  note me = more_eq [OF im t'(2)]
  have nd: "((pview a)(?l \<mapsto> q')) k = Some pk" if "pview a k = Some pk" "node_page pk ks" for k pk ks
    using that l(2,3) leaf_not_node by (cases "k = ?l") auto
  have "length (log_bytes (rs @ e1 @ [clr_of txid r (currentLSN (wal t1))])) \<le> length (log_bytes rs) + rec_size r + 4139"
    using w1(2) by (simp add: length_log_bytes rec_size_def clr_of_def)
  then show ?thesis using that [OF un db'] me tw w2(2) t'(3) nd by simp
qed

lemma undoRecord_ok:
  assumes db: "db_ok t a h es ps fs ov" and tw: "treeWal t" and w: "wal_holds (wal t) rs"
    and r: "OpType r = LogOpInsert" "rec_fits r" "descent (pview a) h (rootPageID t) (recKey r) path (PageID r)"
    and sz: "length (log_bytes rs) + rec_size r + 4139 < 2 ^ 63"
  obtains t' a' ext where "undoRecord txid r t = Some t'" "db_ok t' a' h (filter (\<lambda>e. Key e \<noteq> recKey r) es) ps fs ov"
    "treeWal t'" "rootPageID t' = rootPageID t" "wal_holds (wal t') (rs @ ext)"
    "length (log_bytes (rs @ ext)) \<le> length (log_bytes rs) + rec_size r + 4139"
    "\<And>k p ks. k \<in> set ps \<Longrightarrow> pview a k = Some p \<Longrightarrow> node_page p ks \<Longrightarrow> pview a' k = Some p"
proof -
  let ?f = "filter (\<lambda>e. Key e \<noteq> recKey r)"
  have rg: "in_range [] None (recKey r)" by (simp add: in_range_def)
  obtain lo hi A kvs B where li: "leaf_in (pview a) h (rootPageID t) [] None es ps (recKey r) (PageID r) lo hi A kvs B"
    using tree_hole [OF db_okD(4,5) [OF db] rg r(3)] by blast
  have es: "es = A @ kvs @ B" and kr: "\<And>e. e \<in> set kvs \<Longrightarrow> in_range lo hi (Key e)" using li by (auto simp: leaf_in_def)
  have srt: "sorted_wrt (<) (map Key (?f kvs))"
    using tree_sorted [OF db_okD(4) [OF db]] es by (intro sorted_filter_Key) (simp add: sorted_wrt_append)
  have vo: "values_ok (pview a) (set es) (set ps) (set fs) ov" using db by (simp add: db_ok_alt)
  have "values_ok (pview a) (set (A @ ?f kvs @ B)) (set ps) (set fs) ov"
    by (rule values_ok_frame [OF vo]) (use es values_okD(2) [OF vo] in auto)
  note u = undoRecord_page [OF db tw w _ r(2) sz li _ srt _ this, of txid, folded filter_key_between [OF li]]
  show ?thesis
    by (rule u) (use r(1) kr that in \<open>auto intro: undo_on_page [where key = "recKey r" and val = "recValue r"]\<close>)
qed

lemma put_same: "sorted_wrt (<) (map Key es) \<Longrightarrow> e \<in> set es \<Longrightarrow> put e es = es"
proof (induction es)
  case (Cons x es)
  have lt: "\<forall>y \<in> set es. Key x < Key y" "sorted_wrt (<) (map Key es)" using Cons.prems(1) by simp_all
  show ?case
  proof (cases "e = x")
    case True
    then have "filter (\<lambda>y. Key y < Key e) es = []" "filter (\<lambda>y. Key e < Key y) es = es"
      using lt(1) by (auto simp: filter_empty_conv filter_id_conv dest: less_asym)
    then show ?thesis using True by (simp add: put_def)
  next
    case False
    then have "e \<in> set es" using Cons.prems(2) by simp
    then show ?thesis using Cons.IH [OF lt(2)] lt(1) by (auto simp: put_def dest: less_asym)
  qed
qed simp

lemma redo_put_sorted:
  assumes "sorted_wrt (<) (map Key es)" "e \<in> set es" "Key e = Key kv"
  shows "redo_put kv es = put kv es"
  using assms
proof (induction es)
  case (Cons x es)
  have lt: "\<forall>y \<in> set es. Key x < Key y" "sorted_wrt (<) (map Key es)" using Cons.prems(1) by simp_all
  have ex: "\<exists>y \<in> set (x # es). Key y = Key kv" using Cons.prems(2,3) by blast
  show ?case
  proof (cases "Key x = Key kv")
    case True
    then have "filter (\<lambda>y. Key y < Key kv) es = []" "filter (\<lambda>y. Key kv < Key y) es = es"
      using lt(1) by (auto simp: filter_empty_conv filter_id_conv dest: less_asym)
    moreover have "map (\<lambda>y. if Key y = Key kv then kv else y) es = es" using lt(1) True by (intro map_idI) auto
    ultimately show ?thesis using True by (simp add: put_def redo_put_def)
  next
    case False
    then have m: "e \<in> set es" "Key x < Key kv" using Cons.prems(2,3) lt(1) by auto
    then show ?thesis using Cons.IH [OF lt(2) m(1) Cons.prems(3)] False Cons.prems(3) ex by (auto simp: put_def redo_put_def dest: less_asym)
  qed
qed simp

text \<open>The undo of a Delete puts a live cell with the logged value, which is empty, in the place of the tombstone.\<close>

lemma undoRecord_delete:
  assumes db: "db_ok t a h es ps fs ov" and tw: "treeWal t" and w: "wal_holds (wal t) rs"
    and r: "OpType r = LogOpDelete" "recValue r = []" "rec_fits r" "descent (pview a) h (rootPageID t) (recKey r) path (PageID r)"
    and sz: "length (log_bytes rs) + rec_size r + 4139 < 2 ^ 63" and e: "e \<in> set es" "Key e = recKey r"
    and kv: "kv = NewKVCell 0 (recKey r) []"
  obtains t' a' ext where "undoRecord txid r t = Some t'" "db_ok t' a' h (put kv es) ps fs (ov(kv := ([], [])))"
    "treeWal t'" "rootPageID t' = rootPageID t" "wal_holds (wal t') (rs @ ext)"
    "length (log_bytes (rs @ ext)) \<le> length (log_bytes rs) + rec_size r + 4139"
proof -
  have rg: "in_range [] None (recKey r)" by (simp add: in_range_def)
  have kk: "Key kv = recKey r" "\<not> IsOverflow kv" "Value kv = []" using kv by (simp_all add: NewKVCell_def IsOverflow_def)
  obtain lo hi A kvs B where li: "leaf_in (pview a) h (rootPageID t) [] None es ps (recKey r) (PageID r) lo hi A kvs B"
    using tree_hole [OF db_okD(4,5) [OF db] rg r(4)] by blast
  have es: "es = A @ kvs @ B" and kr: "\<And>x. x \<in> set kvs \<Longrightarrow> in_range lo hi (Key x)" "in_range lo hi (recKey r)" using li by (auto simp: leaf_in_def)
  have srt: "sorted_wrt (<) (map Key kvs)" using tree_sorted [OF db_okD(4) [OF db]] es by (simp add: sorted_wrt_append)
  have ek: "e \<in> set kvs" using e li by (auto simp: leaf_in_def in_range_def split: option.splits)
  have pb: "put kv es = A @ put kv kvs @ B"
    unfolding es by (rule put_between) (use li kk in \<open>auto simp: leaf_in_def in_range_def split: option.splits\<close>)
  note rp = redo_put_sorted [OF srt ek, of kv, unfolded kk(1), OF e(2)]
  obtain p where "leaf_page p kvs" using li by (auto simp: leaf_in_def)
  then have lf: "list_all kv_cell_fits kvs" "space_used (map KVCell_Serialize kvs) \<le> PageSize"
    using slotted.inv_cap [of p] by (simp_all add: leaf_page_def)
  have "kv_cell_fits e" using lf(1) ek by (simp add: list_all_iff)
  then have fit: "kv_cell_fits kv" using e(2) kv by (simp add: kv_cell_fits_def NewKVCell_def)
  have "KVCell_Size kv \<le> KVCell_Size e" using e(2) kv by (simp add: KVCell_Size_def NewKVCell_def)
  then have sp: "space_used (map KVCell_Serialize (put kv kvs)) \<le> PageSize"
    using space_put [OF refl, of kv kvs] space_put [of kvs e kvs] put_same [OF srt ek] lf(2) e(2) kk(1) by simp
  have redo: "\<exists>q'. redoUpsertOnPage q (recKey r) (recValue r) (inverse_op r) = Some q' \<and>
      leaf_page q' (put kv kvs) \<and> GetPageID q' = GetPageID q \<and> norm_page q' = q' \<and> length q' = PageSize"
    if "leaf_page q kvs" "length q = PageSize" for q
    by (rule redo_on_page [OF that, of LogOpInsert kv "recKey r" "[]"]) (use kv fit sp rp r in auto)
  have vo: "values_ok (pview a) (set es) (set ps) (set fs) ov" using db by (simp add: db_ok_alt)
  have "values_ok (pview a) {x \<in> set es. Key x \<noteq> recKey r} (set ps) (set fs) ov"
    by (rule values_ok_frame [OF vo]) (use values_okD(2) [OF vo] in auto)
  then have "values_ok (pview a) (insert kv {x \<in> set es. Key x \<noteq> recKey r}) (set ps) (set fs) (ov(kv := ([], [])))"
    by (rule values_ok_add) (use kk in \<open>auto simp: cell_value_def\<close>)
  then have "values_ok (pview a) (set (A @ put kv kvs @ B)) (set ps) (set fs) (ov(kv := ([], [])))"
    unfolding pb [symmetric] set_put kk(1) .
  note u = undoRecord_page [OF db tw w _ r(3) sz li redo sorted_put [OF srt] _ this, of txid, folded pb]
  show ?thesis by (rule u) (use r(1) kr kk(1) that in \<open>auto simp: set_put\<close>)
qed

section \<open>The chain of a transaction\<close>

text \<open>\<open>undo_chain rs lsn cs\<close>: following the \<open>PrevLSN\<close> links from \<open>lsn\<close> visits exactly the records cs of the log.\<close>

fun undo_chain :: "LogRecord list \<Rightarrow> u64 \<Rightarrow> LogRecord list \<Rightarrow> bool" where
  "undo_chain rs lsn [] \<longleftrightarrow> lsn = 0"
| "undo_chain rs lsn (r # cs) \<longleftrightarrow> lsn = LSN r \<and> r \<in> set rs \<and> undo_chain rs (PrevLSN r) cs"

lemma undo_chain_mono: "undo_chain rs lsn cs \<Longrightarrow> undo_chain (rs @ ext) lsn cs"
  by (induction cs arbitrary: lsn) auto

text \<open>An insert logged against the leaf that still covers its key.\<close>

definition logged_insert :: "(u32 \<Rightarrow> page option) \<Rightarrow> nat \<Rightarrow> u32 \<Rightarrow> LogRecord \<Rightarrow> bool" where
  "logged_insert V h root r \<longleftrightarrow> OpType r = LogOpInsert \<and> (\<exists>path. descent V h root (recKey r) path (PageID r))"

definition undo_bytes :: "LogRecord list \<Rightarrow> nat" where
  "undo_bytes cs = (\<Sum>r\<leftarrow>cs. rec_size r + 4139)"

lemma rollbackLoop_ok:
  assumes "undo_chain rs lsn cs" "db_ok t a h es ps fs ov" "treeWal t" "wal_holds (wal t) rs"
    and "\<And>r. r \<in> set cs \<Longrightarrow> logged_insert (pview a) h (rootPageID t) r"
    and "length (log_bytes rs) + undo_bytes cs < 2 ^ 63"
  shows "\<exists>t' a' ext. rollbackLoop txid lsn t = Some (Inr (), t') \<and> db_ok t' a' h (filter (\<lambda>e. Key e \<notin> recKey ` set cs) es) ps fs ov \<and>
    treeWal t' \<and> rootPageID t' = rootPageID t \<and> wal_holds (wal t') (rs @ ext) \<and>
    length (log_bytes (rs @ ext)) \<le> length (log_bytes rs) + undo_bytes cs"
  using assms
proof (induction cs arbitrary: rs lsn t a es)
  case Nil
  then show ?case by (subst rollbackLoop.simps) (auto intro!: exI [of _ "[]"] simp: undo_bytes_def)
next
  case (Cons r cs)
  have ch: "lsn = LSN r" "r \<in> set rs" "undo_chain rs (PrevLSN r) cs" using Cons.prems(1) by simp_all
  obtain i where i: "i < length rs" "rs ! i = r" using ch(2) by (metis in_set_conv_nth)
  have rd: "ReadRecord (wal t) (LSN r) = Some (Inr (r, of_nat (rec_size r)))" using wal_holds_read [OF Cons.prems(4) i(1)] i(2) by simp
  have fits: "rec_fits r" using Cons.prems(4) ch(2) by (simp add: wal_holds_def list_all_iff)
  have nz: "LSN r \<noteq> 0" using lsns_from_nth [of 4 rs i] Cons.prems(4) i by (auto simp: wal_holds_def)
  obtain path where lg: "OpType r = LogOpInsert" "descent (pview a) h (rootPageID t) (recKey r) path (PageID r)"
    using Cons.prems(5) [of r] by (auto simp: logged_insert_def)
  have sz: "length (log_bytes rs) + rec_size r + 4139 < 2 ^ 63" using Cons.prems(6) by (simp add: undo_bytes_def)
  obtain t1 a1 e1 where u: "undoRecord txid r t = Some t1" "db_ok t1 a1 h (filter (\<lambda>e. Key e \<noteq> recKey r) es) ps fs ov"
    "treeWal t1" "rootPageID t1 = rootPageID t" "wal_holds (wal t1) (rs @ e1)"
    "length (log_bytes (rs @ e1)) \<le> length (log_bytes rs) + rec_size r + 4139"
    "\<And>k p ks. k \<in> set ps \<Longrightarrow> pview a k = Some p \<Longrightarrow> node_page p ks \<Longrightarrow> pview a1 k = Some p"
    by (rule undoRecord_ok [OF Cons.prems(2-4) lg(1) fits lg(2) sz]) blast
  have df: "descent (pview a1) h (rootPageID t) k pth l" if d: "descent (pview a) h (rootPageID t) k pth l" for k pth l
    by (rule descent_frame [OF db_okD(4) [OF Cons.prems(2)] _ _ d]) (use u(7) in \<open>auto simp: in_range_def\<close>)
  have lg': "logged_insert (pview a1) h (rootPageID t1) r'" if "r' \<in> set cs" for r'
    using Cons.prems(5) [of r'] that df unfolding logged_insert_def u(4) by auto
  have sz': "length (log_bytes (rs @ e1)) + undo_bytes cs < 2 ^ 63" using u(6) Cons.prems(6) by (simp add: undo_bytes_def)
  obtain t' a' ext where v: "rollbackLoop txid (PrevLSN r) t1 = Some (Inr (), t')"
    "db_ok t' a' h (filter (\<lambda>e. Key e \<notin> recKey ` set cs) (filter (\<lambda>e. Key e \<noteq> recKey r) es)) ps fs ov" "treeWal t'"
    "rootPageID t' = rootPageID t1" "wal_holds (wal t') ((rs @ e1) @ ext)"
    "length (log_bytes ((rs @ e1) @ ext)) \<le> length (log_bytes (rs @ e1)) + undo_bytes cs"
    using Cons.IH [OF undo_chain_mono [OF ch(3)] u(2,3,5) lg' sz'] by blast
  have "rollbackLoop txid lsn t = Some (Inr (), t')"
    using nz Cons.prems(3) rd u(1) v(1) by (subst rollbackLoop.simps) (simp add: ch(1))
  moreover have "filter (\<lambda>e. Key e \<notin> recKey ` set cs) (filter (\<lambda>e. Key e \<noteq> recKey r) es) = filter (\<lambda>e. Key e \<notin> recKey ` set (r # cs)) es"
    by (auto intro!: filter_cong)
  moreover have "length (log_bytes (rs @ e1 @ ext)) \<le> length (log_bytes rs) + undo_bytes (r # cs)"
    using v(6) u(6) by (simp add: undo_bytes_def)
  ultimately show ?case using v(2-5) u(4) by (metis append.assoc)
qed

lemma db_ok_wal: "db_ok t a h es ps fs ov \<Longrightarrow> fopen (wfile w) \<Longrightarrow> fopen (wfile (wal t)) \<Longrightarrow> db_ok (t\<lparr>wal := w\<rparr>) a h es ps fs ov"
  using impl_wal [of t a w] implements_sel(5) [of t a] by (simp add: db_ok_alt)

lemma Rollback_end:
  assumes "rollbackLoop txid (GetLastLSN tm txid) t = Some (Inr (), t1)" "db_ok t1 a1 h es ps fs ov" "treeWal t1" "wal_holds (wal t1) rs"
  obtains t' where "Rollback txid tm t = Some (Inr (), (SetStatus (SetStatus tm txid TXN_ROLLINGBACK) txid TXN_ROLLEDBACK, t'))"
    "db_ok t' a1 h es ps fs ov"
proof -
  have op: "fopen (wfile (wal t1))" using assms(4) by (simp add: wal_holds_def)
  let ?A = "Append (wal t1) txid 0 0 LogOpAbort [] []"
  have da: "snd (dropAppend txid 0 0 LogOpAbort [] [] t1) = t1\<lparr>wal := snd ?A\<rparr>" by (auto simp: dropAppend_def split: prod.split sum.split)
  have "db_ok (t1\<lparr>wal := snd ?A\<rparr>) a1 h es ps fs ov" by (rule db_ok_wal [OF assms(2) _ op]) (use Append_open(2) [OF op] in simp)
  moreover have "GetLastLSN (SetStatus tm txid TXN_ROLLINGBACK) txid = GetLastLSN tm txid" by (simp add: GetLastLSN_def SetStatus_def)
  ultimately show ?thesis using that [of "t1\<lparr>wal := snd ?A\<rparr>"] assms(1,3) da by (simp add: Rollback_def Let_def onTree_def)
qed

lemma Rollback_ok:
  assumes ch: "undo_chain rs (GetLastLSN tm txid) cs" and db: "db_ok t a h es ps fs ov" and tw: "treeWal t" and w: "wal_holds (wal t) rs"
    and lg: "\<And>r. r \<in> set cs \<Longrightarrow> logged_insert (pview a) h (rootPageID t) r"
    and sz: "length (log_bytes rs) + undo_bytes cs < 2 ^ 63"
  obtains t' a' where "Rollback txid tm t = Some (Inr (), (SetStatus (SetStatus tm txid TXN_ROLLINGBACK) txid TXN_ROLLEDBACK, t'))"
    "db_ok t' a' h (filter (\<lambda>e. Key e \<notin> recKey ` set cs) es) ps fs ov"
proof -
  obtain t1 a1 ext where r: "rollbackLoop txid (GetLastLSN tm txid) t = Some (Inr (), t1)"
    "db_ok t1 a1 h (filter (\<lambda>e. Key e \<notin> recKey ` set cs) es) ps fs ov" "treeWal t1" "wal_holds (wal t1) (rs @ ext)"
    using rollbackLoop_ok [OF ch db tw w lg sz] by blast
  from Rollback_end [OF r] show ?thesis using that by blast
qed

lemma find_filter_key:
  "find (\<lambda>e. Key e = k) (filter (\<lambda>e. Key e \<notin> K) es) = (if k \<in> K then None else find (\<lambda>e. Key e = k) es)"
  by (induction es) auto

text \<open>Rollback removes exactly the cells of the logged keys.\<close>

lemma rollback_effect:
  assumes "undo_chain rs (GetLastLSN tm txid) cs" "db_ok t a h es ps fs ov" "treeWal t" "wal_holds (wal t) rs"
    and "\<And>r. r \<in> set cs \<Longrightarrow> logged_insert (pview a) h (rootPageID t) r" "length (log_bytes rs) + undo_bytes cs < 2 ^ 63"
  shows "\<exists>tm' t' a'. Rollback txid tm t = Some (Inr (), (tm', t')) \<and> GetStatus tm' txid = TXN_ROLLEDBACK \<and>
    (\<forall>x. x \<noteq> txid \<longrightarrow> GetStatus tm' x = GetStatus tm x) \<and>
    db_ok t' a' h (filter (\<lambda>e. Key e \<notin> recKey ` set cs) es) ps fs ov \<and>
    (\<forall>k \<in> recKey ` set cs. \<exists>t2. Find k t' = Some (Inl ErrKeyNotFound, t2)) \<and>
    (\<forall>k. k \<notin> recKey ` set cs \<longrightarrow> (\<exists>r t1 t2. Find k t = Some (r, t1) \<and> Find k t' = Some (r, t2)))"
proof -
  obtain t' a' where r: "Rollback txid tm t = Some (Inr (), (SetStatus (SetStatus tm txid TXN_ROLLINGBACK) txid TXN_ROLLEDBACK, t'))"
    "db_ok t' a' h (filter (\<lambda>e. Key e \<notin> recKey ` set cs) es) ps fs ov"
    by (rule Rollback_ok [OF assms(1-6)])
  have "\<exists>t2. Find k t' = Some (Inl ErrKeyNotFound, t2)" if "k \<in> recKey ` set cs" for k
    using Find_ok [OF r(2), of k] find_filter_key [of k "recKey ` set cs" es] that by (auto simp: find_result_def)
  moreover have "\<exists>r t1 t2. Find k t = Some (r, t1) \<and> Find k t' = Some (r, t2)" if "k \<notin> recKey ` set cs" for k
    using Find_ok [OF r(2), of k] Find_ok [OF assms(2), of k] find_filter_key [of k "recKey ` set cs" es] that by auto
  moreover have "GetStatus (SetStatus (SetStatus tm txid TXN_ROLLINGBACK) txid TXN_ROLLEDBACK) x =
      (if x = txid then TXN_ROLLEDBACK else GetStatus tm x)" for x by simp
  ultimately show ?thesis using r by metis
qed

section \<open>The log of a write\<close>

lemma FetchR_wal: "FetchPageForRead i m bm = Some (r, bm') \<Longrightarrow> wal bm' = wal bm"
  by (auto simp: FetchPageForRead_def Let_def split: prod.splits sum.splits if_splits bind_splits option.splits dest: getFrame_wal)

lemma dropUnpin_wal: "dropUnpin i d w bm = Some bm' \<Longrightarrow> wal bm' = wal bm"
  by (auto simp: dropUnpin_def dest: UnpinPage_wal)

lemma findLoop_wal:
  assumes "findLoop key True i pth t = Some (Inr (l, leaf, path), t')" "length leaf = PageSize" "wal_holds (wal t) rs"
    and "length (log_bytes rs) + 4139 < 2 ^ 63"
  shows "\<exists>ext. wal_holds (wal t') (rs @ ext) \<and> length (log_bytes (rs @ ext)) \<le> length (log_bytes rs) + 4139"
proof -
  define P where "P = (\<lambda>fw (t :: BTree) (r :: (goerr + u32 \<times> page \<times> u32 list) \<times> BTree). \<forall>l leaf path t'. r = (Inr (l, leaf, path), t') \<longrightarrow>
      fw \<longrightarrow> length leaf = PageSize \<longrightarrow> wal_holds (wal t) rs \<longrightarrow>
      (\<exists>ext. wal_holds (wal t') (rs @ ext) \<and> length (log_bytes (rs @ ext)) \<le> length (log_bytes rs) + 4139))"
  have "P fw t r" if "findLoop key fw i pth t = Some r" for key fw i pth t r
  proof (rule findLoop.raw_induct [where P = "\<lambda>key fw i pth t r. P fw t r", OF _ that])
    fix findLoop key fw i pth t r
    assume 1: "\<And>key fw i pth t r. findLoop key fw i pth t = Some r \<Longrightarrow> P fw t r" and
      2: "Option.bind (FetchPageForRead i PageTypeLeaf t) (\<lambda>(r, t).
       case r of
         Inl e \<Rightarrow> Some (Inl (ErrWrap ''failed to fetch page'' e), t)
       | Inr page \<Rightarrow>
           if GetPageType page = PageTypeLeaf
           then
             if fw
             then Option.bind (dropUnpin i False False t) (\<lambda>t.
                  Option.bind (FetchPageForWrite i PageTypeLeaf t) (\<lambda>(r, t).
                    case r of
                      Inl e \<Rightarrow> Some (Inl (ErrWrap ''failed to fetch page for write'' e), t)
                    | Inr page \<Rightarrow> Some (Inr (i, page, pth), t)))
             else Some (Inr (i, page, pth), t)
           else
             Option.bind (nextChild page key) (\<lambda>n.
             Option.bind (dropUnpin i False False t) (\<lambda>t.
               if n = 0 then Some (Inl ErrChildZero, t)
               else findLoop key fw n (pth @ [i]) t))) = Some r"
    show "P fw t r"
      unfolding P_def
    proof (intro allI impI)
      fix leaf l path t' assume r: "r = (Inr (l, leaf, path), t')" "fw" "length leaf = PageSize" "wal_holds (wal t) rs"
      obtain page t1 where f: "FetchPageForRead i PageTypeLeaf t = Some (Inr page, t1)"
      proof -
        obtain x t1 where x: "FetchPageForRead i PageTypeLeaf t = Some (x, t1)" using 2 by (auto simp: bind_eq_Some_conv)
        then show thesis using that 2 r(1) by (cases x) auto
      qed
      have w1: "wal t1 = wal t" by (rule FetchR_wal [OF f])
      show "\<exists>ext. wal_holds (wal t') (rs @ ext) \<and> length (log_bytes (rs @ ext)) \<le> length (log_bytes rs) + 4139"
      proof (cases "GetPageType page = PageTypeLeaf")
        case True
        then obtain t2 where t2: "dropUnpin i False False t1 = Some t2" "FetchPageForWrite i PageTypeLeaf t2 = Some (Inr leaf, t')"
        proof -
          obtain t2 x t3 where "dropUnpin i False False t1 = Some t2" "FetchPageForWrite i PageTypeLeaf t2 = Some (x, t3)"
            using 2 r(2) f True by (auto simp: bind_eq_Some_conv)
          then show thesis using that 2 r(1,2) f True by (cases x) auto
        qed
        have "wal_holds (wal t2) rs" using dropUnpin_wal [OF t2(1)] w1 r(4) by simp
        from FetchW_wal [OF t2(2) r(3) this assms(4)] show ?thesis by metis
      next
        case False
        then obtain n t2 where t2: "dropUnpin i False False t1 = Some t2" "findLoop key fw n (pth @ [i]) t2 = Some r"
          using 2 r(1,2) f by (auto simp: bind_eq_Some_conv split: if_splits)
        have "wal_holds (wal t2) rs" using dropUnpin_wal [OF t2(1)] w1 r(4) by simp
        then show ?thesis using 1 [OF t2(2)] r(1-3) unfolding P_def by blast
      qed
    qed
  qed
  then show ?thesis using assms unfolding P_def by blast
qed

section \<open>Transactions that can be undone\<close>

definition undoable :: "BTree \<Rightarrow> (u32 \<Rightarrow> page option) \<Rightarrow> nat \<Rightarrow> u64 \<Rightarrow> TransactionManager \<Rightarrow> bytes set \<Rightarrow> bool" where
  "undoable t V h w tm K \<longleftrightarrow> (\<exists>rs cs. wal_holds (wal t) rs \<and> undo_chain rs (GetLastLSN tm w) cs \<and>
     (\<forall>r \<in> set cs. logged_insert V h (rootPageID t) r) \<and> recKey ` set cs = K \<and> undo_bytes cs \<le> 98 * length (log_bytes rs))"

text \<open>A write that rewrites its leaf in place, without a conflict.\<close>

definition plain_write :: "TransactionManager \<Rightarrow> BTree \<Rightarrow> bytes \<Rightarrow> bytes \<Rightarrow> u8 \<Rightarrow> bool" where
  "plain_write tm t key val flag \<longleftrightarrow> unat (currentLSN (wal t)) < 2 ^ 56 \<and>
     (\<exists>a h es ps fs ov path l kvs. upsert_pre t a h es ps fs ov key val flag path l kvs \<and> upsert_room key val kvs \<and> inline_write key val kvs \<and>
        (\<forall>e \<in> set kvs. writeConflict (fst (ExtractMVCCKey key)) (snd (ExtractMVCCKey key)) (Some tm) (Key e) = None))"

lemma tree_height_unique: "tree_at V h i lo hi es ps \<Longrightarrow> tree_at V h' i lo' hi' es' ps' \<Longrightarrow> h' = h"
proof (induction h arbitrary: h' i lo hi es ps lo' hi' es' ps')
  case 0
  then show ?case using leaf_not_node by (cases h') auto
next
  case (Suc h)
  obtain p ks ess pss where t: "V i = Some p" "node_page p ks" "ks \<noteq> []"
    "tree_at V h (ChildPageID (ks ! 0)) (low_of lo ks 0) (high_of hi ks 0) (ess ! 0) (pss ! 0)"
    using Suc.prems(1) by auto
  obtain g where g: "h' = Suc g" using Suc.prems(2) t(1,2) leaf_not_node by (cases h') auto
  then obtain ks' ess' pss' where "node_page p ks'" "ks' \<noteq> []"
    "tree_at V g (ChildPageID (ks' ! 0)) (low_of lo' ks' 0) (high_of hi' ks' 0) (ess' ! 0) (pss' ! 0)"
    using Suc.prems(2) t(1) by auto
  moreover have "ks' = ks" using node_page_unique t(2) calculation(1) by blast
  ultimately show ?case using Suc.IH [OF t(4)] g by blast
qed

lemma write_logged:
  assumes pre: "upsert_pre t a h es ps fs ov key val flag path l kvs" and room: "upsert_room key val kvs" and inl: "inline_write key val kvs"
    and nc: "\<forall>e \<in> set kvs. writeConflict (fst (ExtractMVCCKey key)) (snd (ExtractMVCCKey key)) (Some tm) (Key e) = None"
    and tw: "treeWal t" and w: "wal_holds (wal t) rs" and sz: "length (log_bytes rs) < 2 ^ 56"
  obtains t' a' fs' ov' kv ext r where
    "upsertCell key val flag (Some tm) t = Some (Inr (), (Some (SetLastLSN tm (snd (ExtractMVCCKey key)) (LSN r)), t'))"
    "db_ok t' a' h (put kv es) ps fs' ov'" "Key kv = key" "\<forall>e. Key e \<noteq> key \<longrightarrow> ov' e = ov e" "treeWal t'" "rootPageID t' = rootPageID t"
    "\<And>k p ks. k \<in> set ps \<Longrightarrow> pview a k = Some p \<Longrightarrow> node_page p ks \<Longrightarrow> pview a' k = Some p"
    "wal_holds (wal t') ((rs @ ext) @ [r])" "PrevLSN r = GetLastLSN tm (snd (ExtractMVCCKey key))" "recKey r = key" "PageID r = l"
    "OpType r = (if flag = KEY_DELETED_FLAG then LogOpDelete else LogOpInsert)"
    "length (log_bytes ((rs @ ext) @ [r])) \<le> length (log_bytes rs) + 70000" "snd (ov' kv) = val" "IsDeleted kv \<longleftrightarrow> flag = KEY_DELETED_FLAG" "recValue r = val"
proof -
  let ?w = "snd (ExtractMVCCKey key)"
  obtain tm' t' a' fs' ov' kv where u: "upsertCell key val flag (Some tm) t = Some (Inr (), (tm', t'))"
    "db_ok t' a' h (put kv es) ps fs' ov'" "Key kv = key" "\<forall>e. Key e \<noteq> key \<longrightarrow> ov' e = ov e"
    "\<And>k. k \<in> set ps \<Longrightarrow> k \<noteq> l \<Longrightarrow> pview a' k = pview a k"
    "BufferManager.more t' = BufferManager.more t"
    "inline_write key val kvs \<Longrightarrow> \<exists>leaf t3. findLeafPage key True t = Some (Inr (l, leaf, path), t3) \<and> length leaf = PageSize \<and>
       write_log key val flag l (Some tm) t3 tm' t'"
    "snd (ov' kv) = val" "IsDeleted kv \<longleftrightarrow> flag = KEY_DELETED_FLAG"
    by (rule upsert_in_place [OF pre _ room, of "Some tm"]) (use nc in blast)+
  obtain leaf t3 where f: "findLeafPage key True t = Some (Inr (l, leaf, path), t3)" "length leaf = PageSize" "write_log key val flag l (Some tm) t3 tm' t'"
    using u(7) [OF inl] by blast
  obtain leaf' t3' where s: "findLeafPage key True t = Some (Inr (l, leaf', path), t3')" "mid_ok t3' a l (set es) ps fs ov"
    by (rule leaf_start [OF pre])
  have db: "db_ok t a h es ps fs ov" and p: "\<exists>p. pview a l = Some p \<and> leaf_page p kvs" "length key < 64000"
    using pre by (simp_all add: upsert_pre_def)
  have im: "implements t a" "implements t' a'" using db u(2) by (simp_all add: db_ok_alt)
  have tw3: "treeWal t3" using more_eq [OF im(1) mid_okD(1) [OF s(2)]] s(1) f(1) tw by simp
  obtain ext where x: "wal_holds (wal t3) (rs @ ext)" "length (log_bytes (rs @ ext)) \<le> length (log_bytes rs) + 4139"
    using findLoop_wal [OF f(1) [unfolded findLeafPage_def] f(2) w] sz by auto
  let ?op = "if flag = KEY_DELETED_FLAG then LogOpDelete else LogOpInsert"
  let ?r = "\<lparr>LSN = currentLSN (wal t3), TxnID = ?w, PrevLSN = GetLastLSN tm ?w, PageID = l, OpType = ?op, recKey = key, recValue = val\<rparr>"
  have len: "length val \<le> 1024" using inl by (simp add: inline_write_def)
  have "wal_holds (snd (Append (wal t3) ?w l (GetLastLSN tm ?w) ?op key val)) ((rs @ ext) @ [?r])"
    by (rule Append_holds(2) [OF x(1) refl]) (use len p(2) x(2) sz in \<open>simp_all add: rec_fits_def rec_size_def\<close>)
  moreover have "wal t' = snd (Append (wal t3) ?w l (GetLastLSN tm ?w) ?op key val)" "tm' = Some (SetLastLSN tm ?w (LSN ?r))"
    using f(3) tw3 by (simp_all add: write_log_def)
  moreover have "treeWal t' \<and> rootPageID t' = rootPageID t" using more_fields [OF u(6)] tw by simp
  moreover have "pview a' k = Some pk" if "k \<in> set ps" "pview a k = Some pk" "node_page pk ks" for k pk ks
    using u(5) [OF that(1)] that(2,3) p(1) leaf_not_node by (cases "k = l") auto
  moreover have "length (log_bytes ((rs @ ext) @ [?r])) \<le> length (log_bytes rs) + 70000"
    using x(2) len p(2) by (simp add: length_log_bytes rec_size_def)
  ultimately show ?thesis using that [OF _ u(2-4), of ?r ext] u(1,8,9) by simp
qed

text \<open>A step of a run: a write in place keeps the transaction undoable, and adds the key when it is its own insert.\<close>

lemma undoable_write:
  assumes db: "db_ok t a h es ps fs ov" and tw: "treeWal t" and un: "undoable t (pview a) h w tm K"
    and pw: "plain_write tm t key val flag" and run: "upsertCell key val flag (Some tm) t = Some (Inr (), (Some tm', t'))"
    and own: "snd (ExtractMVCCKey key) = w \<longrightarrow> flag = 0"
  shows "\<exists>a' es' ps' fs' ov'. db_ok t' a' h es' ps' fs' ov' \<and> treeWal t' \<and>
    undoable t' (pview a') h w tm' (if snd (ExtractMVCCKey key) = w then insert key K else K)"
proof -
  obtain b g es2 ps2 fs2 ov2 path l kvs where p: "upsert_pre t b g es2 ps2 fs2 ov2 key val flag path l kvs" "upsert_room key val kvs"
    "inline_write key val kvs" "\<forall>e \<in> set kvs. writeConflict (fst (ExtractMVCCKey key)) (snd (ExtractMVCCKey key)) (Some tm) (Key e) = None"
    "unat (currentLSN (wal t)) < 2 ^ 56"
    using pw unfolding plain_write_def by blast
  have db2: "db_ok t b g es2 ps2 fs2 ov2" using p(1) by (simp add: upsert_pre_def)
  have v: "pview b = pview a" using db db2 implements_sel(1) [of t] by (metis db_ok_alt)
  have g: "g = h" by (rule tree_height_unique [OF db_okD(4) [OF db] db_okD(4) [OF db2, unfolded v]])
  obtain rs cs where c: "wal_holds (wal t) rs" "undo_chain rs (GetLastLSN tm w) cs" "\<forall>r \<in> set cs. logged_insert (pview a) h (rootPageID t) r"
    "recKey ` set cs = K" "undo_bytes cs \<le> 98 * length (log_bytes rs)" using un by (auto simp: undoable_def)
  have sz: "length (log_bytes rs) < 2 ^ 56" using p(5) c(1) by (simp add: wal_holds_def)
  obtain t2 a' fs' ov' kv ext r where u:
    "upsertCell key val flag (Some tm) t = Some (Inr (), (Some (SetLastLSN tm (snd (ExtractMVCCKey key)) (LSN r)), t2))"
    "db_ok t2 a' g (put kv es2) ps2 fs' ov'" "treeWal t2" "rootPageID t2 = rootPageID t"
    "\<And>k p ks. k \<in> set ps2 \<Longrightarrow> pview b k = Some p \<Longrightarrow> node_page p ks \<Longrightarrow> pview a' k = Some p"
    "wal_holds (wal t2) ((rs @ ext) @ [r])" "PrevLSN r = GetLastLSN tm (snd (ExtractMVCCKey key))" "recKey r = key" "PageID r = l"
    "OpType r = (if flag = KEY_DELETED_FLAG then LogOpDelete else LogOpInsert)"
    by (rule write_logged [OF p(1-4) tw c(1) sz]) blast
  have eq: "t2 = t'" "tm' = SetLastLSN tm (snd (ExtractMVCCKey key)) (LSN r)" using u(1) run by simp_all
  have d: "db_ok t' a' h (put kv es2) ps2 fs' ov'" "treeWal t'" using u(2,3) by (simp_all add: eq g)
  have df: "descent (pview a') h (rootPageID t') k pth m" if d: "descent (pview a) h (rootPageID t) k pth m" for k pth m
    using descent_frame [OF db_okD(4) [OF db2], of "pview a'" k pth m] u(4,5) d by (simp add: g v in_range_def eq)
  have dl: "descent (pview a) h (rootPageID t) key path l" using p(1) by (simp add: upsert_pre_def v g)
  have old: "logged_insert (pview a') h (rootPageID t') x" if "x \<in> set cs" for x
    using c(3) that df unfolding logged_insert_def by blast
  have lb: "length (log_bytes ((rs @ ext) @ [r])) = length (log_bytes rs) + sum_list (map rec_size ext) + rec_size r" by (simp add: length_log_bytes)
  show ?thesis
  proof (cases "snd (ExtractMVCCKey key) = w")
    case False
    have "undoable t' (pview a') h w tm' K"
      unfolding undoable_def
      by (rule exI [of _ "(rs @ ext) @ [r]"], rule exI [of _ cs])
        (use u(6) False c(2,4,5) lb old undo_chain_mono in \<open>auto simp: eq\<close>)
    then show ?thesis unfolding if_not_P [OF False] using d by blast
  next
    case True
    have "logged_insert (pview a') h (rootPageID t') r"
      using df [OF dl] own True u(8-10) by (auto simp: logged_insert_def flag_values)
    moreover have "undo_chain ((rs @ ext) @ [r]) (LSN r) (r # cs)"
      using undo_chain_mono [OF undo_chain_mono [OF c(2)]] u(7) True by simp
    moreover have "undo_bytes (r # cs) \<le> 98 * length (log_bytes ((rs @ ext) @ [r]))"
      using c(5) rec_size_ge [of r] unfolding lb by (simp add: undo_bytes_def)
    ultimately have "undoable t' (pview a') h w tm' (insert key K)"
      unfolding undoable_def
      by (intro exI [of _ "(rs @ ext) @ [r]"] exI [of _ "r # cs"]) (use u(6,8) True c(4) old in \<open>auto simp: eq\<close>)
    then show ?thesis unfolding if_P [OF True] using d by blast
  qed
qed

text \<open>A transaction w inserts the keys K, interleaved with inserts and deletes of other transactions.\<close>

inductive txn_run :: "u64 \<Rightarrow> TransactionManager \<times> BTree \<Rightarrow> bytes set \<Rightarrow> TransactionManager \<times> BTree \<Rightarrow> bool" for w s where
  txn_start: "txn_run w s {} s"
| txn_own: "txn_run w s K (tm, t) \<Longrightarrow> snd (ExtractMVCCKey key) = w \<Longrightarrow> plain_write tm t key val 0 \<Longrightarrow>
    Insert key val (Some tm) t = Some (Inr (), (Some tm', t')) \<Longrightarrow> txn_run w s (insert key K) (tm', t')"
| txn_insert: "txn_run w s K (tm, t) \<Longrightarrow> snd (ExtractMVCCKey key) \<noteq> w \<Longrightarrow> plain_write tm t key val 0 \<Longrightarrow>
    Insert key val (Some tm) t = Some (Inr (), (Some tm', t')) \<Longrightarrow> txn_run w s K (tm', t')"
| txn_delete: "txn_run w s K (tm, t) \<Longrightarrow> snd (ExtractMVCCKey key) \<noteq> w \<Longrightarrow> plain_write tm t key [] KEY_DELETED_FLAG \<Longrightarrow>
    Delete key (Some tm) t = Some (Inr (), (Some tm', t')) \<Longrightarrow> txn_run w s K (tm', t')"

lemma txn_run_undoable:
  assumes "txn_run w (tm0, t0) K s" "db_ok t0 a0 h es0 ps0 fs0 ov0" "treeWal t0" "wal_holds (wal t0) rs" "GetLastLSN tm0 w = 0"
  shows "\<exists>a es ps fs ov. db_ok (snd s) a h es ps fs ov \<and> treeWal (snd s) \<and> undoable (snd s) (pview a) h w (fst s) K"
  using assms(1)
proof (induction rule: txn_run.induct)
  case txn_start
  have "undoable t0 (pview a0) h w tm0 {}"
    unfolding undoable_def by (intro exI [of _ rs] exI [of _ "[]"]) (use assms(4,5) in \<open>simp add: undo_bytes_def\<close>)
  then show ?case unfolding fst_conv snd_conv using assms(2,3) by blast
next
  case (txn_own K tm t key val tm' t')
  then show ?case using undoable_write [of t _ h _ _ _ _ w tm K key val 0 tm' t'] by (fastforce simp: Insert_def)
next
  case (txn_insert K tm t key val tm' t')
  then show ?case using undoable_write [of t _ h _ _ _ _ w tm K key val 0 tm' t'] by (fastforce simp: Insert_def)
next
  case (txn_delete K tm t key tm' t')
  then show ?case using undoable_write [of t _ h _ _ _ _ w tm K key "[]" KEY_DELETED_FLAG tm' t'] by (fastforce simp: Delete_def)
qed

lemma demo_wal: "treeWal (one_leaf demo_leaf)" "wal_holds (wal (one_leaf demo_leaf)) []" "unat (currentLSN (wal (one_leaf demo_leaf))) = 4"
proof -
  have "wal (one_leaf demo_leaf) = NewWAL None" by (simp add: one_leaf_def) (simp add: NewBufferManager_def)
  then show h: "wal_holds (wal (one_leaf demo_leaf)) []" using NewWAL_holds by simp
  show "treeWal (one_leaf demo_leaf)" by (simp add: one_leaf_def BufferManager.defs BTree.defs)
  show "unat (currentLSN (wal (one_leaf demo_leaf))) = 4" using h by (simp add: wal_holds_def length_log_bytes)
qed

text \<open>C4: A transaction that is aborted before any leaf splits leaves no trace. From a consistent database, let a transaction
  without earlier log records insert keys (it deletes none), interleaved with inserts and deletes of other transactions, where
  every write of the run, also those of the others, is in place: its leaf has room for it, its value is at most 1024 bytes,
  no overflow value is replaced, it meets no conflict, and the log is below 2^56 bytes. Rollback then returns without an
  error, marks the transaction as rolled back, and afterwards every key it inserted is "key not found" while every other key
  reads as it did before the rollback: the writes of the other transactions stay. A write that splits a leaf is outside this
  property: rollback edits the page that the log record names, which need not hold the key any more.\<close>

theorem aborted_transaction_leaves_no_trace:
  assumes "txn_run w (tm0, t0) K (tm, t)" "db_ok t0 a0 h es0 ps0 fs0 ov0" "treeWal t0" "wal_holds (wal t0) rs" "GetLastLSN tm0 w = 0"
    and "unat (currentLSN (wal t)) < 2 ^ 56"
  shows "\<exists>tm' t'. Rollback w tm t = Some (Inr (), (tm', t')) \<and> GetStatus tm' w = TXN_ROLLEDBACK \<and>
    (\<forall>x. x \<noteq> w \<longrightarrow> GetStatus tm' x = GetStatus tm x) \<and>
    (\<forall>k \<in> K. \<exists>t2. Find k t' = Some (Inl ErrKeyNotFound, t2)) \<and>
    (\<forall>k. k \<notin> K \<longrightarrow> (\<exists>r t1 t2. Find k t = Some (r, t1) \<and> Find k t' = Some (r, t2)))"
proof -
  obtain a es ps fs ov where d: "db_ok t a h es ps fs ov" "treeWal t" "undoable t (pview a) h w tm K"
    using txn_run_undoable [OF assms(1-5)] by auto
  obtain rs' cs where c: "wal_holds (wal t) rs'" "undo_chain rs' (GetLastLSN tm w) cs" "\<And>r. r \<in> set cs \<Longrightarrow> logged_insert (pview a) h (rootPageID t) r"
    "recKey ` set cs = K" "undo_bytes cs \<le> 98 * length (log_bytes rs')" using d(3) by (auto simp: undoable_def)
  have sz: "length (log_bytes rs') + undo_bytes cs < 2 ^ 63" using c(1,5) assms(6) by (simp add: wal_holds_def)
  from rollback_effect [OF c(2) d(1,2) c(1,3) sz] show ?thesis unfolding c(4) by blast
qed

theorem aborted_transaction_leaves_no_trace_witness:
  "\<exists>tm t t1 tm' t' t2. Insert (BuildMVCCKey [107] 9) [120] (Some (SetStatus NewTransactionManager 9 TXN_RUNNING)) (one_leaf demo_leaf) =
       Some (Inr (), (Some tm, t)) \<and> Find (BuildMVCCKey [107] 9) t = Some (Inr [120], t1) \<and>
     Rollback 9 tm t = Some (Inr (), (tm', t')) \<and> Find (BuildMVCCKey [107] 9) t' = Some (Inl ErrKeyNotFound, t2)"
proof -
  let ?k = "BuildMVCCKey [107] 9" and ?tm = "SetStatus NewTransactionManager 9 TXN_RUNNING" and ?t = "one_leaf demo_leaf"
  have pre: "upsert_pre ?t (abs_pool ?t) 0 [demo_cell] [1] [] (\<lambda>kv. ([], Value kv)) ?k [120] 0 [] 1 [demo_cell]"
    by (rule demo_pre) (simp_all add: BuildMVCCKey_layout)
  have dc: "\<not> IsOverflow demo_cell" by (simp add: demo_cell_def NewKVCell_def IsOverflow_def)
  have c: "upsert_room ?k [120] [demo_cell]" "inline_write ?k [120] [demo_cell]"
    "\<forall>e \<in> set [demo_cell]. writeConflict (fst (ExtractMVCCKey ?k)) (snd (ExtractMVCCKey ?k)) (Some ?tm) (Key e) = None"
    by (simp_all add: upsert_room_def stored_len_def inline_write_def demo_size writeConflict_def dc) (simp_all add: BuildMVCCKey_layout)
  note w = demo_wal and h = demo_wal(2) and cur = demo_wal(3)
  obtain t a' fs' ov' kv ext r where u: "upsertCell ?k [120] 0 (Some ?tm) ?t = Some (Inr (), (Some (SetLastLSN ?tm (snd (ExtractMVCCKey ?k)) (LSN r)), t))"
    "db_ok t a' 0 (put kv [demo_cell]) [1] fs' ov'" "Key kv = ?k" "wal_holds (wal t) (([] @ ext) @ [r])"
    "length (log_bytes (([] @ ext) @ [r])) \<le> length (log_bytes []) + 70000" "snd (ov' kv) = [120]" "IsDeleted kv \<longleftrightarrow> 0 = KEY_DELETED_FLAG"
    by (rule write_logged [OF pre c w(1) h]) (simp add: length_log_bytes, blast)
  let ?tm' = "SetLastLSN ?tm 9 (LSN r)"
  have ins: "Insert ?k [120] (Some ?tm) ?t = Some (Inr (), (Some ?tm', t))" using u(1) by (simp add: Insert_def)
  have "plain_write ?tm ?t ?k [120] 0" 
    unfolding plain_write_def by (rule conjI, simp add: cur) (use pre c in blast)
  then have run: "txn_run 9 (?tm, ?t) (insert ?k {}) (?tm', t)"
    by (intro txn_own [OF txn_start, where val = "[120]"]) (use ins in simp_all)
  have "unat (currentLSN (wal t)) < 2 ^ 56" using u(4,5) by (simp add: wal_holds_def length_log_bytes)
  from aborted_transaction_leaves_no_trace [OF run demo_ok w(1) h _ this]
  obtain tm' t' t2 where r: "Rollback 9 ?tm' t = Some (Inr (), (tm', t'))" "Find ?k t' = Some (Inl ErrKeyNotFound, t2)"
    by (auto simp: GetLastLSN_def NewTransactionManager_def SetStatus_def)
  have "sorted_wrt (<) (map Key [demo_cell])" by simp
  from find_put [OF this, of ?k kv] Find_ok [OF u(2), of ?k] have "\<exists>t1. Find ?k t = Some (Inr [120], t1)"
    using u(3,6,7) by (auto simp: find_result_def flag_values)
  then show ?thesis using ins r by blast
qed

text \<open>C38: A rolled-back Delete leaves a live cell with an empty value. When a transaction without earlier log records deletes a
  key in place (its leaf has room, no overflow value is replaced, no conflict, the log is below 2^56 bytes) and is rolled back,
  Delete and Rollback succeed and the transaction is marked as rolled back, but Find of its version of the key then returns
  the empty value, whether or not the key existed before; every other key reads as before the Delete. The undo writes
  the logged, empty value instead of removing the tombstone.\<close>

theorem rolled_back_delete_leaves_empty_value:
  assumes "plain_write tm t (BuildMVCCKey u w) [] KEY_DELETED_FLAG" "treeWal t" "wal_holds (wal t) rs" "GetLastLSN tm w = 0"
  shows "\<exists>tm1 t1 tm2 t2 t3. Delete (BuildMVCCKey u w) (Some tm) t = Some (Inr (), (Some tm1, t1)) \<and>
    Rollback w tm1 t1 = Some (Inr (), (tm2, t2)) \<and> GetStatus tm2 w = TXN_ROLLEDBACK \<and>
    Find (BuildMVCCKey u w) t2 = Some (Inr [], t3) \<and>
    (\<forall>k. k \<noteq> BuildMVCCKey u w \<longrightarrow> (\<exists>r ta tb. Find k t = Some (r, ta) \<and> Find k t2 = Some (r, tb)))"
proof -
  let ?k = "BuildMVCCKey u w"
  have sw: "snd (ExtractMVCCKey ?k) = w" by simp
  obtain a h es ps fs ov path l kvs where p: "upsert_pre t a h es ps fs ov ?k [] KEY_DELETED_FLAG path l kvs" "upsert_room ?k [] kvs"
    "inline_write ?k [] kvs" "\<forall>e \<in> set kvs. writeConflict (fst (ExtractMVCCKey ?k)) (snd (ExtractMVCCKey ?k)) (Some tm) (Key e) = None"
    "unat (currentLSN (wal t)) < 2 ^ 56"
    using assms(1) unfolding plain_write_def by blast
  have db: "db_ok t a h es ps fs ov" "descent (pview a) h (rootPageID t) ?k path l" using p(1) by (simp_all add: upsert_pre_def)
  have sz: "length (log_bytes rs) < 2 ^ 56" using p(5) assms(3) by (simp add: wal_holds_def)
  obtain t1 a1 fs1 ov1 kv ext r where d:
    "upsertCell ?k [] KEY_DELETED_FLAG (Some tm) t = Some (Inr (), (Some (SetLastLSN tm (snd (ExtractMVCCKey ?k)) (LSN r)), t1))"
    "db_ok t1 a1 h (put kv es) ps fs1 ov1" "Key kv = ?k" "\<forall>e. Key e \<noteq> ?k \<longrightarrow> ov1 e = ov e" "treeWal t1" "rootPageID t1 = rootPageID t"
    "\<And>k p ks. k \<in> set ps \<Longrightarrow> pview a k = Some p \<Longrightarrow> node_page p ks \<Longrightarrow> pview a1 k = Some p"
    "wal_holds (wal t1) ((rs @ ext) @ [r])" "PrevLSN r = GetLastLSN tm (snd (ExtractMVCCKey ?k))" "recKey r = ?k" "PageID r = l"
    "OpType r = (if KEY_DELETED_FLAG = KEY_DELETED_FLAG then LogOpDelete else LogOpInsert)"
    "length (log_bytes ((rs @ ext) @ [r])) \<le> length (log_bytes rs) + 70000" "recValue r = []"
    by (rule write_logged [OF p(1-4) assms(2,3) sz]) blast
  have op: "OpType r = LogOpDelete" using d(12) by simp
  let ?tm = "SetLastLSN tm w (LSN r)" and ?rs = "(rs @ ext) @ [r]" and ?kv = "NewKVCell 0 ?k []"
  have n: "rec_fits r" "LSN r \<noteq> 0" "ReadRecord (wal t1) (LSN r) = Some (Inr (r, of_nat (rec_size r)))"
    using d(8) wal_log.lsn_mono [OF d(8), of "length (rs @ ext)"] wal_holds_read [OF d(8), of "length (rs @ ext)"]
    by (auto simp: wal_holds_def)
  have "descent (pview a1) h (rootPageID t1) ?k path l"
    unfolding d(6) by (rule descent_frame [OF db_okD(4) [OF db(1)] _ _ db(2)]) (use d(7) in \<open>auto simp: in_range_def\<close>)
  then have dr: "descent (pview a1) h (rootPageID t1) (recKey r) path (PageID r)" by (simp add: d(10,11))
  have "rec_size r \<le> length (log_bytes ?rs)" by (simp add: length_log_bytes)
  then have s2: "length (log_bytes ?rs) + rec_size r + 4139 < 2 ^ 63" using d(13) sz by simp
  have kv: "kv \<in> set (put kv es)" "Key kv = recKey r" "?kv = NewKVCell 0 (recKey r) []" using d(3,10) by (simp_all add: set_put)
  obtain t2 a2 e2 where v: "undoRecord w r t1 = Some t2" "db_ok t2 a2 h (put ?kv (put kv es)) ps fs1 (ov1(?kv := ([], [])))" "treeWal t2"
    "wal_holds (wal t2) (?rs @ e2)" by (rule undoRecord_delete [OF d(2,5,8) op d(14) n(1) dr s2 kv, of w])
  have pr: "PrevLSN r = 0" using d(9) sw assms(4) by simp
  have "rollbackLoop w (LSN r) t1 = Some (Inr (), t2)"
    using n(2,3) d(5) v(1) pr by (subst rollbackLoop.simps) (simp add: rollbackLoop.simps [of w 0])
  moreover have "GetLastLSN ?tm w = LSN r" by (simp add: GetLastLSN_def SetLastLSN_def update_conv)
  ultimately have "rollbackLoop w (GetLastLSN ?tm w) t1 = Some (Inr (), t2)" by simp
  then obtain t3 where t3: "Rollback w ?tm t1 = Some (Inr (), (SetStatus (SetStatus ?tm w TXN_ROLLINGBACK) w TXN_ROLLEDBACK, t3))"
    "db_ok t3 a2 h (put ?kv (put kv es)) ps fs1 (ov1(?kv := ([], [])))"
    by (rule Rollback_end [OF _ v(2-4)])
  have srt: "sorted_wrt (<) (map Key es)" by (rule tree_sorted [OF db_okD(4) [OF db(1)]])
  have kk: "Key ?kv = ?k" "\<not> IsDeleted ?kv" by (simp_all add: NewKVCell_def IsDeleted_def)
  have fp: "find (\<lambda>e. Key e = x) (put ?kv (put kv es)) = (if x = ?k then Some ?kv else find (\<lambda>e. Key e = x) es)" for x
    using find_put [OF sorted_put [OF srt], of x ?kv kv] find_put [OF srt, of x kv] kk(1) d(3) by simp
  have "\<exists>t4. Find ?k t3 = Some (Inr [], t4)" using Find_ok [OF t3(2), of ?k] fp [of ?k] kk by (auto simp: find_result_def)
  moreover have "\<exists>r ta tb. Find x t = Some (r, ta) \<and> Find x t3 = Some (r, tb)" if "x \<noteq> ?k" for x
  proof -
    have "\<forall>e. Key e \<noteq> ?k \<longrightarrow> (ov1(?kv := ([], []))) e = ov e" using d(4) kk(1) by auto
    from find_result_other [OF this that, of es] show ?thesis
      using Find_ok [OF t3(2), of x] Find_ok [OF db(1), of x] fp [of x] that by (auto simp del: fun_upd_apply)
  qed
  ultimately show ?thesis using d(1) t3(1) sw unfolding Delete_def by auto
qed

theorem rolled_back_delete_leaves_empty_value_witness:
  "\<exists>tm1 t1 tm2 t2 t3 t4. Delete (BuildMVCCKey [107] 9) (Some NewTransactionManager) (one_leaf demo_leaf) = Some (Inr (), (Some tm1, t1)) \<and>
     Rollback 9 tm1 t1 = Some (Inr (), (tm2, t2)) \<and> Find (BuildMVCCKey [107] 9) t2 = Some (Inr [], t3) \<and>
     Find (BuildMVCCKey [107] 9) (one_leaf demo_leaf) = Some (Inl ErrKeyNotFound, t4)"
proof -
  let ?k = "BuildMVCCKey [107] 9" and ?tm = "NewTransactionManager" and ?t = "one_leaf demo_leaf"
  have pre: "upsert_pre ?t (abs_pool ?t) 0 [demo_cell] [1] [] (\<lambda>kv. ([], Value kv)) ?k [] KEY_DELETED_FLAG [] 1 [demo_cell]"
    by (rule demo_pre) (simp_all add: BuildMVCCKey_layout)
  have dc: "\<not> IsOverflow demo_cell" by (simp add: demo_cell_def NewKVCell_def IsOverflow_def)
  have c: "upsert_room ?k [] [demo_cell]" "inline_write ?k [] [demo_cell]"
    "\<forall>e \<in> set [demo_cell]. writeConflict (fst (ExtractMVCCKey ?k)) (snd (ExtractMVCCKey ?k)) (Some ?tm) (Key e) = None"
    by (simp_all add: upsert_room_def stored_len_def inline_write_def demo_size writeConflict_def dc) (simp_all add: BuildMVCCKey_layout)
  note w = demo_wal
  have "plain_write ?tm ?t ?k [] KEY_DELETED_FLAG"
    unfolding plain_write_def by (rule conjI, simp add: w(3)) (use pre c in blast)
  moreover have "GetLastLSN ?tm 9 = 0" by (simp add: GetLastLSN_def NewTransactionManager_def)
  moreover have "BigPutUint64 5 < BigPutUint64 9" unfolding BigPutUint64_less by simp
  then have "BigPutUint64 5 \<noteq> BigPutUint64 9" by auto
  then have "\<exists>t4. Find ?k ?t = Some (Inl ErrKeyNotFound, t4)"
    using Find_ok [OF demo_ok, of ?k] by (auto simp: find_result_def demo_size) (auto simp: BuildMVCCKey_layout)
  ultimately show ?thesis using rolled_back_delete_leaves_empty_value [of ?tm ?t "[107]" 9 "[]"] w(1,2) by blast
qed

end
