(* ===== verification/Recovery_Undo.thy ===== *)
theory Recovery_Undo
  imports Txn_Abort Recovery_Analysis
begin

text \<open>
  The undo pass of \<^verbatim>\<open>Recover\<close> (\<^verbatim>\<open>recovery.go\<close>): it takes up the transactions that were running at the crash, always the
  one with the greatest last LSN, and undoes their logged inserts. The proof follows the number of records
  left in the chains of all transactions of the table.
\<close>

section \<open>The transactions to undo\<close>

text \<open>The chains of the transactions in the table: \<open>ch x\<close> lists the records of x that its entry leads to.\<close>

definition losers :: "LogRecord list \<Rightarrow> att \<Rightarrow> (u64 \<Rightarrow> LogRecord list) \<Rightarrow> bool" where
  "losers rs att ch \<longleftrightarrow> (\<forall>x l. map_of att x = Some l \<longrightarrow> ch x \<noteq> [] \<and> undo_chain rs l (ch x))"

definition loser_records :: "att \<Rightarrow> (u64 \<Rightarrow> LogRecord list) \<Rightarrow> LogRecord set" where
  "loser_records att ch = (\<Union>x \<in> dom (map_of att). set (ch x))"

definition loser_bytes :: "att \<Rightarrow> (u64 \<Rightarrow> LogRecord list) \<Rightarrow> nat" where
  "loser_bytes att ch = (\<Sum>x \<in> dom (map_of att). undo_bytes (ch x) + 43)"

definition loser_count :: "att \<Rightarrow> (u64 \<Rightarrow> LogRecord list) \<Rightarrow> nat" where
  "loser_count att ch = (\<Sum>x \<in> dom (map_of att). length (ch x))"

lemma maxEntry_in:
  assumes "att \<noteq> []" "\<And>x l. (x, l) \<in> set att \<Longrightarrow> l \<noteq> 0"
  shows "maxEntry att \<in> set att"
proof -
  define f :: "u64 \<times> u64 \<Rightarrow> u64 \<times> u64 \<Rightarrow> u64 \<times> u64"
    where "f = (\<lambda>(txn, lsn) (maxTxn, maxLSN). if lsn > maxLSN then (txn, lsn) else (maxTxn, maxLSN))"
  have f: "f e m = e \<or> f e m = m" for e m by (auto simp: f_def split: prod.splits)
  have "fold f as m \<in> insert m (set as)" for as m
  proof (induction as arbitrary: m)
    case (Cons e as)
    from Cons.IH [of "f e m"] f [of e m] show ?case by auto
  qed simp
  moreover obtain x l as where a: "att = (x, l) # as" using assms(1) by (cases att) auto
  moreover have "f (x, l) (0, 0) = (x, l)" using assms(2) [of x l] a by (simp add: f_def word_neq_0_conv)
  ultimately show ?thesis unfolding maxEntry_def f_def [symmetric] by (metis fold_simps(2) list.simps(15))
qed

lemma undo_chain_lsn:
  assumes "wal_holds w rs" "undo_chain rs l cs"
  shows "l = 0 \<longleftrightarrow> cs = []"
proof (cases cs)
  case (Cons r cs')
  then obtain i where i: "i < length rs" "rs ! i = r" "l = LSN r" using assms(2) by (auto simp: in_set_conv_nth)
  then show ?thesis using Cons lsns_from_nth [of 4 rs i] assms(1) by (auto simp: wal_holds_def)
qed (use assms(2) in simp)

lemma dropAppend_abort:
  fixes t :: BTree
  assumes "db_ok t a h es ps fs ov" "wal_holds (wal t) rs" "length (log_bytes rs) + 43 < 2 ^ 63"
  obtains t' r where "snd (dropAppend x 0 0 LogOpAbort [] [] t) = t'" "db_ok t' a h es ps fs ov" "wal_holds (wal t') (rs @ [r])"
    "length (log_bytes (rs @ [r])) = length (log_bytes rs) + 43" "rootPageID t' = rootPageID t" "treeWal t' = treeWal t"
proof -
  let ?A = "Append (wal t) x 0 0 LogOpAbort [] []"
  let ?r = "\<lparr>LSN = currentLSN (wal t), TxnID = x, PrevLSN = 0, PageID = 0, OpType = LogOpAbort, recKey = [], recValue = []\<rparr>"
  have s: "rec_size ?r = 43" "rec_fits ?r" by (simp_all add: rec_size_def rec_fits_def)
  have w: "wal_holds (snd ?A) (rs @ [?r])" by (rule Append_holds(2) [OF assms(2) refl s(2)]) (use s assms(3) in simp)
  have "snd (dropAppend x 0 0 LogOpAbort [] [] t) = t\<lparr>wal := snd ?A\<rparr>" by (auto simp: dropAppend_def split: prod.split sum.split)
  moreover have "db_ok (t\<lparr>wal := snd ?A\<rparr>) a h es ps fs ov"
    by (rule db_ok_wal [OF assms(1)]) (use w assms(2) in \<open>simp_all add: wal_holds_def\<close>)
  ultimately show ?thesis using that w s(1) by (simp add: length_log_bytes)
qed

lemma losers_mono: "losers rs att ch \<Longrightarrow> losers (rs @ ext) att ch"
  using undo_chain_mono unfolding losers_def by blast

text \<open>One entry shrinks, or leaves the table.\<close>

lemma sum_entry: "finite D \<Longrightarrow> x \<in> D \<Longrightarrow> (\<Sum>y \<in> D. f y) = f x + (\<Sum>y \<in> D - {x}. f y)" for f :: "'a \<Rightarrow> nat"
  by (rule sum.remove)

lemma loser_step:
  assumes "map_of att x = Some l" "ch x = r # cs" "cs \<noteq> []"
  defines "att' \<equiv> AList.update x (PrevLSN r) att" and "ch' \<equiv> ch(x := cs)"
  shows "loser_count att ch = Suc (loser_count att' ch')" "loser_bytes att ch = loser_bytes att' ch' + rec_size r + 4139"
    "loser_records att ch = insert r (loser_records att' ch')"
proof -
  let ?D = "dom (map_of att)"
  have x: "x \<in> ?D" "finite ?D" "dom (map_of att') = ?D" using assms(1) by (auto simp: att'_def update_conv finite_dom_map_of split: if_splits)
  show "loser_count att ch = Suc (loser_count att' ch')"
    unfolding loser_count_def x(3) sum_entry [OF x(2,1)] using assms(2) by (simp add: ch'_def)
  show "loser_bytes att ch = loser_bytes att' ch' + rec_size r + 4139"
    unfolding loser_bytes_def x(3) sum_entry [OF x(2,1)] using assms(2) by (simp add: ch'_def undo_bytes_def)
  have "set (ch y) = (if y = x then insert r (set (ch' y)) else set (ch' y))" for y using assms(2) by (simp add: ch'_def)
  then show "loser_records att ch = insert r (loser_records att' ch')"
    unfolding loser_records_def x(3) using x(1) by auto
qed

lemma loser_gone:
  assumes "map_of att x = Some l" "ch x = [r]"
  defines "att' \<equiv> AList.delete x att"
  shows "loser_count att ch = Suc (loser_count att' ch)" "loser_bytes att ch = loser_bytes att' ch + rec_size r + 4139 + 43"
    "loser_records att ch = insert r (loser_records att' ch)"
proof -
  let ?D = "dom (map_of att)"
  have x: "x \<in> ?D" "finite ?D" "dom (map_of att') = ?D - {x}" using assms(1) by (auto simp: att'_def delete_conv finite_dom_map_of split: if_splits)
  show "loser_count att ch = Suc (loser_count att' ch)"
    unfolding loser_count_def x(3) sum_entry [OF x(2,1)] using assms(2) by simp
  show "loser_bytes att ch = loser_bytes att' ch + rec_size r + 4139 + 43"
    unfolding loser_bytes_def x(3) sum_entry [OF x(2,1)] using assms(2) by (simp add: undo_bytes_def)
  show "loser_records att ch = insert r (loser_records att' ch)"
    unfolding loser_records_def x(3) using x(1) assms(2) by auto
qed

section \<open>The undo pass\<close>

text \<open>The state of the pass: a consistent database whose log leads to the records of the transactions.\<close>

definition undo_state ::
  "LogRecord list \<Rightarrow> att \<Rightarrow> (u64 \<Rightarrow> LogRecord list) \<Rightarrow> BTree \<Rightarrow> _ pool \<Rightarrow> nat \<Rightarrow> KVCell list \<Rightarrow> u32 list \<Rightarrow> u32 list \<Rightarrow>
   (KVCell \<Rightarrow> u32 list \<times> bytes) \<Rightarrow> bool" where
  "undo_state rs att ch t a h es ps fs ov \<longleftrightarrow> losers rs att ch \<and> distinct (map fst att) \<and> db_ok t a h es ps fs ov \<and> treeWal t \<and>
     wal_holds (wal t) rs \<and> (\<forall>r \<in> loser_records att ch. logged_insert (pview a) h (rootPageID t) r) \<and>
     length (log_bytes rs) + loser_bytes att ch < 2 ^ 63"

lemma undo_entry:
  assumes st: "undo_state rs att ch t a h es ps fs ov" and ne: "att \<noteq> []"
  obtains x r cs t1 a1 e1 where "map_of att x = Some (LSN r)" "ch x = r # cs" "undo_chain rs (PrevLSN r) cs" "PrevLSN r = 0 \<longleftrightarrow> cs = []"
    "undoPhase att t = (if PrevLSN r = 0 then undoPhase (AList.delete x att) (snd (dropAppend x 0 0 LogOpAbort [] [] t1))
        else undoPhase (AList.update x (PrevLSN r) att) t1)"
    "db_ok t1 a1 h (filter (\<lambda>e. Key e \<noteq> recKey r) es) ps fs ov" "treeWal t1" "wal_holds (wal t1) (rs @ e1)"
    "length (log_bytes (rs @ e1)) \<le> length (log_bytes rs) + rec_size r + 4139"
    "\<And>q. q \<in> loser_records att ch \<Longrightarrow> logged_insert (pview a1) h (rootPageID t1) q"
proof -
  have s: "losers rs att ch" "distinct (map fst att)" "db_ok t a h es ps fs ov" "treeWal t" "wal_holds (wal t) rs"
    "\<And>r. r \<in> loser_records att ch \<Longrightarrow> logged_insert (pview a) h (rootPageID t) r" "length (log_bytes rs) + loser_bytes att ch < 2 ^ 63"
    using st by (simp_all add: undo_state_def)
  have ent: "map_of att x = Some l \<longleftrightarrow> (x, l) \<in> set att" for x l using s(2) by simp
  have chn: "ch x \<noteq> []" "undo_chain rs l (ch x)" if "map_of att x = Some l" for x l using s(1) that by (auto simp: losers_def)
  have nz: "l \<noteq> 0" if "map_of att x = Some l" for x l using undo_chain_lsn [OF s(5) chn(2) [OF that]] chn(1) [OF that] by simp
  obtain x l where m: "maxEntry att = (x, l)" by (cases "maxEntry att")
  have xl: "map_of att x = Some l" using maxEntry_in [OF ne] nz m ent by metis
  obtain r cs where ch: "ch x = r # cs" using chn(1) [OF xl] by (cases "ch x") auto
  have c: "l = LSN r" "r \<in> set rs" "undo_chain rs (PrevLSN r) cs" using chn(2) [OF xl] by (simp_all add: ch)
  obtain i where i: "i < length rs" "rs ! i = r" using c(2) by (metis in_set_conv_nth)
  have rd: "ReadRecord (wal t) l = Some (Inr (r, of_nat (rec_size r)))" using wal_holds_read [OF s(5) i(1)] i(2) c(1) by simp
  have fits: "rec_fits r" using s(5) c(2) by (simp add: wal_holds_def list_all_iff)
  have "r \<in> loser_records att ch" using xl ch by (force simp: loser_records_def)
  then obtain path where lg: "OpType r = LogOpInsert" "descent (pview a) h (rootPageID t) (recKey r) path (PageID r)"
    using s(6) by (auto simp: logged_insert_def)
  have sz: "length (log_bytes rs) + rec_size r + 4139 < 2 ^ 63"
    using s(7) loser_gone(2) [OF xl, of ch r] loser_step(2) [where ch = ch, OF xl ch] ch by (cases "cs = []") simp_all
  obtain t1 a1 e1 where u: "undoRecord x r t = Some t1" "db_ok t1 a1 h (filter (\<lambda>e. Key e \<noteq> recKey r) es) ps fs ov"
    "treeWal t1" "rootPageID t1 = rootPageID t" "wal_holds (wal t1) (rs @ e1)"
    "length (log_bytes (rs @ e1)) \<le> length (log_bytes rs) + rec_size r + 4139"
    "\<And>k p ks. k \<in> set ps \<Longrightarrow> pview a k = Some p \<Longrightarrow> node_page p ks \<Longrightarrow> pview a1 k = Some p"
    by (rule undoRecord_ok [OF s(3-5) lg(1) fits lg(2) sz]) blast
  have df: "descent (pview a1) h (rootPageID t) k pth m" if d: "descent (pview a) h (rootPageID t) k pth m" for k pth m
    by (rule descent_frame [OF db_okD(4) [OF s(3)] _ _ d]) (use u(7) in \<open>auto simp: in_range_def\<close>)
  have lg': "logged_insert (pview a1) h (rootPageID t1) q" if "q \<in> loser_records att ch" for q
    using s(6) [OF that] df unfolding logged_insert_def u(4) by auto
  have run: "undoPhase att t = (if PrevLSN r = 0 then undoPhase (AList.delete x att) (snd (dropAppend x 0 0 LogOpAbort [] [] t1))
      else undoPhase (AList.update x (PrevLSN r) att) t1)"
    using ne m nz [OF xl] rd u(1) by (subst undoPhase.simps) simp
  show ?thesis
    by (rule that [OF xl [unfolded c(1)] ch c(3) undo_chain_lsn [OF s(5) c(3)] run u(2,3,5,6) lg'])
qed

lemma undoPhase_ok:
  assumes "undo_state rs att ch t a h es ps fs ov"
  shows "\<exists>t' a'. undoPhase att t = Some t' \<and> db_ok t' a' h (filter (\<lambda>e. Key e \<notin> recKey ` loser_records att ch) es) ps fs ov"
  using assms
proof (induction "loser_count att ch" arbitrary: att ch rs t a es rule: less_induct)
  case less
  have s: "losers rs att ch" "distinct (map fst att)" "db_ok t a h es ps fs ov" "length (log_bytes rs) + loser_bytes att ch < 2 ^ 63"
    using less.prems by (simp_all add: undo_state_def)
  show ?case
  proof (cases "att = []")
    case True
    then show ?thesis using s(3) by (subst undoPhase.simps) (auto simp: loser_records_def)
  next
    case False
    obtain x r cs t1 a1 e1 where u: "map_of att x = Some (LSN r)" "ch x = r # cs" "undo_chain rs (PrevLSN r) cs" "PrevLSN r = 0 \<longleftrightarrow> cs = []"
      "undoPhase att t = (if PrevLSN r = 0 then undoPhase (AList.delete x att) (snd (dropAppend x 0 0 LogOpAbort [] [] t1))
        else undoPhase (AList.update x (PrevLSN r) att) t1)"
      "db_ok t1 a1 h (filter (\<lambda>e. Key e \<noteq> recKey r) es) ps fs ov" "treeWal t1" "wal_holds (wal t1) (rs @ e1)"
      "length (log_bytes (rs @ e1)) \<le> length (log_bytes rs) + rec_size r + 4139"
      "\<And>q. q \<in> loser_records att ch \<Longrightarrow> logged_insert (pview a1) h (rootPageID t1) q"
      by (rule undo_entry [OF less.prems False]) blast
    have keys: "filter (\<lambda>e. Key e \<notin> recKey ` R) (filter (\<lambda>e. Key e \<noteq> recKey r) es) = filter (\<lambda>e. Key e \<notin> recKey ` insert r R) es" for R
      by (auto intro!: filter_cong)
    show ?thesis
    proof (cases "cs = []")
      case True
      note g = loser_gone [OF u(1), of ch r, unfolded u(2) True, OF refl]
      obtain t2 q where ab: "snd (dropAppend x 0 0 LogOpAbort [] [] t1) = t2" "db_ok t2 a1 h (filter (\<lambda>e. Key e \<noteq> recKey r) es) ps fs ov"
        "wal_holds (wal t2) ((rs @ e1) @ [q])" "length (log_bytes ((rs @ e1) @ [q])) = length (log_bytes (rs @ e1)) + 43"
        "rootPageID t2 = rootPageID t1" "treeWal t2 = treeWal t1"
        by (rule dropAppend_abort [OF u(6,8)]) (use u(9) g(2) s(4) in simp)
      have ls: "losers ((rs @ e1) @ [q]) (AList.delete x att) ch"
        by (intro losers_mono) (use s(1) in \<open>auto simp: losers_def delete_conv split: if_splits\<close>)
      have "undo_state ((rs @ e1) @ [q]) (AList.delete x att) ch t2 a1 h (filter (\<lambda>e. Key e \<noteq> recKey r) es) ps fs ov"
        unfolding undo_state_def using ls ab(2-6) u(7,9,10) g(2,3) s(2,4) by (simp add: distinct_delete)
      from less.hyps [OF _ this] show ?thesis using g(1,3) u(4,5) ab(1) True keys by simp
    next
      case cs: False
      let ?att = "AList.update x (PrevLSN r) att" and ?ch = "ch(x := cs)"
      note g = loser_step [where ch = ch, OF u(1,2) cs]
      have ls: "losers (rs @ e1) ?att ?ch"
        by (intro losers_mono) (use s(1) cs u(3) in \<open>auto simp: losers_def update_conv split: if_splits\<close>)
      have "undo_state (rs @ e1) ?att ?ch t1 a1 h (filter (\<lambda>e. Key e \<noteq> recKey r) es) ps fs ov"
        unfolding undo_state_def using ls u(6-10) g(2,3) s(2,4) by (simp add: distinct_update)
      from less.hyps [OF _ this] show ?thesis using g(1,3) u(4,5) cs keys by simp
    qed
  qed
qed

section \<open>Properties of the undo pass\<close>

text \<open>C13: The undo pass of recovery ends and removes exactly the logged inserts of the unfinished transactions, when these
  have logged nothing but inserts and no split has moved the keys since. On a consistent database, when every transaction in
  the table leads back through its log records, all of them inserts and each logged against the leaf that still covers its key, undoPhase
  terminates whatever the order in which it takes the transactions up, and leaves a consistent database in which
  Find of a key of such a record reports "key not found" and Find of every other key returns what it did before.\<close>

theorem undo_pass_removes_losers:
  assumes "undo_state rs att ch t a h es ps fs ov"
  shows "\<exists>t' a'. undoPhase att t = Some t' \<and> db_ok t' a' h (filter (\<lambda>e. Key e \<notin> recKey ` loser_records att ch) es) ps fs ov \<and>
    (\<forall>k \<in> recKey ` loser_records att ch. \<exists>t2. Find k t' = Some (Inl ErrKeyNotFound, t2)) \<and>
    (\<forall>k. k \<notin> recKey ` loser_records att ch \<longrightarrow> (\<exists>r t1 t2. Find k t = Some (r, t1) \<and> Find k t' = Some (r, t2)))"
proof -
  let ?K = "recKey ` loser_records att ch"
  have db: "db_ok t a h es ps fs ov" using assms by (simp add: undo_state_def)
  obtain t' a' where u: "undoPhase att t = Some t'" "db_ok t' a' h (filter (\<lambda>e. Key e \<notin> ?K) es) ps fs ov"
    using undoPhase_ok [OF assms] by blast
  have "\<exists>t2. Find k t' = Some (Inl ErrKeyNotFound, t2)" if "k \<in> ?K" for k
    using Find_ok [OF u(2), of k] find_filter_key [of k ?K es] that by (auto simp: find_result_def)
  moreover have "\<exists>r t1 t2. Find k t = Some (r, t1) \<and> Find k t' = Some (r, t2)" if "k \<notin> ?K" for k
    using Find_ok [OF u(2), of k] Find_ok [OF db, of k] find_filter_key [of k ?K es] that by auto
  ultimately show ?thesis using u by blast
qed

theorem undo_pass_removes_losers_witness:
  "\<exists>(t :: BTree) l t' t1 t2. Find (BuildMVCCKey [107] 5) t = Some (Inr [118], t1) \<and> undoPhase [(5, l)] t = Some t' \<and>
     Find (BuildMVCCKey [107] 5) t' = Some (Inl ErrKeyNotFound, t2)"
proof -
  let ?k = "BuildMVCCKey [107] 5" and ?w = "NewWAL None"
  let ?A = "Append ?w 5 1 0 LogOpInsert ?k [118]"
  let ?r = "\<lparr>LSN = currentLSN ?w, TxnID = 5, PrevLSN = 0, PageID = 1, OpType = LogOpInsert, recKey = ?k, recValue = [118]\<rparr>"
  let ?t = "(one_leaf demo_leaf)\<lparr>wal := snd ?A\<rparr>" and ?att = "[(5, currentLSN ?w)] :: att"
  have fits: "rec_fits ?r" "rec_size ?r = 54" by (simp_all add: rec_fits_def rec_size_def BuildMVCCKey_layout)
  have lb: "length (log_bytes []) = 4" by (simp add: length_log_bytes)
  have w: "wal_holds (snd ?A) [?r]"
    using Append_holds(2) [OF NewWAL_holds refl fits(1)] fits(2) lb by simp
  have op: "fopen (wfile (snd ?A))" "fopen (wfile (wal (one_leaf demo_leaf)))"
    using w NewWAL_holds by (simp_all add: wal_holds_def) (simp add: one_leaf_def NewBufferManager_def BufferManager.defs)
  have db: "db_ok ?t (abs_pool (one_leaf demo_leaf)) 0 [demo_cell] [1] [] (\<lambda>kv. ([], Value kv))" by (rule db_ok_wal [OF demo_ok op])
  have tr: "treeWal ?t" "rootPageID ?t = 1" by (simp_all add: one_leaf_def BufferManager.defs BTree.defs)
  have lr: "loser_records ?att (\<lambda>_. [?r]) = {?r}" "loser_bytes ?att (\<lambda>_. [?r]) = 4236"
    using fits(2) by (simp_all add: loser_records_def loser_bytes_def undo_bytes_def)
  have "undo_state [?r] ?att (\<lambda>_. [?r]) ?t (abs_pool (one_leaf demo_leaf)) 0 [demo_cell] [1] [] (\<lambda>kv. ([], Value kv))"
    unfolding undo_state_def lr using db w tr fits(2) by (simp add: losers_def logged_insert_def length_log_bytes)
  from undo_pass_removes_losers [OF this] obtain t' t2 where u: "undoPhase ?att ?t = Some t'" "Find ?k t' = Some (Inl ErrKeyNotFound, t2)"
    unfolding lr by auto
  have "\<exists>t1. Find ?k ?t = Some (Inr [118], t1)"
    using Find_ok [OF db, of ?k] by (auto simp: find_result_def demo_size) (auto simp: demo_cell_def NewKVCell_def IsDeleted_def)
  then show ?thesis using u by blast
qed
end
