(* ===== verification/Recovery_Redo.thy ===== *)
theory Recovery_Redo
  imports Txn_Abort Recovery_Analysis Fresh_Database
begin

text \<open>
  The redo pass of \<^verbatim>\<open>Recover\<close> in \<^verbatim>\<open>recovery.go\<close>. \<open>missing dpt rs i p\<close> are the records of the log rs that the page p with
  number i lacks, by the dirty page table and by the LSN of the page; \<open>replay_page\<close> applies records to a page. \<open>redo_pass\<close>
  shows that the pass ends and does to every page exactly this, through whatever evictions the pool needs; \<open>replay_image\<close> what that
  makes of a leaf whose image is in the log.
\<close>

section \<open>A pool without pins\<close>

text \<open>The pool as recovery finds and leaves it: logging is off, no frame is latched, and a clean frame is what the file holds.\<close>

definition idle_pool :: "'a BufferManager_scheme \<Rightarrow> bool" where
  "idle_pool bm \<longleftrightarrow> wf_bm bm \<and> \<not> bmWal bm \<and> 0 < maxSize bm \<and>
     (\<forall>i fr. frame_at bm i = Some fr \<longrightarrow> Latch fr = LFree \<and> (IsDirty fr \<or> disk_page (pager bm) i = Some (fPage fr)))"

lemma idle_frame:
  assumes "idle_pool bm" "frame_at bm i = Some fr"
  shows "Latch fr = LFree" "PinCount fr = 0" "length (fPage fr) = PageSize" "disk_page (pager bm) i \<noteq> None"
    "IsDirty fr \<or> disk_page (pager bm) i = Some (fPage fr)"
proof -
  have "frame_ok (pager bm) i fr" using assms by (simp add: idle_pool_def wf_bm_def)
  moreover show "Latch fr = LFree" "IsDirty fr \<or> disk_page (pager bm) i = Some (fPage fr)" using assms by (auto simp: idle_pool_def)
  ultimately show "PinCount fr = 0" "length (fPage fr) = PageSize" "disk_page (pager bm) i \<noteq> None"
    by (auto simp: frame_ok_def unat_eq_zero)
qed

lemma idle_set_frame:
  assumes "idle_pool bm" "frame_at bm i \<noteq> None \<or> length (pageTable bm) < maxSize bm" "length (fPage fr) = PageSize"
    and "PinCount fr = 0" "Latch fr = LFree" "disk_page (pager bm) i \<noteq> None" "IsDirty fr \<or> disk_page (pager bm) i = Some (fPage fr)"
  shows "idle_pool (set_frame i fr bm)" "content (set_frame i fr bm) = (content bm)(i \<mapsto> fPage fr)"
proof -
  have "frame_ok (pager bm) i fr" using assms(3-7) by (auto simp: frame_ok_def frame_clean_def)
  then have "wf_bm (set_frame i fr bm)" using wf_set_frame [of bm i fr] assms(1,2) by (simp add: idle_pool_def)
  then show "idle_pool (set_frame i fr bm)" using assms by (auto simp: idle_pool_def)
  show "content (set_frame i fr bm) = (content bm)(i \<mapsto> fPage fr)" by (auto simp: content_def fun_eq_iff split: option.splits)
qed

lemma idle_evict:
  assumes "idle_pool bm" "length (pageTable bm) = maxSize bm"
  obtains bm' where "evict bm = (Inr (), bm')" "idle_pool bm'" "content bm' = content bm" "wal bm' = wal bm"
    "BufferManager.more bm' = BufferManager.more bm" "length (pageTable bm') < maxSize bm'"
proof -
  have wf: "wf_bm bm" "0 < maxSize bm" using assms(1) by (simp_all add: idle_pool_def)
  have np: "\<not> all_pinned bm"
  proof -
    obtain i fr tl where "pageTable bm = (i, fr) # tl" using assms(2) wf(2) by (cases "pageTable bm") auto
    then have "frame_at bm i = Some fr" by (simp add: frame_at_def)
    then show ?thesis using idle_frame(2) [OF assms(1)] by (auto simp: all_pinned_def)
  qed
  obtain bm' v fr where e: "evict bm = (Inr (), bm')" "wf_bm bm'" "abs_pool bm' = abs_pool bm"
    "Suc (length (pageTable bm')) = length (pageTable bm)" "frame_at bm v = Some fr"
    "\<And>j. frame_at bm' j = (if j = v then None else frame_at bm j)" "wal bm' = wal bm"
    "\<And>j. disk_page (pager bm') j = (if j = v \<and> IsDirty fr then Some (fPage fr) else disk_page (pager bm) j)"
    by (rule evict_ok [OF wf(1) np]) blast
  have s: "bmWal bm' = bmWal bm" "maxSize bm' = maxSize bm" "BufferManager.more bm' = BufferManager.more bm"
    using arg_cong [OF e(3), of plog] arg_cong [OF e(3), of pcap] arg_cong [OF e(3), of pmore] by simp_all
  have "content bm' j = content bm j" for j
    using e(5,6,8) idle_frame(5) [OF assms(1) e(5)] by (auto simp: content_def split: option.splits)
  moreover have "idle_pool bm'" using assms(1) e(2,6,8) s by (auto simp: idle_pool_def)
  ultimately show ?thesis using that e(1,4,7) s assms(2) by (simp add: fun_eq_iff)
qed

lemma idle_fetch:
  assumes "idle_pool bm" "content bm i = Some p"
  obtains b fr where "getFrame i m bm = (Inr fr, set_frame i fr b)" "idle_pool b" "content b = content bm" "wal b = wal bm"
    "BufferManager.more b = BufferManager.more bm"
    "frame_at b i \<noteq> None \<or> length (pageTable b) < maxSize b" "fPage fr = p" "PinCount fr = 1" "Latch fr = LFree" "length p = PageSize"
    "disk_page (pager b) i \<noteq> None" "IsDirty fr \<or> disk_page (pager b) i = Some p"
proof (cases "frame_at bm i")
  case (Some fr)
  then have "fPage fr = p" using assms(2) by (simp add: content_def)
  then show ?thesis
    using that [of "fr\<lparr>PinCount := PinCount fr + 1\<rparr>" bm] idle_frame [OF assms(1) Some] Some assms(1) by (simp add: getFrame_def Let_def)
next
  case None
  obtain b where b: "(if length (pageTable bm) \<ge> maxSize bm then evict bm else (Inr (), bm)) = (Inr (), b)" "idle_pool b"
    "content b = content bm" "wal b = wal bm" "BufferManager.more b = BufferManager.more bm" "length (pageTable b) < maxSize b" "frame_at b i = None"
  proof (cases "length (pageTable bm) \<ge> maxSize bm")
    case True
    then have l: "length (pageTable bm) = maxSize bm" using assms(1) by (simp add: idle_pool_def wf_bm_def)
    obtain b where b: "evict bm = (Inr (), b)" "idle_pool b" "content b = content bm" "wal b = wal bm"
      "BufferManager.more b = BufferManager.more bm" "length (pageTable b) < maxSize b"
      by (rule idle_evict [OF assms(1) l])
    have "frame_at b i = None"
      using b(1) None by (auto simp: evict_def Let_def frame_at_def delete_conv split: option.splits if_splits sum.splits prod.splits)
    then show ?thesis using that True b by simp
  next
    case False
    then show ?thesis using that [of bm] assms(1) None by simp
  qed
  have d: "disk_page (pager b) i = Some p" using b(3,7) assms(2) by (metis content_def option.case(1))
  have op: "fopen (pager b)" using b(2) by (simp add: idle_pool_def wf_bm_def)
  let ?fr = "\<lparr>fPage = p, IsDirty = False, PinCount = 1, ReferenceBits = 0, Latch = LFree, RecLSN = 0\<rparr>"
  have "ReadPage (pager b) i (NewPage m) = Inr p" using d op by (simp add: ReadPage_disk)
  then have "getFrame i m bm = (Inr ?fr, set_frame i ?fr b)" using None b(1) by (simp add: getFrame_def Let_def)
  moreover have "length p = PageSize" using d by (auto simp: disk_page_def split: if_splits)
  ultimately show ?thesis using that [of ?fr b] b d by simp
qed

section \<open>Redoing one record\<close>

text \<open>A record is due when its page is in the dirty page table under an LSN not above that of the record.\<close>

definition due :: "dpt \<Rightarrow> LogRecord \<Rightarrow> bool" where
  "due dpt r \<longleftrightarrow> (\<exists>l. map_of dpt (PageID r) = Some l \<and> l \<le> LSN r)"

text \<open>What the log says about a page: the change of one record, and the changes of records in their order.\<close>

definition redo_change :: "LogRecord \<Rightarrow> page \<Rightarrow> page option" where
  "redo_change r p =
     (if OpType r = LogOpFullPage then Some (blit p 0 (recValue r))
      else if OpType r = LogOpInsert \<or> OpType r = LogOpDelete then redoUpsertOnPage p (recKey r) (recValue r) (OpType r)
      else Some p)"

fun replay_page :: "LogRecord list \<Rightarrow> page \<Rightarrow> page option" where
  "replay_page [] p = Some p"
| "replay_page (r # rs) p = do { q \<leftarrow> redo_change r p; replay_page rs (SetLSN q (LSN r)) }"

lemma Page_Insert_length: "Page_Insert p c = Some (r, p') \<Longrightarrow> length p' = length p"
  by (auto simp: Page_Insert_def Let_def split: if_splits bind_splits)

lemma each_Insert_length: "each Page_Insert p cs = Some p' \<Longrightarrow> length p' = length p"
  by (induction cs arbitrary: p) (auto split: bind_splits dest: Page_Insert_length)

lemma redo_change_length: "redo_change r p = Some q \<Longrightarrow> length q = length p"
  by (auto simp: redo_change_def redoUpsertOnPage_def Let_def split: if_splits bind_splits dest!: each_Insert_length)

lemma redoRecord_skip: "\<not> due dpt r \<Longrightarrow> redoRecord dpt r t = Some (Inr (), t)"
  by (auto simp: redoRecord_def due_def split: option.split)

lemma redoRecord_due:
  assumes "idle_pool t" "due dpt r" "content t (PageID r) = Some p" "LSN r \<noteq> 0"
    and q: "if LSN r \<le> GetLSN p then q = p else \<exists>c. redo_change r p = Some c \<and> q = SetLSN c (LSN r)"
  obtains t' where "redoRecord dpt r t = Some (Inr (), t')" "idle_pool t'" "content t' = (content t)(PageID r \<mapsto> q)" "wal t' = wal t"
    "BufferManager.more t' = BufferManager.more t"
proof -
  let ?i = "PageID r"
  obtain b fr where f: "getFrame ?i PageTypeLeaf t = (Inr fr, set_frame ?i fr b)" "idle_pool b" "content b = content t" "wal b = wal t"
    "BufferManager.more b = BufferManager.more t"
    "frame_at b ?i \<noteq> None \<or> length (pageTable b) < maxSize b" "fPage fr = p" "PinCount fr = 1" "Latch fr = LFree" "length p = PageSize"
    "disk_page (pager b) ?i \<noteq> None" "IsDirty fr \<or> disk_page (pager b) ?i = Some p"
    by (rule idle_fetch [OF assms(1,3)])
  let ?fr = "fr\<lparr>Latch := LWrite\<rparr>"
  have w: "FetchPageForWrite ?i PageTypeLeaf t = Some (Inr p, set_frame ?i ?fr b)"
    using f(1,2,7,9) by (simp add: FetchPageForWrite_def idle_pool_def)
  obtain l where l: "map_of dpt ?i = Some l" "\<not> LSN r < l" using assms(2) by (auto simp: due_def)
  show ?thesis
  proof (cases "LSN r \<le> GetLSN p")
    case True
    let ?fr' = "fr\<lparr>PinCount := 0\<rparr>"
    have "dropUnpin ?i False True (set_frame ?i ?fr b) = Some (set_frame ?i (?fr'\<lparr>Latch := LFree\<rparr>) b)"
      using f(8) by (simp add: dropUnpin_def UnpinPage_def)
    then have "redoRecord dpt r t = Some (Inr (), set_frame ?i (?fr'\<lparr>Latch := LFree\<rparr>) b)"
      using w l True assms(4) by (simp add: redoRecord_def)
    moreover note idle_set_frame [OF f(2,6), of "?fr'\<lparr>Latch := LFree\<rparr>"]
    ultimately show ?thesis using that f q True by simp
  next
    case False
    then obtain c where c: "redo_change r p = Some c" "q = SetLSN c (LSN r)" using q by auto
    let ?fr' = "fr\<lparr>fPage := q, PinCount := 0, IsDirty := True\<rparr>"
    have u: "dropUnpin ?i True True (putPage ?i q (set_frame ?i ?fr b)) = Some (set_frame ?i (?fr'\<lparr>Latch := LFree\<rparr>) b)"
      using f(8) by (simp add: dropUnpin_def UnpinPage_def putPage_def)
    have "redoRecord dpt r t = Some (Inr (), set_frame ?i (?fr'\<lparr>Latch := LFree\<rparr>) b)"
      using w l False c(1) u [unfolded c(2)] by (auto simp: redoRecord_def redo_change_def c(2))
    moreover note idle_set_frame [OF f(2,6), of "?fr'\<lparr>Latch := LFree\<rparr>"]
    moreover have "length q = PageSize" using redo_change_length [OF c(1)] f(10) c(2) by simp
    ultimately show ?thesis using that f by simp
  qed
qed

section \<open>The pass\<close>

text \<open>The records that the page p with number i lacks: they are due and newer than the page.\<close>

definition missing :: "dpt \<Rightarrow> LogRecord list \<Rightarrow> u32 \<Rightarrow> page \<Rightarrow> LogRecord list" where
  "missing dpt rs i p = filter (\<lambda>r. PageID r = i \<and> due dpt r \<and> GetLSN p < LSN r) rs"

lemma redo_step:
  assumes "idle_pool t" "LSN r \<noteq> 0" "\<And>x. x \<in> set rs \<Longrightarrow> LSN r < LSN x"
    and "due dpt r \<Longrightarrow> \<exists>p q. content t (PageID r) = Some p \<and> replay_page (missing dpt (r # rs) (PageID r) p) p = Some q"
  obtains t1 where "redoRecord dpt r t = Some (Inr (), t1)" "idle_pool t1" "wal t1 = wal t" "BufferManager.more t1 = BufferManager.more t"
    "\<And>i. Option.bind (content t1 i) (\<lambda>p. replay_page (missing dpt rs i p) p) =
       Option.bind (content t i) (\<lambda>p. replay_page (missing dpt (r # rs) i p) p)"
proof (cases "due dpt r")
  case False
  then show ?thesis using that [of t] assms(1) redoRecord_skip [OF False, of t] by (simp add: missing_def)
next
  case True
  let ?i = "PageID r"
  obtain p q where p: "content t ?i = Some p" "replay_page (missing dpt (r # rs) ?i p) p = Some q"
    using assms(4) True by blast
  show ?thesis
  proof (cases "LSN r \<le> GetLSN p")
    case old: True
    then obtain t1 where r: "redoRecord dpt r t = Some (Inr (), t1)" "idle_pool t1" "content t1 = (content t)(?i \<mapsto> p)" "wal t1 = wal t"
      "BufferManager.more t1 = BufferManager.more t"
      using redoRecord_due [OF assms(1) True p(1) assms(2), of p] by auto
    have "missing dpt (r # rs) i x = missing dpt rs i x" if "content t i = Some x" for i x
      using old p(1) that by (auto simp: missing_def)
    moreover have c1: "content t1 = content t" using p(1) r(3) by (simp add: fun_upd_idem)
    ultimately have "Option.bind (content t1 i) (\<lambda>p. replay_page (missing dpt rs i p) p) =
        Option.bind (content t i) (\<lambda>p. replay_page (missing dpt (r # rs) i p) p)" for i
      by (cases "content t i") simp_all
    then show ?thesis using that [of t1] r(1,2,4,5) c1 by simp
  next
    case False
    then have m: "missing dpt (r # rs) ?i p = r # missing dpt rs ?i p" using True by (simp add: missing_def)
    obtain c where c: "redo_change r p = Some c" using p(2) by (auto simp: m split: bind_splits)
    let ?q = "SetLSN c (LSN r)"
    obtain t1 where r: "redoRecord dpt r t = Some (Inr (), t1)" "idle_pool t1" "content t1 = (content t)(?i \<mapsto> ?q)" "wal t1 = wal t"
      "BufferManager.more t1 = BufferManager.more t"
      using redoRecord_due [OF assms(1) True p(1) assms(2), of ?q] False c by auto
    have "length p = PageSize" by (rule idle_fetch [OF assms(1) p(1)])
    then have "GetLSN ?q = LSN r" using redo_change_length [OF c] by (simp add: page_set_same)
    then have "missing dpt rs ?i ?q = missing dpt rs ?i p"
      using assms(3) False by (auto simp: missing_def intro!: filter_cong) (meson less_trans not_le)
    moreover have "missing dpt (r # rs) i x = missing dpt rs i x" if "i \<noteq> ?i" for i x using that by (simp add: missing_def)
    ultimately have "Option.bind (content t1 i) (\<lambda>p. replay_page (missing dpt rs i p) p) =
        Option.bind (content t i) (\<lambda>p. replay_page (missing dpt (r # rs) i p) p)" for i
      using m c p(1) r(3) by (cases "i = ?i") simp_all
    then show ?thesis using that [of t1] r by simp
  qed
qed

lemma redoPhase_from:
  assumes "idle_pool t" "wal_holds (wal t) rs" "k \<le> length rs"
    and "\<And>r. r \<in> set (drop k rs) \<Longrightarrow> due dpt r \<Longrightarrow>
      \<exists>p q. content t (PageID r) = Some p \<and> replay_page (missing dpt (drop k rs) (PageID r) p) p = Some q"
  shows "\<exists>t'. redoPhase dpt (wal_log.pos (wal t) rs k) t = Some (Inr (), t') \<and> idle_pool t' \<and> wal t' = wal t \<and>
    BufferManager.more t' = BufferManager.more t \<and>
    (\<forall>i. content t' i = Option.bind (content t i) (\<lambda>p. replay_page (missing dpt (drop k rs) i p) p))"
  using assms
proof (induction "length rs - k" arbitrary: k t)
  case 0
  then have "wal_log.pos (wal t) rs k = wal_log.pos (wal t) rs (length rs)" "drop k rs = []" by simp_all
  then show ?case using wal_log.rd_end [OF 0(3)] 0(2)
    by (auto simp: redoPhase.simps missing_def)
next
  case (Suc n)
  then have k: "k < length rs" by simp
  let ?r = "rs ! k" and ?tl = "drop (Suc k) rs" and ?w = "wal t"
  have dr: "drop k rs = ?r # ?tl" using k by (simp add: Cons_nth_drop_Suc)
  obtain sz where sz: "ReadRecord ?w (wal_log.pos ?w rs k) = Some (Inr (?r, sz))"
    "wal_log.pos ?w rs k + ucast sz = wal_log.pos ?w rs (Suc k)"
    by (rule wal_log.rd_pos [OF Suc.prems(2) k])
  have nz: "LSN ?r \<noteq> 0" using wal_log.lsn_mono [OF Suc.prems(2) k] by auto
  have later: "LSN ?r < LSN r" if "r \<in> set ?tl" for r
    using that wal_log.lsn_less [OF Suc.prems(2)] by (auto simp: in_set_conv_nth)
  obtain t1 where t1: "redoRecord dpt ?r t = Some (Inr (), t1)" "idle_pool t1" "wal t1 = ?w" "BufferManager.more t1 = BufferManager.more t"
    "\<And>i. Option.bind (content t1 i) (\<lambda>p. replay_page (missing dpt ?tl i p) p) =
       Option.bind (content t i) (\<lambda>p. replay_page (missing dpt (drop k rs) i p) p)"
    by (rule redo_step [OF Suc.prems(1) nz later, where dpt = dpt]) (use Suc.prems(4) [of ?r] dr in auto)
  have n: "n = length rs - Suc k" using Suc.hyps(2) by simp
  have h: "\<exists>p q. content t1 (PageID r) = Some p \<and> replay_page (missing dpt ?tl (PageID r) p) p = Some q" if r: "r \<in> set ?tl" "due dpt r" for r
  proof -
    obtain p q where "content t (PageID r) = Some p" "replay_page (missing dpt (drop k rs) (PageID r) p) p = Some q"
      using Suc.prems(4) [of r] r dr by auto
    then show ?thesis using t1(5) [of "PageID r"] by (cases "content t1 (PageID r)") auto
  qed
  obtain t' where ih: "redoPhase dpt (wal_log.pos ?w rs (Suc k)) t1 = Some (Inr (), t')" "idle_pool t'" "wal t' = ?w"
    "BufferManager.more t' = BufferManager.more t1"
    "\<And>i. content t' i = Option.bind (content t1 i) (\<lambda>p. replay_page (missing dpt ?tl i p) p)"
    using Suc.hyps(1) [OF n t1(2), unfolded t1(3), OF Suc.prems(2)] h k by auto
  have "redoPhase dpt (wal_log.pos ?w rs k) t = Some (Inr (), t')"
    using sz t1(1,3) ih(1) by (subst redoPhase.simps) simp
  then show ?case using ih(2-5) t1(3-5) by auto
qed

text \<open>The pass starts early enough: no record before its start is due.\<close>

lemma rec_min_fold:
  fixes lsn :: u64 and dpt :: dpt
  defines "m \<equiv> fold (\<lambda>(_, l) m. if l < m then l else m) dpt lsn"
  shows "m \<le> lsn" "\<And>i l. (i, l) \<in> set dpt \<Longrightarrow> m \<le> l" "m = lsn \<or> m \<in> snd ` set dpt"
proof -
  have "fold (\<lambda>(_, l) m. if l < m then l else m) dpt x \<le> x \<and>
      (\<forall>(i, l) \<in> set dpt. fold (\<lambda>(_, l) m. if l < m then l else m) dpt x \<le> l) \<and>
      (fold (\<lambda>(_, l) m. if l < m then l else m) dpt x = x \<or> fold (\<lambda>(_, l) m. if l < m then l else m) dpt x \<in> snd ` set dpt)" for x :: u64
    by (induction dpt arbitrary: x) (fastforce split: prod.splits)+
  from this [of lsn] show "m \<le> lsn" "\<And>i l. (i, l) \<in> set dpt \<Longrightarrow> m \<le> l" "m = lsn \<or> m \<in> snd ` set dpt"
    unfolding m_def by blast+
qed

lemma redo_start:
  assumes w: "wal_holds w rs" and d: "\<forall>(i, l) \<in> set dpt. l = 0 \<or> l \<in> LSN ` set rs" and c: "chk = 0 \<or> chk \<in> LSN ` set rs"
  obtains k where "k \<le> length rs" "startLSN w (minRecLSN chk (currentLSN w) dpt) = wal_log.pos w rs k"
    "\<And>r. r \<in> set (take k rs) \<Longrightarrow> \<not> due dpt r"
proof -
  let ?m = "minRecLSN chk (currentLSN w) dpt"
  have m: "?m = 0 \<or> ?m \<in> LSN ` set rs \<or> dpt \<noteq> [] \<and> ?m = currentLSN w"
    using d c rec_min_fold(3) [of dpt "currentLSN w"] by (force simp: minRecLSN_def)
  have low: "?m \<le> l" if "map_of dpt i = Some l" for i l
    using rec_min_fold(2) [OF map_of_SomeD [OF that]] that by (auto simp: minRecLSN_def)
  have p0: "wal_log.pos w rs 0 = 4"
    using w lsns_from_nth [of 4 rs 0] by (cases rs) (auto simp: wal_log.pos_def wal_holds_def length_log_bytes word_unat_eq_iff)
  have "\<exists>k \<le> length rs. startLSN w ?m = wal_log.pos w rs k \<and> (\<forall>r \<in> set (take k rs). LSN r < ?m)"
  proof (cases "?m = 0")
    case True
    then show ?thesis using p0 startLSN_holds [OF w] by (intro exI [of _ 0]) simp
  next
    case nz: False
    then have s: "startLSN w ?m = ?m" by (simp add: startLSN_def)
    obtain k where k: "k \<le> length rs" "?m = wal_log.pos w rs k"
    proof (cases "?m \<in> LSN ` set rs")
      case True
      then obtain k where "k < length rs" "?m = LSN (rs ! k)" by (auto simp: in_set_conv_nth)
      then show thesis using that [of k] by (simp add: wal_log.pos_def)
    next
      case False
      then show thesis using that [of "length rs"] m nz by (auto simp: wal_log.pos_def)
    qed
    have "LSN (rs ! j) < wal_log.pos w rs k" if "j < k" for j
      using wal_log.lsn_less [OF w that] wal_log.lsn_below_tail [OF w, of j] that k(1) by (auto simp: wal_log.pos_def)
    then have "\<forall>r \<in> set (take k rs). LSN r < ?m" unfolding k(2) using k(1) by (auto simp: in_set_conv_nth)
    then show ?thesis using k s by auto
  qed
  then obtain k where k: "k \<le> length rs" "startLSN w ?m = wal_log.pos w rs k" "\<forall>r \<in> set (take k rs). LSN r < ?m" by blast
  show ?thesis
  proof (rule that [OF k(1,2)])
    fix r assume "r \<in> set (take k rs)"
    then show "\<not> due dpt r" using k(3) low by (force simp: due_def)
  qed
qed

lemma redo_pass:
  assumes "idle_pool t" "wal_holds (wal t) rs"
    and "\<forall>(i, l) \<in> set dpt. l = 0 \<or> l \<in> LSN ` set rs" "chk = 0 \<or> chk \<in> LSN ` set rs"
    and ok: "\<forall>i \<in> fst ` set dpt. \<exists>p q. content t i = Some p \<and> replay_page (missing dpt rs i p) p = Some q"
  obtains t' where "redoPhase dpt (startLSN (wal t) (minRecLSN chk (currentLSN (wal t)) dpt)) t = Some (Inr (), t')" "idle_pool t'"
    "wal t' = wal t" "BufferManager.more t' = BufferManager.more t"
    "\<And>i. content t' i = Option.bind (content t i) (\<lambda>p. replay_page (missing dpt rs i p) p)"
proof -
  obtain k where k: "k \<le> length rs" "startLSN (wal t) (minRecLSN chk (currentLSN (wal t)) dpt) = wal_log.pos (wal t) rs k"
    "\<And>r. r \<in> set (take k rs) \<Longrightarrow> \<not> due dpt r" by (rule redo_start [OF assms(2-4)]) blast
  have m: "missing dpt (drop k rs) i p = missing dpt rs i p" for i p
  proof -
    have "missing dpt rs i p = missing dpt (take k rs @ drop k rs) i p" by simp
    moreover have "missing dpt (take k rs) i p = []" using k(3) by (auto simp: missing_def filter_empty_conv)
    ultimately show ?thesis by (simp add: missing_def del: append_take_drop_id)
  qed
  have "\<exists>p q. content t (PageID r) = Some p \<and> replay_page (missing dpt (drop k rs) (PageID r) p) p = Some q" if "due dpt r" for r
    using that ok unfolding m due_def by (metis map_of_SomeD fst_conv image_eqI)
  from redoPhase_from [OF assms(1,2) k(1) this, unfolded m] show ?thesis using that k(2) by auto
qed

section \<open>Rebuilding a leaf\<close>

text \<open>The effect of the records of a leaf on its cells, and that the cells fit after each of them.\<close>

definition rec_cell :: "LogRecord \<Rightarrow> KVCell" where
  "rec_cell r = NewKVCell (if OpType r = LogOpDelete then KEY_DELETED_FLAG else 0) (recKey r) (recValue r)"

definition leaf_write :: "LogRecord \<Rightarrow> bool" where
  "leaf_write r \<longleftrightarrow> OpType r = LogOpInsert \<or> OpType r = LogOpDelete"

definition redo_cells :: "LogRecord \<Rightarrow> KVCell list \<Rightarrow> KVCell list" where
  "redo_cells r kvs = (if leaf_write r then redo_put (rec_cell r) kvs else kvs)"

fun writes_fit :: "KVCell list \<Rightarrow> LogRecord list \<Rightarrow> bool" where
  "writes_fit kvs [] \<longleftrightarrow> True"
| "writes_fit kvs (r # rs) \<longleftrightarrow> OpType r \<noteq> LogOpFullPage \<and>
     (leaf_write r \<longrightarrow> kv_cell_fits (rec_cell r) \<and> space_used (map KVCell_Serialize (redo_cells r kvs)) \<le> PageSize) \<and>
     writes_fit (redo_cells r kvs) rs"

lemma leaf_page_SetLSN: "length p = PageSize \<Longrightarrow> leaf_page (SetLSN p l) kvs = leaf_page p kvs"
  using leaf_page_norm [of p kvs] leaf_page_norm [of "SetLSN p l" kvs] by simp

lemma replay_writes:
  assumes "leaf_page p kvs" "length p = PageSize" "writes_fit kvs rs"
  shows "\<exists>q. replay_page rs p = Some q \<and> leaf_page q (fold redo_cells rs kvs) \<and> GetLSN q = (if rs = [] then GetLSN p else LSN (last rs))"
  using assms
proof (induction rs arbitrary: p kvs)
  case (Cons r rs)
  obtain q where q: "redo_change r p = Some q" "leaf_page q (redo_cells r kvs)"
  proof (cases "leaf_write r")
    case True
    obtain q where "redoUpsertOnPage p (recKey r) (recValue r) (OpType r) = Some q" "leaf_page q (redo_put (rec_cell r) kvs)"
      by (rule redo_on_page [OF Cons.prems(1,2), of "OpType r" "rec_cell r" "recKey r" "recValue r"])
        (use Cons.prems(3) True in \<open>auto simp: leaf_write_def rec_cell_def redo_cells_def\<close>)
    then show ?thesis using that [of q] True Cons.prems(3) by (auto simp: redo_change_def redo_cells_def leaf_write_def)
  next
    case False
    then show ?thesis using that [of p] Cons.prems(1,3) by (auto simp: redo_change_def redo_cells_def leaf_write_def)
  qed
  have l: "length q = PageSize" using redo_change_length [OF q(1)] Cons.prems(2) by simp
  then have "leaf_page (SetLSN q (LSN r)) (redo_cells r kvs)" using q(2) leaf_page_SetLSN by blast
  then show ?case using Cons.IH [of "SetLSN q (LSN r)" "redo_cells r kvs"] Cons.prems(3) q(1) l by (auto simp: page_set_same)
qed simp

lemma replay_image:
  assumes "OpType r = LogOpFullPage" "leaf_page (recValue r) kvs" "length p = PageSize" "writes_fit kvs ws"
  shows "\<exists>q. replay_page (r # ws) p = Some q \<and> leaf_page q (fold redo_cells ws kvs) \<and> GetLSN q = LSN (last (r # ws))"
proof -
  have l: "length (recValue r) = PageSize" using assms(2) by (simp add: leaf_page_def wf_slotted_def)
  then have "redo_change r p = Some (recValue r)" using assms(1,3) by (simp add: redo_change_def blit_def)
  then show ?thesis
    using replay_writes [of "SetLSN (recValue r) (LSN r)" kvs ws] assms(2,4) l leaf_page_SetLSN [OF l] by (auto simp: page_set_same)
qed

section \<open>A crash with one stale leaf\<close>

definition stale_leaf :: page where
  "stale_leaf = SetPageID (NewPage PageTypeLeaf) 1"

definition crashed :: "WAL \<Rightarrow> BTree" where
  "crashed w = BufferManager.extend
     (NewBufferManager (Some (SetRootPageID (SetPageID (NewPage PageTypeMeta) 0) 1 @ stale_leaf)) 100 w False (\<lambda>_ xs. xs))
     (BTree.fields False 1 None)"

lemma stale_leaf_LSN: "GetLSN stale_leaf = 0"
  by (simp add: stale_leaf_def NewPage_def Page_Init_def page_getters page_setters Let_def sub_blit_other)

lemma crashed_obs: "idle_pool (crashed w)" "wal (crashed w) = w" "content (crashed w) 1 = Some stale_leaf"
proof -
  have wf: "wf_bm (crashed w)" by (simp add: crashed_def wf_NewBufferManager)
  have fr: "frame_at (crashed w) i = None" for i by (simp add: crashed_def NewBufferManager_obs)
  show "wal (crashed w) = w" by (simp add: crashed_def) (simp add: NewBufferManager_def)
  have f: "\<not> bmWal (crashed w)" "maxSize (crashed w) = 100" by (simp_all add: crashed_def) (simp_all add: NewBufferManager_def)
  show "idle_pool (crashed w)" using wf fr f by (simp add: idle_pool_def)
  have "pager (crashed w) = OpenFile (Some (SetRootPageID (SetPageID (NewPage PageTypeMeta) 0) 1 @ stale_leaf))"
    by (simp add: crashed_def) (simp add: NewBufferManager_def NewPager_def)
  moreover have "length stale_leaf = PageSize" by (simp add: stale_leaf_def)
  ultimately show "content (crashed w) 1 = Some stale_leaf"
    using disk_page_second [of "SetRootPageID (SetPageID (NewPage PageTypeMeta) 0) 1" stale_leaf] fr by (simp add: content_def)
qed

abbreviation (input) crash_key :: bytes where "crash_key \<equiv> BuildMVCCKey [106] 9"

lemma crash_log:
  obtains w r0 r1 where "wal_holds w [r0, r1]" "LSN r0 = 4" "missing [(1, 4)] [r0, r1] 1 stale_leaf = [r0, r1]" "OpType r0 = LogOpFullPage"
    "recValue r0 = demo_leaf" "leaf_page demo_leaf [demo_cell]" "writes_fit [demo_cell] [r1]"
    "fold redo_cells [r1] [demo_cell] = [demo_cell, NewKVCell 0 crash_key [120]]"
proof -
  let ?w0 = "NewWAL None" and ?r0 = "\<lparr>LSN = currentLSN (NewWAL None), TxnID = 0, PrevLSN = 0, PageID = 1, OpType = LogOpFullPage,
    recKey = [], recValue = demo_leaf\<rparr>"
  have lf: "leaf_page demo_leaf [demo_cell]" "length demo_leaf = 4096"
    by (rule demo_leaf_page(1)) (simp add: demo_leaf_def)
  have cur: "currentLSN ?w0 = 4" by (simp add: NewWAL_def OpenFile_def Let_def)
  let ?w1 = "snd (Append ?w0 0 1 0 LogOpFullPage [] demo_leaf)"
  have h1: "wal_holds ?w1 ([] @ [?r0])"
    by (rule Append_holds(2) [OF NewWAL_holds refl]) (simp_all add: rec_fits_def rec_size_def lf(2) length_log_bytes)
  let ?r1 = "\<lparr>LSN = currentLSN ?w1, TxnID = 9, PrevLSN = 0, PageID = 1, OpType = LogOpInsert, recKey = crash_key, recValue = [120]\<rparr>"
  let ?w2 = "snd (Append ?w1 9 1 0 LogOpInsert crash_key [120])"
  have "wal_holds ?w2 (([] @ [?r0]) @ [?r1])"
    by (rule Append_holds(2) [OF h1 refl]) (simp_all add: rec_fits_def rec_size_def lf(2) length_log_bytes BuildMVCCKey_layout)
  then have h: "wal_holds ?w2 [?r0, ?r1]" by simp
  have "LSN ?r0 < LSN ?r1" "0 < LSN ?r1" using wal_log.lsn_less [OF h, of 0 1] wal_log.lsn_mono [OF h, of 1] by simp_all
  then have m: "missing [(1, 4)] [?r0, ?r1] 1 stale_leaf = [?r0, ?r1]" using cur stale_leaf_LSN by (auto simp: missing_def due_def)
  have c: "redo_cells ?r1 [demo_cell] = [demo_cell, NewKVCell 0 crash_key [120]]"
    by (simp add: redo_cells_def leaf_write_def rec_cell_def redo_put_def demo_size) (simp add: NewKVCell_def BuildMVCCKey_layout)
  have "writes_fit [demo_cell] [?r1]"
    by (simp add: c) (simp add: rec_cell_def kv_cell_fits_def NewKVCell_def BuildMVCCKey_layout demo_cell_def KVCell_Size_def)
  then show ?thesis using that [of ?w2 ?r0 ?r1] h cur m lf(1) c by simp
qed

lemma crash_start:
  assumes "wal_holds w (r # rs)" "LSN r = 4"
  shows "startLSN w (minRecLSN 0 (currentLSN w) [(1, 4)]) = 4"
proof -
  have "4 < currentLSN w" using wal_log.lsn_below_tail [OF assms(1), of 0] assms(2) by simp
  then show ?thesis by (simp add: minRecLSN_def startLSN_def)
qed

section \<open>Properties of the redo pass\<close>

text \<open>C14: The redo pass repeats history, and rebuilds a leaf from its image and the writes logged after it. On a pool without
  pins and with logging off, as Recover has it, for a dirty page table whose LSNs are zero or those of records of the log, the
  pass started where Recover starts it terminates without an error. Every page then holds its old content with the changes of
  the records for it that are due by the table and newer than the page, in log order; the log is untouched. If for a page the
  first of these records is the image of a leaf and the others are writes that fit, or records that redo ignores, the page ends
  as that leaf with the writes applied, a new key going to the end of the page, and with the LSN of the last record, whatever
  older content the file had. It is assumed that the file has every page of the table and that the records of the
  other pages can be replayed.\<close>

theorem redo_rebuilds_leaf:
  assumes "idle_pool t" "wal_holds (wal t) rs" "\<forall>(i, l) \<in> set dpt. l = 0 \<or> l \<in> LSN ` set rs" "chk = 0 \<or> chk \<in> LSN ` set rs"
    and "\<forall>j \<in> fst ` set dpt. j \<noteq> i \<longrightarrow> (\<exists>p q. content t j = Some p \<and> replay_page (missing dpt rs j p) p = Some q)"
    and "content t i = Some p" "missing dpt rs i p = r # ws" "OpType r = LogOpFullPage" "leaf_page (recValue r) kvs" "writes_fit kvs ws"
  shows "\<exists>t' q. redoPhase dpt (startLSN (wal t) (minRecLSN chk (currentLSN (wal t)) dpt)) t = Some (Inr (), t') \<and> wal t' = wal t \<and>
    (\<forall>j. content t' j = Option.bind (content t j) (\<lambda>p. replay_page (missing dpt rs j p) p)) \<and>
    content t' i = Some q \<and> leaf_page q (fold redo_cells ws kvs) \<and> GetLSN q = LSN (last (r # ws))"
proof -
  have "length p = PageSize" by (rule idle_fetch [OF assms(1,6)])
  then obtain q where q: "replay_page (r # ws) p = Some q" "leaf_page q (fold redo_cells ws kvs)" "GetLSN q = LSN (last (r # ws))"
    using replay_image [OF assms(8,9) _ assms(10)] by blast
  then have "\<forall>j \<in> fst ` set dpt. \<exists>p q. content t j = Some p \<and> replay_page (missing dpt rs j p) p = Some q"
    using assms(5-7) by metis
  from redo_pass [OF assms(1-4) this] obtain t' where
    "redoPhase dpt (startLSN (wal t) (minRecLSN chk (currentLSN (wal t)) dpt)) t = Some (Inr (), t')"
    "wal t' = wal t" "\<And>j. content t' j = Option.bind (content t j) (\<lambda>p. replay_page (missing dpt rs j p) p)" by blast
  then show ?thesis using q assms(6,7) by auto
qed

theorem redo_rebuilds_leaf_witness:
  "\<exists>w t' q. content (crashed w) 1 = Some stale_leaf \<and> redoPhase [(1, 4)] 4 (crashed w) = Some (Inr (), t') \<and>
     content t' 1 = Some q \<and> leaf_page q [demo_cell, NewKVCell 0 crash_key [120]]"
proof -
  obtain w r0 r1 where w: "wal_holds w [r0, r1]" "LSN r0 = 4" "missing [(1, 4)] [r0, r1] 1 stale_leaf = [r0, r1]" "OpType r0 = LogOpFullPage"
    "recValue r0 = demo_leaf" "leaf_page demo_leaf [demo_cell]" "writes_fit [demo_cell] [r1]"
    "fold redo_cells [r1] [demo_cell] = [demo_cell, NewKVCell 0 crash_key [120]]" by (rule crash_log)
  note o = crashed_obs [of w]
  have h: "wal_holds (wal (crashed w)) [r0, r1]" using w(1) o(2) by simp
  have "\<exists>t' q. redoPhase [(1, 4)] (startLSN (wal (crashed w)) (minRecLSN 0 (currentLSN (wal (crashed w))) [(1, 4)])) (crashed w) = Some (Inr (), t') \<and>
      wal t' = wal (crashed w) \<and>
      (\<forall>j. content t' j = Option.bind (content (crashed w) j) (\<lambda>p. replay_page (missing [(1, 4)] [r0, r1] j p) p)) \<and>
      content t' 1 = Some q \<and> leaf_page q (fold redo_cells [r1] [demo_cell]) \<and> GetLSN q = LSN (last [r0, r1])"
    by (rule redo_rebuilds_leaf [OF o(1) h _ _ _ o(3) w(3,4) _ w(7)]) (use w(2,5,6) in simp_all)
  then show ?thesis unfolding o(2) crash_start [OF w(1,2)] w(8) using o(3) by blast
qed

end
