(* ===== verification/Spec2Isabelle.thy ===== *)
theory Spec2Isabelle
  imports Server_Run Vacuum_Reads Recovery_Undo Recovery_Redo
begin

text \<open>
  A verification development of ryu-db, a key-value store with a B+tree on slotted pages, a buffer
  pool, a write-ahead log, multi-version reads, crash recovery, a vacuum and a line-based server.

  \<^bold>\<open>The program and its model.\<close> Every layer calls the one below; a theory per layer holds its data, its
  operations in the order of the code and the lemmas the layers above use.

  \<^item> \<^verbatim>\<open>Prelude\<close>: Go's integers as words, byte slices as lists, slicing and \<^verbatim>\<open>copy\<close> with their panics, the codecs of
    \<^verbatim>\<open>encoding/binary\<close>, \<^verbatim>\<open>bytes.Compare\<close>, the error values (\<open>goerr\<close>). A function returns \<open>None\<close> when the Go code panics, waits
    for a latch that is never released or loops for ever, \<open>Inl e\<close> when it returns an error.
  \<^item> \<^verbatim>\<open>Checksum\<close>: CRC-32 as \<^verbatim>\<open>hash/crc32\<close> computes it; one changed byte changes it.
  \<^item> \<^verbatim>\<open>Cell\<close> (\<^verbatim>\<open>cell.go\<close>): key cells and key-value cells; the contract \<open>byte_codec\<close> (decoding inverts encoding).
  \<^item> \<^verbatim>\<open>Page\<close> (\<^verbatim>\<open>page.go\<close>): a page is its 4096 bytes, with 16-bit offsets; \<open>wf_slotted\<close> is its invariant, \<open>page_cells\<close> its
    abstraction to a list of cells, \<open>cell_page\<close> the contract of \<^verbatim>\<open>Insert\<close>.
  \<^item> \<^verbatim>\<open>Pager\<close> (\<^verbatim>\<open>pager.go\<close>): the file of pages, contract \<open>block_device\<close>.
  \<^item> \<^verbatim>\<open>Wal\<close> (\<^verbatim>\<open>wal.go\<close>): the record format and the log file; \<open>wal_holds w rs\<close> says that the file is the records rs, \<open>record_log\<close> is
    the contract of appending and reading; the scans of recovery advance along its positions (\<open>pos\<close>).
  \<^item> \<^verbatim>\<open>Txn\<close> (\<^verbatim>\<open>txn.go\<close>): status and last-LSN tables as association lists, the watermark, pruning, version keys.
  \<^item> \<^verbatim>\<open>Buffer_Manager\<close> (\<^verbatim>\<open>buffer_manager.go\<close>): frames with pins, latches and dirty flags, eviction. \<open>implements bm a\<close> relates
    a pool to an abstract store a: the content of every page up to its LSN (\<open>pview\<close>), the latches (\<open>pheld\<close>), the
    pages changed and not yet released (\<open>ptouched\<close>). \<open>page_store\<close> is the contract the tree uses. The order in which Go iterates over the
    page table is a parameter (\<open>ord\<close>).
  \<^item> \<^verbatim>\<open>BTree\<close> (\<^verbatim>\<open>btree.go\<close>): all operations of the tree on the record \<open>BTree\<close>, which extends the pool by the root id, the
    checkpoint file and whether the log is switched on. \<^verbatim>\<open>Free_List\<close> and \<^verbatim>\<open>Overflow\<close> hold the page allocator (contract
    \<open>free_stack\<close>) and the overflow chains of the same file.
  \<^item> \<^verbatim>\<open>Recovery\<close> (\<^verbatim>\<open>recovery.go\<close>, \<^verbatim>\<open>NewBTree\<close>), \<^verbatim>\<open>Vacuum\<close> (\<^verbatim>\<open>vacuum.go\<close>), \<^verbatim>\<open>Engine\<close> (\<^verbatim>\<open>internal/engine/db.go\<close>), \<^verbatim>\<open>Server\<close> (\<^verbatim>\<open>server.go\<close>: the
    interpreter of command lines and the loop of one connection, with the line limit of its scanner). \<^verbatim>\<open>Server_Run\<close>: the process of \<^verbatim>\<open>server.go\<close>,
    with many connections and the background routines, as the step relation \<open>server_step\<close>.

  \<^bold>\<open>Consistent databases.\<close> \<open>db_ok t a h es ps fs ov\<close> (\<^verbatim>\<open>Tree_Search\<close>) says that the tree t, whose pool implements a, is a search
  tree of height h with the cells es in key order on the pages ps, the free pages fs, and for each cell the overflow pages
  and the value \<open>ov\<close>; no page is latched. It is the invariant of the tree, and es is its abstraction.

  \<^bold>\<open>What the theorems show.\<close>

  \<^item> \<^verbatim>\<open>Tree_Search\<close>, \<^verbatim>\<open>Mvcc_Read\<close>: Find is lookup in es; FindLatest is the greatest visible version in the leaf that the descent for
    the reader's key ends in, and relates to the reader's snapshot.
  \<^item> \<^verbatim>\<open>Tree_Update\<close>: Insert and Delete into a leaf with room are the update of a sorted list; conflicts are refused
    without an effect. \<^verbatim>\<open>Tree_Split\<close>: splits of leaves and inner nodes up to a new root. \<^verbatim>\<open>Tree_Grow\<close>: upserts with splits, the
    contract \<open>kv_store\<close> interpreted on databases of small cells, and runs of clients (the inductive relation \<open>run\<close>) that refine a map.
  \<^item> \<^verbatim>\<open>Fresh_Database\<close>: a database opened without files starts as the empty map.
  \<^item> \<^verbatim>\<open>Txn_Abort\<close>: Rollback follows the PrevLSN chain, ends, and removes exactly the keys its transaction inserted, when all
    writes of the run, also those of other transactions, are in place (the relation \<open>txn_run\<close>); a rolled-back Delete leaves a live cell with an
    empty value.
  \<^item> \<^verbatim>\<open>Recovery_Analysis\<close>, \<^verbatim>\<open>Recovery_Redo\<close>, \<^verbatim>\<open>Recovery_Undo\<close>: the analysis pass computes the dirty pages and the unfinished
    transactions of the scanned log, a checkpoint reads back; the redo pass applies to every page the logged changes it lacks and rebuilds
    a leaf from its image and its later writes; the undo pass ends and removes the unfinished inserts, where these were logged against the
    leaves that still cover their keys.
  \<^item> \<^verbatim>\<open>Vacuum_Reads\<close>: the vacuum keeps the invariant and every read of a running transaction, if the versions below the watermark are committed.
  \<^item> \<^verbatim>\<open>Session\<close>: the life of a session's transaction, aborts after conflicts, and the transaction a failed command leaves behind.
    \<^verbatim>\<open>Server_Run\<close>: in every reachable state of the server (the relation \<open>server_run\<close>) the open transactions are running and belong to one
    session each, if the clock does not repeat the id of an open one.

  \<^bold>\<open>Bounds.\<close> Keys on disk are at most 187 bytes (\<open>max_key\<close>) where separators must fit into inner nodes, and cells of at most
  258 bytes with keys of 9 to 187 bytes are the small cells of \<^verbatim>\<open>Tree_Grow\<close>: then a split by number of cells always fits, whereas
  \<^verbatim>\<open>splitLeafCells\<close> can lose larger cells. The pool has at least 5 frames (the program uses 100), which is what a split pins at most.
  A write is admitted while the file is below \<open>2 ^ 31\<close> pages and the log below \<open>2 ^ 63\<close> bytes (\<open>2 ^ 56\<close> where a rollback follows),
  so that page ids and LSNs do not wrap. The loops over page chains, tree levels and the log are \<open>partial_function (option)\<close>, without
  fuel; that they end is part of each theorem about them.

  \<^bold>\<open>Not modelled.\<close> Sockets and the terminal client (\<^verbatim>\<open>cmd/db/main.go\<close>): pure input and output. Goroutines: the model runs one
  call of the tree at a time, so the interleaving of calls is covered (\<open>run\<close>, \<open>txn_run\<close>, \<open>server_run\<close>) but not the interleaving of two calls between
  their latches; the background vacuum and checkpoint routines take a step at any point of a run.
  Failures of the disk other than a closed file and a short read. White space and letter case of command lines outside ASCII.
  The three passes of recovery are proved one by one; no theorem says that a database is consistent after all of them, and it need not be: splits
  are not logged as writes, redo skips compensation records, drops the overflow flag and does not keep a leaf sorted.
\<close>

end
